(* ===== verification/Muduo_Prelude.thy ===== *)
theory Muduo_Prelude
  imports
    Main
    "HOL-Library.Word"
    "HOL-Library.Monad_Syntax"
    "HOL-Library.Signed_Division"
    "HOL-Library.Char_ord"
    "HOL-Library.List_Lexorder"
    "HOL-Library.Product_Lexorder"
    "HOL-Library.Sublist"
begin

section \<open>Shared vocabulary of the development\<close>

text \<open>
  What every component theory uses: the convention for aborting computations, the pieces of the
  C++ standard library the sources rely on (ranges of characters, searching, copying, ordered
  maps), and the lemmas about them.

  A C++ function that can fail an \<^verbatim>\<open>assert\<close>, call \<^verbatim>\<open>abort()\<close> (directly or through
  \<^verbatim>\<open>LOG_FATAL\<close> and \<^verbatim>\<open>LOG_SYSFATAL\<close>) or leave the range of an array is modelled by a
  function into \<open>option\<close>: \<open>None\<close> means that the process stops there, so a theorem that gives
  \<open>Some\<close> says in particular that no assertion of the code fails.  Error codes and null pointers
  that the code returns as values are values of the model.
\<close>

named_theorems op_defs \<open>definitions of the operations of a component\<close>
named_theorems inv_defs \<open>definitions of the invariants of a component\<close>
named_theorems word_bytes \<open>facts about the memory image of machine integers\<close>

subsection \<open>Assertions\<close>

definition cassert :: "bool \<Rightarrow> unit option" where
  "cassert P = (if P then Some () else None)"

lemma cassert_True [simp]: "cassert True = Some ()"
  by (simp add: cassert_def)

lemma cassert_False [simp]: "cassert False = None"
  by (simp add: cassert_def)

lemma bind_cassert [simp]: "Option.bind (cassert P) f = (if P then f () else None)"
  by (simp add: cassert_def)

lemma bind_eq_Some [simp]:
  "Option.bind m f = Some r \<longleftrightarrow> (\<exists>x. m = Some x \<and> f x = Some r)"
  by (cases m) auto

lemma if_None_eq_Some [simp]:
  "(if P then x else None) = Some r \<longleftrightarrow> P \<and> x = Some r"
  by auto

lemma if_None_eq_Some' [simp]:
  "(if P then None else x) = Some r \<longleftrightarrow> \<not> P \<and> x = Some r"
  by auto

subsection \<open>Ranges of a character array\<close>

text \<open>
  Pointers into a character array are indices.  \<open>subrange i j xs\<close> is the half-open range
  \<open>[i, j)\<close> that the C++ code passes as a pair of pointers.
\<close>

definition subrange :: "nat \<Rightarrow> nat \<Rightarrow> 'a list \<Rightarrow> 'a list" where
  "subrange i j xs = drop i (take j xs)"

lemma length_subrange [simp]: "j \<le> length xs \<Longrightarrow> length (subrange i j xs) = j - i"
  by (simp add: subrange_def)

lemma subrange_empty [simp]: "j \<le> i \<Longrightarrow> subrange i j xs = []"
  by (simp add: subrange_def)

lemma subrange_append_subrange:
  assumes "i \<le> j" "j \<le> k"
  shows "subrange i j xs @ subrange j k xs = subrange i k xs"
proof -
  have "take (k - i) (drop i xs) = take ((j - i) + (k - j)) (drop i xs)"
    using assms by simp
  also have "\<dots> = take (j - i) (drop i xs) @ take (k - j) (drop j xs)"
    using assms by (simp only: take_add drop_drop) simp
  finally show ?thesis by (simp add: subrange_def drop_take)
qed

lemma take_subrange: "n \<le> j - i \<Longrightarrow> i \<le> j \<Longrightarrow> take n (subrange i j xs) = subrange i (i + n) xs"
  by (simp add: subrange_def take_drop min_def add.commute)

lemma drop_subrange: "drop n (subrange i j xs) = subrange (i + n) j xs"
  by (simp add: subrange_def add.commute)

lemma take_drop_subrange: "take n (drop i xs) = subrange i (i + n) xs"
  by (simp add: subrange_def take_drop add.commute)

text \<open>\<^verbatim>\<open>std::copy\<close> of the range \<open>src\<close> to position \<open>i\<close> of \<open>dst\<close>; the target range has to fit.\<close>

definition copy_to :: "'a list \<Rightarrow> nat \<Rightarrow> 'a list \<Rightarrow> 'a list" where
  "copy_to src i dst = take i dst @ src @ drop (i + length src) dst"

lemma length_copy_to [simp]:
  "i + length src \<le> length dst \<Longrightarrow> length (copy_to src i dst) = length dst"
  by (simp add: copy_to_def)

lemma subrange_copy_to [simp]:
  "i + length src \<le> length dst \<Longrightarrow> subrange i (i + length src) (copy_to src i dst) = src"
  by (simp add: subrange_def copy_to_def)

lemma subrange_copy_to_before:
  "j \<le> k \<Longrightarrow> k \<le> length dst \<Longrightarrow> subrange i j (copy_to src k dst) = subrange i j dst"
  by (simp add: subrange_def copy_to_def min_def)

lemma drop_copy_to:
  "k + length src \<le> i \<Longrightarrow> k + length src \<le> length dst \<Longrightarrow>
   drop i (copy_to src k dst) = drop i dst"
  by (simp add: copy_to_def)

lemma subrange_copy_to_after:
  "k + length src \<le> i \<Longrightarrow> k + length src \<le> length dst \<Longrightarrow>
   subrange i j (copy_to src k dst) = subrange i j dst"
  by (simp add: subrange_def drop_take drop_copy_to)

text \<open>\<^verbatim>\<open>std::vector::resize\<close>: cut, or extend with zero characters.\<close>

definition vector_resize :: "nat \<Rightarrow> char list \<Rightarrow> char list" where
  "vector_resize n xs = take n xs @ replicate (n - length xs) (CHR 0x00)"

lemma length_vector_resize [simp]: "length (vector_resize n xs) = n"
  by (simp add: vector_resize_def)

lemma subrange_vector_resize [simp]:
  "j \<le> n \<Longrightarrow> j \<le> length xs \<Longrightarrow> subrange i j (vector_resize n xs) = subrange i j xs"
  by (simp add: subrange_def vector_resize_def min_def)

subsection \<open>Searching\<close>

text \<open>
  \<^verbatim>\<open>std::find\<close> and \<^verbatim>\<open>memchr\<close> for one character and \<^verbatim>\<open>std::search\<close> for a string: the
  offset of the first occurrence, or the length of the range (the end pointer) when there is none.
\<close>

fun std_find :: "'a \<Rightarrow> 'a list \<Rightarrow> nat" where
  "std_find c [] = 0"
| "std_find c (x # xs) = (if x = c then 0 else Suc (std_find c xs))"

fun std_search :: "'a list \<Rightarrow> 'a list \<Rightarrow> nat" where
  "std_search pat [] = 0"
| "std_search pat (x # xs) =
     (if take (length pat) (x # xs) = pat then 0 else Suc (std_search pat xs))"

lemma std_find_le [simp]: "std_find c xs \<le> length xs"
  by (induction xs) auto

lemma std_find_less_iff: "std_find c xs < length xs \<longleftrightarrow> c \<in> set xs"
  by (induction xs) auto

lemma std_find_eq_length_iff: "std_find c xs = length xs \<longleftrightarrow> c \<notin> set xs"
  by (induction xs) auto

lemma std_find_takeWhile: "take (std_find c xs) xs = takeWhile (\<lambda>x. x \<noteq> c) xs"
  by (induction xs) auto

lemma std_find_append:
  "std_find c (xs @ ys) = (if c \<in> set xs then std_find c xs else length xs + std_find c ys)"
  by (induction xs) auto

lemma nth_std_find: "c \<in> set xs \<Longrightarrow> xs ! std_find c xs = c"
  by (induction xs) auto

lemma std_search_le [simp]: "std_search pat xs \<le> length xs"
  by (induction xs) auto

lemma std_search_found:
  "std_search pat xs < length xs \<Longrightarrow>
   take (length pat) (drop (std_search pat xs) xs) = pat"
  by (induction xs) auto

lemma std_search_room:
  assumes "std_search pat xs < length xs"
  shows "std_search pat xs + length pat \<le> length xs"
proof -
  have "length (take (length pat) (drop (std_search pat xs) xs)) = length pat"
    using std_search_found [OF assms] by simp
  then show ?thesis using assms by simp
qed

text \<open>The search finds the first occurrence: no earlier offset matches.\<close>

lemma std_search_first:
  "i < std_search pat xs \<Longrightarrow> take (length pat) (drop i xs) \<noteq> pat"
proof (induction xs arbitrary: i)
  case Nil
  then show ?case by simp
next
  case (Cons x xs)
  then show ?case
    by (cases i) (auto split: if_splits)
qed

lemma std_search_eqI:
  assumes "take (length pat) (drop k xs) = pat" "k < length xs"
    and "\<And>i. i < k \<Longrightarrow> take (length pat) (drop i xs) \<noteq> pat"
  shows "std_search pat xs = k"
  using assms
proof (induction xs arbitrary: k)
  case Nil
  then show ?case by simp
next
  case (Cons x xs)
  show ?case
  proof (cases k)
    case 0
    with Cons.prems show ?thesis by simp
  next
    case (Suc k')
    have "take (length pat) (x # xs) \<noteq> pat"
      using Cons.prems(3) [of 0] Suc by simp
    moreover have "std_search pat xs = k'"
    proof (rule Cons.IH)
      show "take (length pat) (drop k' xs) = pat" "k' < length xs"
        using Cons.prems(1,2) Suc by simp_all
      show "take (length pat) (drop i xs) \<noteq> pat" if "i < k'" for i
        using Cons.prems(3) [of "Suc i"] Suc that by simp
    qed
    ultimately show ?thesis using Suc by simp
  qed
qed

text \<open>What was found stays the first occurrence when more data arrives behind it.\<close>

lemma sublist_take_drop:
  assumes "pat \<noteq> []"
  shows "sublist pat xs \<longleftrightarrow> (\<exists>i < length xs. take (length pat) (drop i xs) = pat)"
proof
  assume "sublist pat xs"
  then obtain ps ss where "xs = ps @ pat @ ss" by (auto simp: sublist_def)
  then show "\<exists>i < length xs. take (length pat) (drop i xs) = pat"
    using assms by (intro exI [of _ "length ps"]) simp
next
  assume "\<exists>i < length xs. take (length pat) (drop i xs) = pat"
  then obtain i where "take (length pat) (drop i xs) = pat" by blast
  then have "xs = take i xs @ pat @ drop (length pat) (drop i xs)"
    by (metis append_take_drop_id)
  then show "sublist pat xs" by (metis sublist_appendI)
qed

lemma std_search_None_iff:
  "pat \<noteq> [] \<Longrightarrow> std_search pat xs = length xs \<longleftrightarrow> \<not> sublist pat xs"
  using std_search_first std_search_found std_search_le [of pat xs]
  by (metis sublist_take_drop le_neq_implies_less)

lemma std_search_split:
  assumes "pat \<noteq> []" "std_search pat xs < length xs"
  shows "xs = take (std_search pat xs) xs @ pat @ drop (std_search pat xs + length pat) xs"
    and "\<not> sublist pat (take (std_search pat xs) xs @ butlast pat)"
proof -
  let ?k = "std_search pat xs"
  have found: "take (length pat) (drop ?k xs) = pat" by (rule std_search_found [OF assms(2)])
  show split: "xs = take ?k xs @ pat @ drop (?k + length pat) xs"
    by (metis found append_take_drop_id drop_drop add.commute)
  have line: "take ?k xs @ butlast pat = take (?k + (length pat - 1)) xs"
    using found by (metis butlast_take take_add butlast_conv_take take_take min.absorb1 diff_le_self)
  show "\<not> sublist pat (take ?k xs @ butlast pat)"
    unfolding line sublist_take_drop [OF assms(1)]
  proof clarify
    fix i assume i: "i < length (take (?k + (length pat - 1)) xs)"
      "take (length pat) (drop i (take (?k + (length pat - 1)) xs)) = pat"
    from arg_cong [OF i(2), of length] have "i < ?k" using assms(1) by (cases pat) auto
    moreover from this i(2) have "take (length pat) (drop i xs) = pat"
      by (simp add: drop_take min_absorb1)
    ultimately show False using std_search_first by blast
  qed
qed

lemma std_search_append:
  assumes "std_search pat xs < length xs"
  shows "std_search pat (xs @ ys) = std_search pat xs"
proof (rule std_search_eqI)
  let ?k = "std_search pat xs"
  have room: "?k + length pat \<le> length xs"
    by (rule std_search_room [OF assms])
  show "take (length pat) (drop ?k (xs @ ys)) = pat"
    using std_search_found [OF assms] room by simp
  show "?k < length (xs @ ys)" using assms by simp
  show "take (length pat) (drop i (xs @ ys)) \<noteq> pat" if "i < ?k" for i
    using std_search_first [OF that] room that by simp
qed

subsection \<open>Ordered maps\<close>

text \<open>
  A \<^verbatim>\<open>std::map\<close> is the association list its iteration would give: sorted by key, one entry
  per key.  \<open>smap_put\<close> is \<^verbatim>\<open>m[k] = v\<close>, \<open>smap_erase\<close> is \<^verbatim>\<open>m.erase(k)\<close>; \<^verbatim>\<open>m.find(k)\<close> is
  \<open>map_of m k\<close>.
\<close>

type_synonym ('k, 'v) smap = "('k \<times> 'v) list"

fun smap_put :: "'k::linorder \<Rightarrow> 'v \<Rightarrow> ('k, 'v) smap \<Rightarrow> ('k, 'v) smap" where
  "smap_put k v [] = [(k, v)]"
| "smap_put k v ((a, b) # m) =
     (if k < a then (k, v) # (a, b) # m
      else if k = a then (k, v) # m
      else (a, b) # smap_put k v m)"

definition smap_erase :: "'k \<Rightarrow> ('k, 'v) smap \<Rightarrow> ('k, 'v) smap" where
  "smap_erase k m = filter (\<lambda>(a, b). a \<noteq> k) m"

definition smap_ok :: "('k::linorder, 'v) smap \<Rightarrow> bool" where
  "smap_ok m \<longleftrightarrow> sorted_wrt (<) (map fst m)"

lemma map_of_smap_put [simp]: "map_of (smap_put k v m) = (map_of m)(k \<mapsto> v)"
  by (induction k v m rule: smap_put.induct) (auto simp: fun_eq_iff)

lemma map_of_smap_erase [simp]: "map_of (smap_erase k m) = (map_of m)(k := None)"
  by (induction m) (auto simp: smap_erase_def fun_eq_iff)

lemma set_smap_put_keys: "fst ` set (smap_put k v m) = insert k (fst ` set m)"
  by (induction k v m rule: smap_put.induct) auto

lemma smap_ok_Nil [simp]: "smap_ok []"
  by (simp add: smap_ok_def)

lemma smap_ok_put [simp]: "smap_ok m \<Longrightarrow> smap_ok (smap_put k v m)"
proof (induction k v m rule: smap_put.induct)
  case (1 k v)
  then show ?case by (simp add: smap_ok_def)
next
  case (2 k v a b m)
  have keys: "set (map fst (smap_put k v m)) = insert k (fst ` set m)"
    by (simp add: set_smap_put_keys)
  from 2 keys show ?case
    unfolding smap_ok_def by (auto simp: image_def)
qed

lemma smap_ok_erase [simp]: "smap_ok m \<Longrightarrow> smap_ok (smap_erase k m)"
  unfolding smap_ok_def smap_erase_def
  by (induction m) auto

lemma smap_ok_distinct: "smap_ok m \<Longrightarrow> distinct (map fst m)"
  unfolding smap_ok_def by (simp add: strict_sorted_iff)

subsection \<open>Decimal numbers\<close>

text \<open>
  What \<^verbatim>\<open>printf\<close> prints for \<^verbatim>\<open>%d\<close>: the digits of the absolute value, most significant first,
  with a minus sign, padded on the left to a field width.
\<close>

definition digit_char :: "nat \<Rightarrow> char" where
  "digit_char d = char_of (48 + d)"

fun show_nat :: "nat \<Rightarrow> string" where
  "show_nat n = (if n < 10 then [digit_char n] else show_nat (n div 10) @ [digit_char (n mod 10)])"

definition show_int :: "int \<Rightarrow> string" where
  "show_int i = (if i < 0 then CHR ''-'' # show_nat (nat (- i)) else show_nat (nat i))"

definition fmt_d :: "char \<Rightarrow> nat \<Rightarrow> int \<Rightarrow> string" where
  "fmt_d pad w i =
     (let digits = show_nat (nat \<bar>i\<bar>);
          sign = (if i < 0 then ''-'' else []);
          fill = replicate (w - length (sign @ digits)) pad
      in if pad = CHR ''0'' then sign @ fill @ digits else fill @ sign @ digits)"

definition is_digit :: "char \<Rightarrow> bool" where
  "is_digit c \<longleftrightarrow> 48 \<le> (of_char c :: nat) \<and> (of_char c :: nat) \<le> 57"

definition digit_val :: "char \<Rightarrow> nat" where
  "digit_val c = of_char c - 48"

definition nat_of_digits :: "string \<Rightarrow> nat" where
  "nat_of_digits = foldl (\<lambda>n c. 10 * n + digit_val c) 0"

declare show_nat.simps [simp del]

lemma of_digit_char: "d < 10 \<Longrightarrow> of_char (digit_char d) = 48 + d"
  by (simp add: digit_char_def)

lemma digit_char [simp]:
  "d < 10 \<Longrightarrow> is_digit (digit_char d)" "d < 10 \<Longrightarrow> digit_val (digit_char d) = d"
  by (simp_all add: is_digit_def digit_val_def of_digit_char)

lemma nat_of_digits_simps [simp]:
  "nat_of_digits [] = 0"
  "nat_of_digits (xs @ [c]) = 10 * nat_of_digits xs + digit_val c"
  "nat_of_digits [c] = digit_val c"
  by (simp_all add: nat_of_digits_def)

lemma nat_of_digits_show_nat [simp]: "nat_of_digits (show_nat n) = n"
proof (induction n rule: show_nat.induct)
  case (1 n)
  then show ?case by (subst show_nat.simps) simp
qed

lemma show_nat_digits: "\<forall>c \<in> set (show_nat n). is_digit c"
proof (induction n rule: show_nat.induct)
  case (1 n)
  then show ?case by (subst show_nat.simps) simp
qed

lemma show_nat_not_Nil [simp]: "show_nat n \<noteq> []"
  by (subst show_nat.simps) simp

lemma length_show_nat: "0 < k \<Longrightarrow> n < 10 ^ k \<Longrightarrow> length (show_nat n) \<le> k"
proof (induction n arbitrary: k rule: show_nat.induct)
  case (1 n)
  show ?case
  proof (cases "n < 10")
    case True
    then show ?thesis using "1.prems" by (subst show_nat.simps) simp
  next
    case False
    then have "k \<noteq> 1" using "1.prems" by auto
    then obtain j where j: "k = Suc j" "0 < j" using "1.prems"(1) by (cases k) auto
    then have "n div 10 < 10 ^ j" using "1.prems" by (simp add: div_less_iff_less_mult mult.commute)
    with "1.IH" [OF False j(2)] show ?thesis using False j by (subst show_nat.simps) simp
  qed
qed

subsection \<open>Strings of C\<close>

text \<open>
  A string handed to C ends at its first zero byte; \<^verbatim>\<open>snprintf\<close> into an array of \<open>n\<close> characters keeps
  what fits before the terminating zero.
\<close>

definition c_str :: "string \<Rightarrow> string" where
  "c_str s = takeWhile (\<lambda>c. c \<noteq> CHR 0x00) s"

definition snprintf :: "nat \<Rightarrow> string \<Rightarrow> string" where
  "snprintf n s = take (n - 1) s"

lemma snprintf_fits [simp]: "length s < n \<Longrightarrow> snprintf n s = s"
  by (simp add: snprintf_def)

lemma c_str_id [simp]: "CHR 0x00 \<notin> set s \<Longrightarrow> c_str s = s"
  by (auto simp: c_str_def takeWhile_eq_all_conv)

lemma c_str_zero_free [simp]: "CHR 0x00 \<notin> set (c_str s)"
  by (auto simp: c_str_def dest: set_takeWhileD)

text \<open>Access to a vector without a check of the bounds, which is undefined out of range.\<close>

definition vector_at :: "'a list \<Rightarrow> nat \<Rightarrow> 'a option" where
  "vector_at xs i = (if i < length xs then Some (xs ! i) else None)"

subsection \<open>Runs of operations\<close>

fun run_ops :: "('o \<Rightarrow> 's \<Rightarrow> 's option) \<Rightarrow> 'o list \<Rightarrow> 's \<Rightarrow> 's option" where
  "run_ops step [] s = Some s"
| "run_ops step (x # xs) s = Option.bind (step x s) (run_ops step xs)"

lemma run_ops_rel:
  assumes step: "\<And>x s t. R s t \<Longrightarrow> rel_option R (f x s) (g x t)"
    and "R s t"
  shows "rel_option R (run_ops f xs s) (run_ops g xs t)"
  using assms(2)
proof (induction xs arbitrary: s t)
  case (Cons x xs)
  from step [OF Cons.prems, of x] Cons.IH show ?case
    by (cases "f x s"; cases "g x t") auto
qed simp

lemma run_ops_append: "run_ops f (xs @ ys) s = Option.bind (run_ops f xs s) (run_ops f ys)"
  by (induction xs arbitrary: s) (auto split: Option.bind_splits)

text \<open>When the abstract operation is allowed, the concrete one succeeds and keeps the relation.\<close>

lemma run_ops_simulation:
  assumes step: "\<And>x s t t'. R s t \<Longrightarrow> g x t = Some t' \<Longrightarrow> \<exists>s'. f x s = Some s' \<and> R s' t'"
    and "R s t" "run_ops g xs t = Some t'"
  shows "\<exists>s'. run_ops f xs s = Some s' \<and> R s' t'"
  using assms(2,3)
proof (induction xs arbitrary: s t)
  case (Cons x xs)
  then obtain t1 where t1: "g x t = Some t1" "run_ops g xs t1 = Some t'" by (auto simp: bind_eq_Some_conv)
  obtain s1 where s1: "f x s = Some s1" "R s1 t1" using step [OF Cons.prems(1) t1(1)] by blast
  show ?case using Cons.IH [OF s1(2) t1(2)] s1(1) by simp
qed simp

lemma run_ops_invariant:
  assumes step: "\<And>x s s'. I s \<Longrightarrow> f x s = Some s' \<Longrightarrow> I s'"
    and "I s" "run_ops f xs s = Some s'"
  shows "I s'"
  using assms(2,3) by (induction xs arbitrary: s) (auto simp: bind_eq_Some_conv dest: step)

lemma run_ops_invariant_on:
  assumes step: "\<And>x s s'. x \<in> set xs \<Longrightarrow> I s \<Longrightarrow> f x s = Some s' \<Longrightarrow> I s'"
    and "I s" "run_ops f xs s = Some s'"
  shows "I s'"
  using assms by (induction xs arbitrary: s) (auto simp: bind_eq_Some_conv)

lemma run_ops_total:
  assumes step: "\<And>x s. x \<in> set xs \<Longrightarrow> I s \<Longrightarrow> \<exists>s'. f x s = Some s' \<and> I s' \<and> R s s'"
    and refl: "\<And>s. R s s" and trans: "\<And>s s1 s2. R s s1 \<Longrightarrow> R s1 s2 \<Longrightarrow> R s s2"
    and "I s"
  shows "\<exists>s'. run_ops f xs s = Some s' \<and> I s' \<and> R s s'"
  using step assms(4)
proof (induction xs arbitrary: s)
  case Nil
  then show ?case by (simp add: refl)
next
  case (Cons x xs)
  obtain s1 where s1: "f x s = Some s1" "I s1" "R s s1" using Cons.prems by force
  obtain s2 where "run_ops f xs s1 = Some s2" "I s2" "R s1 s2" using Cons.IH [OF _ s1(2)] Cons.prems(1) by force
  then show ?case using s1 trans by auto
qed

end
