(* ===== verification/Net_Endian.thy ===== *)
theory Net_Endian
  imports Muduo_Prelude
begin

section \<open>Byte order\<close>

text \<open>
  The integers that \<^verbatim>\<open>muduo/net/Buffer.h\<close> writes and reads travel through memory:
  \<^verbatim>\<open>muduo/net/Endian.h\<close> converts the value to network order and the bytes of the converted
  value are copied.  Both the conversion and the memory image depend on the byte order of the
  host, a parameter here; the lemmas below show that their composition does not.
\<close>

datatype endianness = LittleEndian | BigEndian

text \<open>The memory image of an integer: its bytes, least significant first on a little-endian host.\<close>

definition le_bytes :: "'a::len word \<Rightarrow> char list" where
  "le_bytes w = map (\<lambda>i. char_of (unat w div 256 ^ i)) [0..<LENGTH('a) div 8]"

fun le_value :: "char list \<Rightarrow> nat" where
  "le_value [] = 0"
| "le_value (c # cs) = of_char c + 256 * le_value cs"

definition be_bytes :: "'a::len word \<Rightarrow> char list" where
  "be_bytes w = rev (le_bytes w)"

definition word_to_mem :: "endianness \<Rightarrow> 'a::len word \<Rightarrow> char list" where
  "word_to_mem e w = (case e of LittleEndian \<Rightarrow> le_bytes w | BigEndian \<Rightarrow> be_bytes w)"

definition mem_to_word :: "endianness \<Rightarrow> char list \<Rightarrow> 'a::len word" where
  "mem_to_word e cs =
     (case e of LittleEndian \<Rightarrow> of_nat (le_value cs) | BigEndian \<Rightarrow> of_nat (le_value (rev cs)))"

text \<open>\<^verbatim>\<open>htobe16/32/64\<close> and \<^verbatim>\<open>be16/32/64toh\<close> of \<^verbatim>\<open><endian.h>\<close>: swap the bytes on a little-endian host.\<close>

definition bswap :: "'a::len word \<Rightarrow> 'a word" where
  "bswap w = of_nat (le_value (rev (le_bytes w)))"

definition htobe :: "endianness \<Rightarrow> 'a::len word \<Rightarrow> 'a word" where
  "htobe e w = (case e of LittleEndian \<Rightarrow> bswap w | BigEndian \<Rightarrow> w)"

definition betoh :: "endianness \<Rightarrow> 'a::len word \<Rightarrow> 'a word" where
  "betoh e w = (case e of LittleEndian \<Rightarrow> bswap w | BigEndian \<Rightarrow> w)"

text \<open>The conversions of \<^verbatim>\<open>muduo/net/Endian.h\<close>.\<close>

definition hostToNetwork64 :: "endianness \<Rightarrow> 64 word \<Rightarrow> 64 word" where
  "hostToNetwork64 e host64 = htobe e host64"

definition hostToNetwork32 :: "endianness \<Rightarrow> 32 word \<Rightarrow> 32 word" where
  "hostToNetwork32 e host32 = htobe e host32"

definition hostToNetwork16 :: "endianness \<Rightarrow> 16 word \<Rightarrow> 16 word" where
  "hostToNetwork16 e host16 = htobe e host16"

definition networkToHost64 :: "endianness \<Rightarrow> 64 word \<Rightarrow> 64 word" where
  "networkToHost64 e net64 = betoh e net64"

definition networkToHost32 :: "endianness \<Rightarrow> 32 word \<Rightarrow> 32 word" where
  "networkToHost32 e net32 = betoh e net32"

definition networkToHost16 :: "endianness \<Rightarrow> 16 word \<Rightarrow> 16 word" where
  "networkToHost16 e net16 = betoh e net16"

lemmas endian_defs =
  hostToNetwork64_def hostToNetwork32_def hostToNetwork16_def
  networkToHost64_def networkToHost32_def networkToHost16_def

subsection \<open>The memory image determines the value\<close>

lemma of_char_bound: "of_char c < (256 :: nat)"
  using of_char_of [of "of_char c :: nat"] by (metis char_of_char mod_less_divisor zero_less_numeral)

lemma length_le_bytes [simp]: "length (le_bytes (w :: 'a::len word)) = LENGTH('a) div 8"
  by (simp add: le_bytes_def)

lemma length_be_bytes [simp]: "length (be_bytes (w :: 'a::len word)) = LENGTH('a) div 8"
  by (simp add: be_bytes_def)

lemma le_value_digits:
  "le_value (map (\<lambda>i. char_of (n div 256 ^ i)) [0..<k]) = n mod 256 ^ k"
proof (induction k arbitrary: n)
  case 0
  then show ?case by simp
next
  case (Suc k)
  have shift: "map (\<lambda>i. char_of (n div 256 ^ i)) [0..<Suc k] =
      char_of n # map (\<lambda>i. char_of ((n div 256) div 256 ^ i)) [0..<k]"
    by (simp add: upt_conv_Cons map_Suc_upt [symmetric] div_mult2_eq [symmetric]
        del: upt_Suc)
  have "n mod 256 ^ Suc k = n mod 256 + 256 * (n div 256 mod 256 ^ k)"
    by (simp add: mod_mult2_eq)
  then show ?case
    by (simp only: shift le_value.simps Suc.IH of_char_of)
qed

lemma le_value_bound: "le_value cs < 256 ^ length cs"
proof (induction cs)
  case (Cons c cs)
  have "of_char c < (256 :: nat)" by (rule of_char_bound)
  moreover have "256 * le_value cs + 256 \<le> 256 * 256 ^ length cs"
    using Cons.IH by (simp add: mult.commute flip: mult_Suc)
  ultimately have "of_char c + 256 * le_value cs < 256 * 256 ^ length cs"
    by linarith
  then show ?case by simp
qed simp

lemma le_value_inj:
  "length cs = length ds \<Longrightarrow> le_value cs = le_value ds \<Longrightarrow> cs = ds"
proof (induction cs ds rule: list_induct2)
  case (Cons c cs d ds)
  have c: "of_char c < (256 :: nat)" and d: "of_char d < (256 :: nat)"
    by (rule of_char_bound)+
  from Cons.prems have eq: "of_char c + 256 * le_value cs = of_char d + 256 * le_value ds"
    by simp
  have "(of_char c + 256 * le_value cs) mod 256 = (of_char c :: nat)"
    "(of_char d + 256 * le_value ds) mod 256 = (of_char d :: nat)"
    using c d by simp_all
  with eq have "(of_char c :: nat) = of_char d" by simp
  moreover with eq have "le_value cs = le_value ds" by simp
  ultimately show ?case using Cons.IH by (simp add: of_char_eq_iff)
qed simp

text \<open>An integer type occupies whole bytes.\<close>

definition whole_bytes :: "'a::len word itself \<Rightarrow> bool" where
  "whole_bytes t \<longleftrightarrow> 8 dvd LENGTH('a)"

lemma whole_bytes_int [simp]:
  "whole_bytes TYPE(64 word)" "whole_bytes TYPE(32 word)"
  "whole_bytes TYPE(16 word)" "whole_bytes TYPE(8 word)"
  by (simp_all add: whole_bytes_def)

lemma pow256: "whole_bytes TYPE('a::len word) \<Longrightarrow> (256 :: nat) ^ (LENGTH('a) div 8) = 2 ^ LENGTH('a)"
proof -
  assume "whole_bytes TYPE('a word)"
  then have "2 ^ LENGTH('a) = (2 :: nat) ^ (8 * (LENGTH('a) div 8))"
    by (simp add: whole_bytes_def)
  also have "\<dots> = 256 ^ (LENGTH('a) div 8)"
    by (simp only: power_mult) simp
  finally show ?thesis by simp
qed

lemma le_value_le_bytes:
  "whole_bytes TYPE('a::len word) \<Longrightarrow> le_value (le_bytes (w :: 'a word)) = unat w"
  by (simp add: le_bytes_def le_value_digits pow256)

lemma le_bytes_le_value:
  assumes "whole_bytes TYPE('a::len word)" "length cs = LENGTH('a) div 8"
  shows "le_bytes (of_nat (le_value cs) :: 'a word) = cs"
proof (rule le_value_inj)
  have "le_value cs < 2 ^ LENGTH('a)"
    using le_value_bound [of cs] assms by (simp add: pow256)
  then show "le_value (le_bytes (of_nat (le_value cs) :: 'a word)) = le_value cs"
    using assms(1) by (simp add: le_value_le_bytes unat_of_nat)
qed (use assms in simp)

text \<open>
  Whatever the byte order of the host, copying the converted value to memory writes the bytes
  most significant first, and reading them back and converting gives the value again.
\<close>

lemma word_to_mem_htobe [word_bytes]:
  assumes "whole_bytes TYPE('a::len word)"
  shows "word_to_mem e (htobe e (w :: 'a word)) = be_bytes w"
  using assms
  by (cases e) (simp_all add: word_to_mem_def htobe_def bswap_def be_bytes_def le_bytes_le_value)

lemma betoh_mem_to_word [word_bytes]:
  assumes "whole_bytes TYPE('a::len word)"
  shows "betoh e (mem_to_word e (be_bytes (w :: 'a word))) = w"
  using assms
  by (cases e)
    (simp_all add: mem_to_word_def betoh_def bswap_def be_bytes_def le_bytes_le_value
      le_value_le_bytes)

lemma be_bytes_inj:
  "whole_bytes TYPE('a::len word) \<Longrightarrow> be_bytes (v :: 'a word) = be_bytes w \<Longrightarrow> v = w"
  by (metis betoh_mem_to_word)

end
