(* ===== verification/Base_StringPiece.thy ===== *)
theory Base_StringPiece
  imports Muduo_Prelude
begin

section \<open>String pieces\<close>

text \<open>
  \<^verbatim>\<open>muduo/base/StringPiece.h\<close>: a pointer and an \<^verbatim>\<open>int\<close> length that view characters owned by
  somebody else.  The pointer is represented by the memory that starts there, so moving it forward
  drops characters.  \<open>StringPiece_ok\<close> says that the view lies inside that memory; the operations
  are only defined by the language for such views.
\<close>

record StringPiece =
  sp_ptr :: "char list"
  sp_length :: int

definition StringPiece_ok :: "StringPiece \<Rightarrow> bool" where
  "StringPiece_ok s \<longleftrightarrow> 0 \<le> sp_length s \<and> nat (sp_length s) \<le> length (sp_ptr s)"

text \<open>\<^verbatim>\<open>static_cast<int>\<close> of a size: the low 32 bits, read as a signed number.\<close>

definition size_to_int :: "nat \<Rightarrow> int" where
  "size_to_int n = sint (of_nat n :: 32 word)"

text \<open>\<^verbatim>\<open>memcmp\<close>: the first difference among the first \<open>n\<close> unsigned bytes decides.\<close>

fun memcmp :: "char list \<Rightarrow> char list \<Rightarrow> nat \<Rightarrow> int" where
  "memcmp (a # as) (b # bs) (Suc n) = (if a < b then -1 else if b < a then 1 else memcmp as bs n)"
| "memcmp _ _ _ = 0"

definition StringPiece_of_string :: "string \<Rightarrow> StringPiece" where
  "StringPiece_of_string str = \<lparr>sp_ptr = str, sp_length = size_to_int (length str)\<rparr>"

definition StringPiece_size :: "StringPiece \<Rightarrow> int" where
  "StringPiece_size s = sp_length s"

definition StringPiece_empty :: "StringPiece \<Rightarrow> bool" where
  "StringPiece_empty s \<longleftrightarrow> sp_length s = 0"

definition StringPiece_set :: "char list \<Rightarrow> int \<Rightarrow> StringPiece" where
  "StringPiece_set buffer len = \<lparr>sp_ptr = buffer, sp_length = len\<rparr>"

definition StringPiece_remove_prefix :: "nat \<Rightarrow> StringPiece \<Rightarrow> StringPiece" where
  "StringPiece_remove_prefix n s = \<lparr>sp_ptr = drop n (sp_ptr s), sp_length = sp_length s - int n\<rparr>"

definition StringPiece_remove_suffix :: "nat \<Rightarrow> StringPiece \<Rightarrow> StringPiece" where
  "StringPiece_remove_suffix n s = s\<lparr>sp_length := sp_length s - int n\<rparr>"

definition StringPiece_eq :: "StringPiece \<Rightarrow> StringPiece \<Rightarrow> bool" where
  "StringPiece_eq s x \<longleftrightarrow>
     sp_length s = sp_length x \<and> memcmp (sp_ptr s) (sp_ptr x) (nat (sp_length s)) = 0"

text \<open>
  The four comparison operators are instances of one macro with the comparison of the lengths and
  the comparison of the \<^verbatim>\<open>memcmp\<close> result as arguments.
\<close>

definition StringPiece_binary_predicate ::
  "(int \<Rightarrow> int \<Rightarrow> bool) \<Rightarrow> (int \<Rightarrow> int \<Rightarrow> bool) \<Rightarrow> StringPiece \<Rightarrow> StringPiece \<Rightarrow> bool" where
  "StringPiece_binary_predicate cmp auxcmp s x =
     (let r = memcmp (sp_ptr s) (sp_ptr x)
                (nat (if sp_length s < sp_length x then sp_length s else sp_length x))
      in auxcmp r 0 \<or> (r = 0 \<and> cmp (sp_length s) (sp_length x)))"

definition StringPiece_less :: "StringPiece \<Rightarrow> StringPiece \<Rightarrow> bool" where
  "StringPiece_less = StringPiece_binary_predicate (<) (<)"

definition StringPiece_le :: "StringPiece \<Rightarrow> StringPiece \<Rightarrow> bool" where
  "StringPiece_le = StringPiece_binary_predicate (\<le>) (<)"

definition StringPiece_ge :: "StringPiece \<Rightarrow> StringPiece \<Rightarrow> bool" where
  "StringPiece_ge = StringPiece_binary_predicate (\<ge>) (>)"

definition StringPiece_greater :: "StringPiece \<Rightarrow> StringPiece \<Rightarrow> bool" where
  "StringPiece_greater = StringPiece_binary_predicate (>) (>)"

definition StringPiece_compare :: "StringPiece \<Rightarrow> StringPiece \<Rightarrow> int" where
  "StringPiece_compare s x =
     (let r = memcmp (sp_ptr s) (sp_ptr x)
                (nat (if sp_length s < sp_length x then sp_length s else sp_length x))
      in if r = 0
         then (if sp_length s < sp_length x then -1
               else if sp_length s > sp_length x then 1 else r)
         else r)"

definition StringPiece_as_string :: "StringPiece \<Rightarrow> string" where
  "StringPiece_as_string s = take (nat (sp_length s)) (sp_ptr s)"

definition StringPiece_starts_with :: "StringPiece \<Rightarrow> StringPiece \<Rightarrow> bool" where
  "StringPiece_starts_with s x \<longleftrightarrow>
     sp_length s \<ge> sp_length x \<and> memcmp (sp_ptr s) (sp_ptr x) (nat (sp_length x)) = 0"

subsection \<open>Comparison is the lexicographic order of the viewed strings\<close>

lemma size_to_int_small: "n < 2 ^ 31 \<Longrightarrow> size_to_int n = int n"
  unfolding size_to_int_def
  by (subst of_int_of_nat_eq [symmetric], subst int_word_sint) simp

lemma memcmp_eq_0_iff:
  "n \<le> length as \<Longrightarrow> n \<le> length bs \<Longrightarrow> memcmp as bs n = 0 \<longleftrightarrow> take n as = take n bs"
  by (induction as bs n rule: memcmp.induct) auto

lemma memcmp_cases: "memcmp as bs n = 0 \<or> memcmp as bs n = -1 \<or> memcmp as bs n = 1"
  by (induction as bs n rule: memcmp.induct) auto

text \<open>The key fact: \<^verbatim>\<open>memcmp\<close> on the common length, then the lengths.\<close>

lemma memcmp_lex:
  assumes "la \<le> length as" "lb \<le> length bs"
  shows "take la as < take lb bs \<longleftrightarrow>
     memcmp as bs (min la lb) < 0 \<or> (memcmp as bs (min la lb) = 0 \<and> la < lb)"
  using assms
proof (induction la arbitrary: as bs lb)
  case 0
  then show ?case by (cases lb; cases bs) auto
next
  case (Suc la)
  then obtain a as' where as: "as = a # as'" by (cases as) auto
  show ?case
  proof (cases lb)
    case 0
    then show ?thesis by simp
  next
    case (Suc lb')
    with Suc.prems obtain b bs' where bs: "bs = b # bs'" by (cases bs) auto
    show ?thesis using Suc.IH [of as' lb' bs'] Suc.prems as bs Suc by auto
  qed
qed

lemma memcmp_swap: "memcmp bs as n = - memcmp as bs n"
  by (induction as bs n rule: memcmp.induct) auto

lemma StringPiece_less_iff:
  assumes "StringPiece_ok s" "StringPiece_ok x"
  shows "StringPiece_less s x \<longleftrightarrow> StringPiece_as_string s < StringPiece_as_string x"
proof -
  have "nat (if sp_length s < sp_length x then sp_length s else sp_length x) =
      min (nat (sp_length s)) (nat (sp_length x))" by auto
  then show ?thesis
    using assms memcmp_lex [of "nat (sp_length s)" "sp_ptr s" "nat (sp_length x)" "sp_ptr x"]
    by (auto simp: StringPiece_less_def StringPiece_binary_predicate_def StringPiece_as_string_def
        StringPiece_ok_def Let_def)
qed

lemma StringPiece_greater_iff:
  assumes "StringPiece_ok s" "StringPiece_ok x"
  shows "StringPiece_greater s x \<longleftrightarrow> StringPiece_as_string x < StringPiece_as_string s"
proof -
  have "nat (if sp_length s < sp_length x then sp_length s else sp_length x) =
      min (nat (sp_length x)) (nat (sp_length s))" by auto
  then show ?thesis
    using assms memcmp_lex [of "nat (sp_length x)" "sp_ptr x" "nat (sp_length s)" "sp_ptr s"]
      memcmp_swap [of "sp_ptr s" "sp_ptr x"]
    by (auto simp: StringPiece_greater_def StringPiece_binary_predicate_def
        StringPiece_as_string_def StringPiece_ok_def Let_def)
qed

lemma StringPiece_eq_iff:
  assumes "StringPiece_ok s" "StringPiece_ok x"
  shows "StringPiece_eq s x \<longleftrightarrow> StringPiece_as_string s = StringPiece_as_string x"
proof -
  have "length (StringPiece_as_string s) = nat (sp_length s)"
    "length (StringPiece_as_string x) = nat (sp_length x)"
    using assms by (simp_all add: StringPiece_as_string_def StringPiece_ok_def)
  then have "StringPiece_as_string s = StringPiece_as_string x \<Longrightarrow> sp_length s = sp_length x"
    using assms by (metis StringPiece_ok_def eq_nat_nat_iff)
  then show ?thesis
    using assms
    by (auto simp: StringPiece_eq_def StringPiece_as_string_def StringPiece_ok_def memcmp_eq_0_iff)
qed

lemma StringPiece_compare_iff:
  assumes "StringPiece_ok s" "StringPiece_ok x"
  shows "(StringPiece_compare s x < 0 \<longleftrightarrow> StringPiece_as_string s < StringPiece_as_string x) \<and>
    (StringPiece_compare s x > 0 \<longleftrightarrow> StringPiece_as_string x < StringPiece_as_string s)"
proof -
  have "StringPiece_compare s x < 0 \<longleftrightarrow> StringPiece_less s x"
    "StringPiece_compare s x > 0 \<longleftrightarrow> StringPiece_greater s x"
    using assms
    by (auto simp: StringPiece_compare_def StringPiece_less_def StringPiece_greater_def
        StringPiece_binary_predicate_def Let_def)
  then show ?thesis
    using assms by (simp add: StringPiece_less_iff StringPiece_greater_iff)
qed

lemma StringPiece_le_ge_iff:
  assumes "StringPiece_ok s" "StringPiece_ok x"
  shows "(StringPiece_le s x \<longleftrightarrow> StringPiece_as_string s \<le> StringPiece_as_string x) \<and>
    (StringPiece_ge s x \<longleftrightarrow> StringPiece_as_string x \<le> StringPiece_as_string s)"
proof -
  have "StringPiece_le s x \<longleftrightarrow> \<not> StringPiece_greater s x"
    "StringPiece_ge s x \<longleftrightarrow> \<not> StringPiece_less s x"
    using memcmp_cases
    by (auto simp: StringPiece_le_def StringPiece_ge_def StringPiece_less_def
        StringPiece_greater_def StringPiece_binary_predicate_def Let_def)
  then show ?thesis
    using assms by (simp add: StringPiece_less_iff StringPiece_greater_iff not_less)
qed

lemma StringPiece_starts_with_iff:
  assumes "StringPiece_ok s" "StringPiece_ok x"
  shows "StringPiece_starts_with s x \<longleftrightarrow>
    prefix (StringPiece_as_string x) (StringPiece_as_string s)"
proof (cases "sp_length s \<ge> sp_length x")
  case True
  have pre: "prefix t u \<longleftrightarrow> take (length t) u = t" for t u :: string
    by (metis append_eq_conv_conj prefix_def take_is_prefix)
  show ?thesis
    using assms True
    by (simp add: StringPiece_starts_with_def StringPiece_ok_def memcmp_eq_0_iff
        StringPiece_as_string_def pre min.absorb2 min.absorb1 nat_mono)
next
  case False
  then have "\<not> length (StringPiece_as_string x) \<le> length (StringPiece_as_string s)"
    using assms by (auto simp: StringPiece_as_string_def StringPiece_ok_def)
  then show ?thesis
    using False prefix_length_le by (auto simp: StringPiece_starts_with_def)
qed

end
