(* ===== verification/Net_Buffer.thy ===== *)
theory Net_Buffer
  imports Net_Endian Base_StringPiece
begin

section \<open>The byte buffer\<close>

text \<open>
  \<^verbatim>\<open>muduo/net/Buffer.h\<close> and \<^verbatim>\<open>Buffer.cc\<close>: a vector of characters with a reader and a writer
  index.  Every operation of the class is a definition here, with its assertions.  Pointers into
  the buffer (\<^verbatim>\<open>peek()\<close>, \<^verbatim>\<open>beginWrite()\<close>, the result of \<^verbatim>\<open>findCRLF()\<close>) are indices into the
  vector.  Sizes are natural numbers: a \<^verbatim>\<open>std::vector\<close> never holds as many as \<open>2 ^ 63\<close>
  characters, so the sums of the code do not wrap around.

  The lemmas show that the class implements a queue of bytes: \<open>Buffer_contents\<close> maps a buffer to
  the bytes between the two indices, and each operation acts on that list as its name says.
\<close>

record Buffer =
  buffer :: "char list"
  readerIndex :: nat
  writerIndex :: nat

definition kCheapPrepend :: nat where
  "kCheapPrepend = 8"

definition kInitialSize :: nat where
  "kInitialSize = 1024"

definition kCRLF :: string where
  "kCRLF = [CHR 0x0D, CHR 0x0A]"

subsection \<open>Construction and access\<close>

definition Buffer_new :: "nat \<Rightarrow> Buffer" where
  "Buffer_new initialSize =
     \<lparr>buffer = replicate (kCheapPrepend + initialSize) (CHR 0x00),
      readerIndex = kCheapPrepend, writerIndex = kCheapPrepend\<rparr>"

definition Buffer_swap :: "Buffer \<times> Buffer \<Rightarrow> Buffer \<times> Buffer" where
  "Buffer_swap = (\<lambda>(this, rhs).
     (\<lparr>buffer = buffer rhs, readerIndex = readerIndex rhs, writerIndex = writerIndex rhs\<rparr>,
      \<lparr>buffer = buffer this, readerIndex = readerIndex this, writerIndex = writerIndex this\<rparr>))"

definition readableBytes :: "Buffer \<Rightarrow> nat" where
  "readableBytes b = writerIndex b - readerIndex b"

definition writableBytes :: "Buffer \<Rightarrow> nat" where
  "writableBytes b = length (buffer b) - writerIndex b"

definition prependableBytes :: "Buffer \<Rightarrow> nat" where
  "prependableBytes b = readerIndex b"

definition Buffer_peek :: "Buffer \<Rightarrow> nat" where
  "Buffer_peek b = readerIndex b"

definition beginWrite :: "Buffer \<Rightarrow> nat" where
  "beginWrite b = writerIndex b"

definition findCRLF :: "Buffer \<Rightarrow> nat option" where
  "findCRLF b =
     (let crlf = Buffer_peek b
            + std_search kCRLF (subrange (Buffer_peek b) (beginWrite b) (buffer b))
      in if crlf = beginWrite b then None else Some crlf)"

definition findCRLF_from :: "nat \<Rightarrow> Buffer \<Rightarrow> nat option option" where
  "findCRLF_from start b = do {
     cassert (Buffer_peek b \<le> start);
     cassert (start \<le> beginWrite b);
     let crlf = start + std_search kCRLF (subrange start (beginWrite b) (buffer b));
     Some (if crlf = beginWrite b then None else Some crlf)
   }"

text \<open>\<^verbatim>\<open>memchr\<close>: the null pointer when the character does not occur in the range.\<close>

definition memchr :: "char list \<Rightarrow> nat \<Rightarrow> nat \<Rightarrow> char \<Rightarrow> nat option" where
  "memchr mem start n c =
     (let i = std_find c (subrange start (start + n) mem)
      in if i < length (subrange start (start + n) mem) then Some (start + i) else None)"

definition findEOL :: "Buffer \<Rightarrow> nat option" where
  "findEOL b = memchr (buffer b) (Buffer_peek b) (readableBytes b) (CHR 0x0A)"

definition findEOL_from :: "nat \<Rightarrow> Buffer \<Rightarrow> nat option option" where
  "findEOL_from start b = do {
     cassert (Buffer_peek b \<le> start);
     cassert (start \<le> beginWrite b);
     Some (memchr (buffer b) start (beginWrite b - start) (CHR 0x0A))
   }"

definition toStringPiece :: "Buffer \<Rightarrow> StringPiece" where
  "toStringPiece b =
     \<lparr>sp_ptr = drop (Buffer_peek b) (buffer b), sp_length = size_to_int (readableBytes b)\<rparr>"

subsection \<open>Consuming\<close>

definition retrieveAll :: "Buffer \<Rightarrow> Buffer" where
  "retrieveAll b = b\<lparr>readerIndex := kCheapPrepend, writerIndex := kCheapPrepend\<rparr>"

definition retrieve :: "nat \<Rightarrow> Buffer \<Rightarrow> Buffer option" where
  "retrieve len b = do {
     cassert (len \<le> readableBytes b);
     Some (if len < readableBytes b then b\<lparr>readerIndex := readerIndex b + len\<rparr>
           else retrieveAll b)
   }"

definition retrieveUntil :: "nat \<Rightarrow> Buffer \<Rightarrow> Buffer option" where
  "retrieveUntil e b = do {
     cassert (Buffer_peek b \<le> e);
     cassert (e \<le> beginWrite b);
     retrieve (e - Buffer_peek b) b
   }"

definition retrieveInt64 :: "Buffer \<Rightarrow> Buffer option" where
  "retrieveInt64 = retrieve 8"

definition retrieveInt32 :: "Buffer \<Rightarrow> Buffer option" where
  "retrieveInt32 = retrieve 4"

definition retrieveInt16 :: "Buffer \<Rightarrow> Buffer option" where
  "retrieveInt16 = retrieve 2"

definition retrieveInt8 :: "Buffer \<Rightarrow> Buffer option" where
  "retrieveInt8 = retrieve 1"

definition retrieveAsString :: "nat \<Rightarrow> Buffer \<Rightarrow> (string \<times> Buffer) option" where
  "retrieveAsString len b = do {
     cassert (len \<le> readableBytes b);
     let result = take len (drop (Buffer_peek b) (buffer b));
     b' \<leftarrow> retrieve len b;
     Some (result, b')
   }"

definition retrieveAllAsString :: "Buffer \<Rightarrow> (string \<times> Buffer) option" where
  "retrieveAllAsString b = retrieveAsString (readableBytes b) b"

subsection \<open>Filling\<close>

definition makeSpace :: "nat \<Rightarrow> Buffer \<Rightarrow> Buffer option" where
  "makeSpace len b =
     (if writableBytes b + prependableBytes b < len + kCheapPrepend
      then Some (b\<lparr>buffer := vector_resize (writerIndex b + len) (buffer b)\<rparr>)
      else do {
        cassert (kCheapPrepend < readerIndex b);
        let readable = readableBytes b;
        let b' = b\<lparr>buffer := copy_to (subrange (readerIndex b) (writerIndex b) (buffer b))
                               kCheapPrepend (buffer b),
                    readerIndex := kCheapPrepend,
                    writerIndex := kCheapPrepend + readable\<rparr>;
        cassert (readable = readableBytes b');
        Some b'
      })"

definition ensureWritableBytes :: "nat \<Rightarrow> Buffer \<Rightarrow> Buffer option" where
  "ensureWritableBytes len b = do {
     b' \<leftarrow> (if writableBytes b < len then makeSpace len b else Some b);
     cassert (writableBytes b' \<ge> len);
     Some b'
   }"

definition hasWritten :: "nat \<Rightarrow> Buffer \<Rightarrow> Buffer option" where
  "hasWritten len b = do {
     cassert (len \<le> writableBytes b);
     Some (b\<lparr>writerIndex := writerIndex b + len\<rparr>)
   }"

definition unwrite :: "nat \<Rightarrow> Buffer \<Rightarrow> Buffer option" where
  "unwrite len b = do {
     cassert (len \<le> readableBytes b);
     Some (b\<lparr>writerIndex := writerIndex b - len\<rparr>)
   }"

text \<open>\<open>data\<close> is the range \<^verbatim>\<open>[data, data+len)\<close>.\<close>

definition Buffer_append :: "char list \<Rightarrow> Buffer \<Rightarrow> Buffer option" where
  "Buffer_append data b = do {
     b' \<leftarrow> ensureWritableBytes (length data) b;
     hasWritten (length data) (b'\<lparr>buffer := copy_to data (beginWrite b') (buffer b')\<rparr>)
   }"

text \<open>
  The overload for string pieces passes the \<^verbatim>\<open>int\<close> length as a \<^verbatim>\<open>size_t\<close>, so a negative
  length becomes an enormous one; reading past the viewed memory has no defined result.
\<close>

definition Buffer_append_piece :: "StringPiece \<Rightarrow> Buffer \<Rightarrow> Buffer option" where
  "Buffer_append_piece str b =
     (let len = nat (sp_length str mod 2 ^ 64)
      in do {
        cassert (len \<le> length (sp_ptr str));
        Buffer_append (take len (sp_ptr str)) b
      })"

definition prepend :: "char list \<Rightarrow> Buffer \<Rightarrow> Buffer option" where
  "prepend data b = do {
     cassert (length data \<le> prependableBytes b);
     let b' = b\<lparr>readerIndex := readerIndex b - length data\<rparr>;
     Some (b'\<lparr>buffer := copy_to data (readerIndex b') (buffer b')\<rparr>)
   }"

definition shrink :: "nat \<Rightarrow> Buffer \<Rightarrow> Buffer option" where
  "shrink reserve b = do {
     other \<leftarrow> ensureWritableBytes (readableBytes b + reserve) (Buffer_new kInitialSize);
     other \<leftarrow> Buffer_append_piece (toStringPiece b) other;
     Some (fst (Buffer_swap (b, other)))
   }"

subsection \<open>Integers in network byte order\<close>

text \<open>The byte order of the host is the parameter \<open>e\<close>.\<close>

definition appendInt64 :: "endianness \<Rightarrow> 64 word \<Rightarrow> Buffer \<Rightarrow> Buffer option" where
  "appendInt64 e x b = (let be64 = hostToNetwork64 e x in Buffer_append (word_to_mem e be64) b)"

definition appendInt32 :: "endianness \<Rightarrow> 32 word \<Rightarrow> Buffer \<Rightarrow> Buffer option" where
  "appendInt32 e x b = (let be32 = hostToNetwork32 e x in Buffer_append (word_to_mem e be32) b)"

definition appendInt16 :: "endianness \<Rightarrow> 16 word \<Rightarrow> Buffer \<Rightarrow> Buffer option" where
  "appendInt16 e x b = (let be16 = hostToNetwork16 e x in Buffer_append (word_to_mem e be16) b)"

definition appendInt8 :: "endianness \<Rightarrow> 8 word \<Rightarrow> Buffer \<Rightarrow> Buffer option" where
  "appendInt8 e x b = Buffer_append (word_to_mem e x) b"

definition peekInt64 :: "endianness \<Rightarrow> Buffer \<Rightarrow> 64 word option" where
  "peekInt64 e b = do {
     cassert (readableBytes b \<ge> 8);
     let be64 = mem_to_word e (take 8 (drop (Buffer_peek b) (buffer b)));
     Some (networkToHost64 e be64)
   }"

definition peekInt32 :: "endianness \<Rightarrow> Buffer \<Rightarrow> 32 word option" where
  "peekInt32 e b = do {
     cassert (readableBytes b \<ge> 4);
     let be32 = mem_to_word e (take 4 (drop (Buffer_peek b) (buffer b)));
     Some (networkToHost32 e be32)
   }"

definition peekInt16 :: "endianness \<Rightarrow> Buffer \<Rightarrow> 16 word option" where
  "peekInt16 e b = do {
     cassert (readableBytes b \<ge> 2);
     let be16 = mem_to_word e (take 2 (drop (Buffer_peek b) (buffer b)));
     Some (networkToHost16 e be16)
   }"

definition peekInt8 :: "endianness \<Rightarrow> Buffer \<Rightarrow> 8 word option" where
  "peekInt8 e b = do {
     cassert (readableBytes b \<ge> 1);
     Some (mem_to_word e (take 1 (drop (Buffer_peek b) (buffer b))))
   }"

definition readInt64 :: "endianness \<Rightarrow> Buffer \<Rightarrow> (64 word \<times> Buffer) option" where
  "readInt64 e b = do { result \<leftarrow> peekInt64 e b; b' \<leftarrow> retrieveInt64 b; Some (result, b') }"

definition readInt32 :: "endianness \<Rightarrow> Buffer \<Rightarrow> (32 word \<times> Buffer) option" where
  "readInt32 e b = do { result \<leftarrow> peekInt32 e b; b' \<leftarrow> retrieveInt32 b; Some (result, b') }"

definition readInt16 :: "endianness \<Rightarrow> Buffer \<Rightarrow> (16 word \<times> Buffer) option" where
  "readInt16 e b = do { result \<leftarrow> peekInt16 e b; b' \<leftarrow> retrieveInt16 b; Some (result, b') }"

definition readInt8 :: "endianness \<Rightarrow> Buffer \<Rightarrow> (8 word \<times> Buffer) option" where
  "readInt8 e b = do { result \<leftarrow> peekInt8 e b; b' \<leftarrow> retrieveInt8 b; Some (result, b') }"

definition prependInt64 :: "endianness \<Rightarrow> 64 word \<Rightarrow> Buffer \<Rightarrow> Buffer option" where
  "prependInt64 e x b = (let be64 = hostToNetwork64 e x in prepend (word_to_mem e be64) b)"

definition prependInt32 :: "endianness \<Rightarrow> 32 word \<Rightarrow> Buffer \<Rightarrow> Buffer option" where
  "prependInt32 e x b = (let be32 = hostToNetwork32 e x in prepend (word_to_mem e be32) b)"

definition prependInt16 :: "endianness \<Rightarrow> 16 word \<Rightarrow> Buffer \<Rightarrow> Buffer option" where
  "prependInt16 e x b = (let be16 = hostToNetwork16 e x in prepend (word_to_mem e be16) b)"

definition prependInt8 :: "endianness \<Rightarrow> 8 word \<Rightarrow> Buffer \<Rightarrow> Buffer option" where
  "prependInt8 e x b = prepend (word_to_mem e x) b"

subsection \<open>Reading from a file descriptor\<close>

text \<open>
  The result of \<^verbatim>\<open>readv(2)\<close> is an argument: an error number, or the bytes the kernel delivered,
  which fill the two areas of the vector in order.  \<open>readFd_room\<close> is the total size of the areas
  that \<^verbatim>\<open>readFd\<close> passes, the most the kernel may deliver.
\<close>

datatype readv_result = ReadvError int | ReadvBytes "char list"

definition extrabuf_size :: nat where
  "extrabuf_size = 65536"

definition readFd_iovcnt :: "Buffer \<Rightarrow> nat" where
  "readFd_iovcnt b = (if writableBytes b < extrabuf_size then 2 else 1)"

definition readFd_room :: "Buffer \<Rightarrow> nat" where
  "readFd_room b = (if readFd_iovcnt b = 2 then writableBytes b + extrabuf_size else writableBytes b)"

record readFd_result =
  rf_n :: int
  rf_savedErrno :: "int option"
  rf_buffer :: Buffer

definition readFd :: "readv_result \<Rightarrow> Buffer \<Rightarrow> readFd_result option" where
  "readFd r b =
     (let writable = writableBytes b
      in case r of
        ReadvError err \<Rightarrow> Some \<lparr>rf_n = -1, rf_savedErrno = Some err, rf_buffer = b\<rparr>
      | ReadvBytes data \<Rightarrow>
          (let vec0 = take writable data; extrabuf = drop writable data;
               b0 = b\<lparr>buffer := copy_to vec0 (writerIndex b) (buffer b)\<rparr>
           in if length data \<le> writable
              then Some \<lparr>rf_n = int (length data), rf_savedErrno = None,
                         rf_buffer = b0\<lparr>writerIndex := writerIndex b0 + length data\<rparr>\<rparr>
              else do {
                b' \<leftarrow> Buffer_append extrabuf (b0\<lparr>writerIndex := length (buffer b0)\<rparr>);
                Some \<lparr>rf_n = int (length data), rf_savedErrno = None, rf_buffer = b'\<rparr>
              }))"

subsection \<open>Invariant and abstraction\<close>

text \<open>The picture in the comment of the class: the two indices are ordered and inside the vector.\<close>

definition Buffer_inv :: "Buffer \<Rightarrow> bool" where
  "Buffer_inv b \<longleftrightarrow> readerIndex b \<le> writerIndex b \<and> writerIndex b \<le> length (buffer b)"

definition Buffer_contents :: "Buffer \<Rightarrow> char list" where
  "Buffer_contents b = subrange (readerIndex b) (writerIndex b) (buffer b)"

lemmas Buffer_access = readableBytes_def writableBytes_def prependableBytes_def Buffer_peek_def
  beginWrite_def

lemma length_contents [simp]:
  "Buffer_inv b \<Longrightarrow> length (Buffer_contents b) = readableBytes b"
  by (simp add: Buffer_inv_def Buffer_contents_def readableBytes_def)

lemma readableBytes_0_iff: "Buffer_inv b \<Longrightarrow> readableBytes b = 0 \<longleftrightarrow> Buffer_contents b = []"
  using length_contents by (metis length_0_conv)

lemma take_contents:
  assumes "Buffer_inv b" "n \<le> readableBytes b"
  shows "take n (drop (Buffer_peek b) (buffer b)) = take n (Buffer_contents b)"
  using assms
  by (simp add: take_drop_subrange Buffer_contents_def take_subrange Buffer_inv_def Buffer_access)

lemma Buffer_new_ok:
  "Buffer_inv (Buffer_new n)" "Buffer_contents (Buffer_new n) = []"
  "prependableBytes (Buffer_new n) = kCheapPrepend" "writableBytes (Buffer_new n) = n"
  "readableBytes (Buffer_new n) = 0"
  by (simp_all add: Buffer_new_def Buffer_inv_def Buffer_contents_def Buffer_access)

lemma Buffer_swap_eq: "Buffer_swap (a, b) = (b, a)"
  by (simp add: Buffer_swap_def)

subsubsection \<open>Consuming\<close>

lemma retrieveAll_ok:
  assumes "Buffer_inv b" "kCheapPrepend \<le> length (buffer b)"
  shows "Buffer_inv (retrieveAll b)" "Buffer_contents (retrieveAll b) = []"
  using assms by (simp_all add: retrieveAll_def Buffer_inv_def Buffer_contents_def)

text \<open>
  The vector always has room for the \<open>kCheapPrepend\<close> bytes that \<open>retrieveAll\<close> skips: it starts with
  it and never shrinks.
\<close>

definition Buffer_ok :: "Buffer \<Rightarrow> bool" where
  "Buffer_ok b \<longleftrightarrow> Buffer_inv b \<and> kCheapPrepend \<le> length (buffer b)"

lemma Buffer_ok_inv: "Buffer_ok b \<Longrightarrow> Buffer_inv b"
  by (simp add: Buffer_ok_def)

lemma Buffer_ok_new [simp]: "Buffer_ok (Buffer_new n)"
  by (simp add: Buffer_ok_def Buffer_new_ok) (simp add: Buffer_new_def)

lemma retrieve_ok:
  assumes "Buffer_ok b" "n \<le> length (Buffer_contents b)"
  shows "\<exists>b'. retrieve n b = Some b' \<and> Buffer_ok b' \<and> Buffer_contents b' = drop n (Buffer_contents b)
    \<and> (kCheapPrepend \<le> readerIndex b \<longrightarrow> kCheapPrepend \<le> readerIndex b')"
proof (cases "n < readableBytes b")
  case True
  then show ?thesis using assms
    by (auto simp: retrieve_def Buffer_ok_def Buffer_inv_def Buffer_contents_def drop_subrange
        readableBytes_def)
next
  case False
  with assms have n: "n = readableBytes b" by (simp add: Buffer_ok_def)
  then show ?thesis using assms
    by (auto simp: retrieve_def Buffer_ok_def retrieveAll_ok)
      (simp_all add: retrieveAll_def)
qed

lemma retrieve_aborts: "Buffer_ok b \<Longrightarrow> length (Buffer_contents b) < n \<Longrightarrow> retrieve n b = None"
  by (simp add: retrieve_def Buffer_ok_def)

lemma retrieveUntil_ok:
  assumes "Buffer_ok b" "n \<le> length (Buffer_contents b)"
  shows "retrieveUntil (Buffer_peek b + n) b = retrieve n b"
  using assms
  by (auto simp: retrieveUntil_def Buffer_ok_def Buffer_inv_def Buffer_access)

lemma retrieveAsString_ok:
  assumes "Buffer_ok b" "n \<le> length (Buffer_contents b)"
  shows "\<exists>b'. retrieveAsString n b = Some (take n (Buffer_contents b), b') \<and> Buffer_ok b'
    \<and> Buffer_contents b' = drop n (Buffer_contents b)"
proof -
  obtain b' where "retrieve n b = Some b'" "Buffer_ok b'"
    "Buffer_contents b' = drop n (Buffer_contents b)"
    using retrieve_ok [OF assms] by blast
  then show ?thesis
    using assms take_contents [of b n] by (simp add: retrieveAsString_def Buffer_ok_def)
qed

subsubsection \<open>Filling\<close>

lemma makeSpace_ok:
  assumes "Buffer_ok b" "writableBytes b < len"
  shows "\<exists>b'. makeSpace len b = Some b' \<and> Buffer_ok b' \<and> Buffer_contents b' = Buffer_contents b
    \<and> len \<le> writableBytes b' \<and> (kCheapPrepend \<le> readerIndex b \<longrightarrow> kCheapPrepend \<le> readerIndex b')"
proof (cases "writableBytes b + prependableBytes b < len + kCheapPrepend")
  case True
  then show ?thesis using assms
    by (auto simp: makeSpace_def Buffer_ok_def Buffer_inv_def Buffer_contents_def Buffer_access)
next
  case False
  have inv: "readerIndex b \<le> writerIndex b" "writerIndex b \<le> length (buffer b)"
    using assms(1) by (simp_all add: Buffer_ok_def Buffer_inv_def)
  have gap: "kCheapPrepend < readerIndex b"
    using False assms(2) by (simp add: Buffer_access)
  let ?d = "subrange (readerIndex b) (writerIndex b) (buffer b)"
  have len_d: "length ?d = writerIndex b - readerIndex b" using inv by simp
  have fits: "kCheapPrepend + length ?d \<le> length (buffer b)" using inv gap len_d by simp
  show ?thesis
    using False gap fits len_d inv subrange_copy_to [OF fits]
    by (auto simp: makeSpace_def Buffer_ok_def Buffer_inv_def Buffer_contents_def Buffer_access)
qed

lemma ensureWritableBytes_ok:
  assumes "Buffer_ok b"
  shows "\<exists>b'. ensureWritableBytes len b = Some b' \<and> Buffer_ok b' \<and> Buffer_contents b' = Buffer_contents b
    \<and> len \<le> writableBytes b' \<and> (kCheapPrepend \<le> readerIndex b \<longrightarrow> kCheapPrepend \<le> readerIndex b')"
  using makeSpace_ok [OF assms, of len] assms
  by (cases "writableBytes b < len") (auto simp: ensureWritableBytes_def)

lemma write_at_end:
  assumes "Buffer_ok b" "length data \<le> writableBytes b"
  defines "b' \<equiv> b\<lparr>buffer := copy_to data (writerIndex b) (buffer b),
                    writerIndex := writerIndex b + length data\<rparr>"
  shows "Buffer_ok b'" "Buffer_contents b' = Buffer_contents b @ data"
proof -
  have inv: "readerIndex b \<le> writerIndex b" "writerIndex b + length data \<le> length (buffer b)"
    using assms(1,2) by (auto simp: Buffer_ok_def Buffer_inv_def writableBytes_def)
  then show "Buffer_ok b'"
    using assms(1) by (auto simp: b'_def Buffer_ok_def Buffer_inv_def)
  let ?m = "copy_to data (writerIndex b) (buffer b)"
  have "Buffer_contents b' = subrange (readerIndex b) (writerIndex b) ?m
      @ subrange (writerIndex b) (writerIndex b + length data) ?m"
    using inv by (subst subrange_append_subrange) (simp_all add: b'_def Buffer_contents_def)
  then show "Buffer_contents b' = Buffer_contents b @ data"
    using inv by (simp add: Buffer_contents_def subrange_copy_to_before)
qed

lemma Buffer_append_ok:
  assumes "Buffer_ok b"
  shows "\<exists>b'. Buffer_append data b = Some b' \<and> Buffer_ok b'
    \<and> Buffer_contents b' = Buffer_contents b @ data
    \<and> (kCheapPrepend \<le> readerIndex b \<longrightarrow> kCheapPrepend \<le> readerIndex b')"
proof -
  obtain b1 where b1: "ensureWritableBytes (length data) b = Some b1" "Buffer_ok b1"
    "Buffer_contents b1 = Buffer_contents b" "length data \<le> writableBytes b1"
    "kCheapPrepend \<le> readerIndex b \<longrightarrow> kCheapPrepend \<le> readerIndex b1"
    using ensureWritableBytes_ok [OF assms] by blast
  have "writerIndex b1 + length data \<le> length (buffer b1)"
    using b1(2,4) by (auto simp: Buffer_ok_def Buffer_inv_def writableBytes_def)
  then have "Buffer_append data b = Some (b1\<lparr>buffer := copy_to data (writerIndex b1) (buffer b1),
      writerIndex := writerIndex b1 + length data\<rparr>)"
    using b1(1) by (simp add: Buffer_append_def hasWritten_def beginWrite_def writableBytes_def)
  then show ?thesis
    using write_at_end [OF b1(2,4)] b1(3,5) by simp
qed

lemma prepend_ok:
  assumes "Buffer_ok b" "length data \<le> prependableBytes b"
  shows "\<exists>b'. prepend data b = Some b' \<and> Buffer_ok b' \<and> Buffer_contents b' = data @ Buffer_contents b
    \<and> prependableBytes b' = prependableBytes b - length data"
proof -
  let ?r = "readerIndex b - length data"
  let ?m = "copy_to data ?r (buffer b)"
  have inv: "length data \<le> readerIndex b" "readerIndex b \<le> writerIndex b"
    "writerIndex b \<le> length (buffer b)"
    using assms by (auto simp: Buffer_ok_def Buffer_inv_def prependableBytes_def)
  have "subrange ?r (writerIndex b) ?m = subrange ?r (?r + length data) ?m @ subrange (readerIndex b) (writerIndex b) ?m"
    using inv by (simp add: subrange_append_subrange)
  also have "\<dots> = data @ subrange (readerIndex b) (writerIndex b) (buffer b)"
    using inv by (subst subrange_copy_to) (auto simp: subrange_copy_to_after)
  finally show ?thesis
    using inv assms
    by (auto simp: prepend_def Buffer_ok_def Buffer_inv_def Buffer_contents_def Buffer_access)
qed

lemma unwrite_ok:
  assumes "Buffer_ok b" "n \<le> length (Buffer_contents b)"
  shows "\<exists>b'. unwrite n b = Some b' \<and> Buffer_ok b'
    \<and> Buffer_contents b' = take (length (Buffer_contents b) - n) (Buffer_contents b)"
proof -
  have inv: "readerIndex b \<le> writerIndex b" "writerIndex b \<le> length (buffer b)"
    "n \<le> writerIndex b - readerIndex b"
    using assms by (auto simp: Buffer_ok_def Buffer_inv_def readableBytes_def)
  then have "subrange (readerIndex b) (writerIndex b - n) (buffer b) =
      take (writerIndex b - readerIndex b - n) (subrange (readerIndex b) (writerIndex b) (buffer b))"
    by (subst take_subrange) (auto simp: algebra_simps)
  then show ?thesis
    using inv assms
    by (auto simp: unwrite_def Buffer_ok_def Buffer_inv_def Buffer_contents_def readableBytes_def)
qed

lemma Buffer_append_piece_eq:
  assumes "Buffer_inv b" "readableBytes b < 2 ^ 31"
  shows "Buffer_append_piece (toStringPiece b) c = Buffer_append (Buffer_contents b) c"
proof -
  have "readableBytes b \<le> length (drop (Buffer_peek b) (buffer b))"
    using assms(1) by (auto simp: Buffer_inv_def Buffer_access)
  moreover have "take (readableBytes b) (drop (Buffer_peek b) (buffer b)) = Buffer_contents b"
    using take_contents [OF assms(1) order_refl] assms(1) by simp
  moreover have "int (readableBytes b) mod 2 ^ 64 = int (readableBytes b)"
    using assms(2) by simp
  ultimately show ?thesis
    using assms(2) by (simp add: Buffer_append_piece_def toStringPiece_def size_to_int_small)
qed

lemma Buffer_append_piece_string:
  "length s < 2 ^ 31 \<Longrightarrow> Buffer_append_piece (StringPiece_of_string s) b = Buffer_append s b"
  by (simp add: Buffer_append_piece_def StringPiece_of_string_def size_to_int_small Let_def)

lemma shrink_ok:
  assumes "Buffer_ok b" "readableBytes b < 2 ^ 31"
  shows "\<exists>b'. shrink reserve b = Some b' \<and> Buffer_ok b' \<and> Buffer_contents b' = Buffer_contents b"
proof -
  obtain o1 where o1: "ensureWritableBytes (readableBytes b + reserve) (Buffer_new kInitialSize) = Some o1"
    "Buffer_ok o1" "Buffer_contents o1 = []"
    using ensureWritableBytes_ok [OF Buffer_ok_new] Buffer_new_ok(2) by metis
  obtain o2 where "Buffer_append (Buffer_contents b) o1 = Some o2" "Buffer_ok o2"
    "Buffer_contents o2 = Buffer_contents b"
    using Buffer_append_ok [OF o1(2)] o1(3) by auto
  then show ?thesis
    using o1(1) assms Buffer_append_piece_eq [of b o1]
    by (simp add: shrink_def Buffer_swap_eq Buffer_ok_def)
qed

lemma readFd_ok:
  assumes "Buffer_ok b"
  shows "\<exists>r. readFd (ReadvBytes data) b = Some r \<and> rf_n r = int (length data)
    \<and> Buffer_ok (rf_buffer r) \<and> Buffer_contents (rf_buffer r) = Buffer_contents b @ data
    \<and> (kCheapPrepend \<le> readerIndex b \<longrightarrow> kCheapPrepend \<le> readerIndex (rf_buffer r))"
proof (cases "length data \<le> writableBytes b")
  case True
  then show ?thesis
    using write_at_end [OF assms True] by (simp add: readFd_def)
next
  case False
  let ?v = "take (writableBytes b) data"
  let ?b0 = "b\<lparr>buffer := copy_to ?v (writerIndex b) (buffer b),
    writerIndex := writerIndex b + length ?v\<rparr>"
  have v: "length ?v = writableBytes b" using False by simp
  have full: "writerIndex b + length ?v = length (copy_to ?v (writerIndex b) (buffer b))"
    using assms v by (simp add: Buffer_ok_def Buffer_inv_def writableBytes_def)
  obtain b' where "Buffer_append (drop (writableBytes b) data) ?b0 = Some b'" "Buffer_ok b'"
    "Buffer_contents b' = Buffer_contents ?b0 @ drop (writableBytes b) data"
    "kCheapPrepend \<le> readerIndex ?b0 \<longrightarrow> kCheapPrepend \<le> readerIndex b'"
    using Buffer_append_ok write_at_end(1) [OF assms] v by (metis order_refl)
  then show ?thesis
    using False full write_at_end(2) [OF assms, of ?v] v by (simp add: readFd_def Let_def)
qed

subsubsection \<open>Searching\<close>

lemma findCRLF_eq:
  assumes "Buffer_inv b"
  shows "findCRLF b =
     (let k = std_search kCRLF (Buffer_contents b)
      in if k = length (Buffer_contents b) then None else Some (Buffer_peek b + k))"
  using assms
  by (auto simp: findCRLF_def Buffer_contents_def Buffer_inv_def Buffer_access Let_def)

lemma memchr_eq:
  "start + n \<le> length mem \<Longrightarrow>
   memchr mem start n c =
     (if c \<in> set (subrange start (start + n) mem)
      then Some (start + std_find c (subrange start (start + n) mem)) else None)"
  by (auto simp: memchr_def Let_def std_find_less_iff [symmetric])

subsubsection \<open>Integers\<close>

lemmas appendInt_defs = appendInt64_def appendInt32_def appendInt16_def appendInt8_def
lemmas prependInt_defs = prependInt64_def prependInt32_def prependInt16_def prependInt8_def
lemmas peekInt_defs = peekInt64_def peekInt32_def peekInt16_def peekInt8_def
lemmas readInt_defs = readInt64_def readInt32_def readInt16_def readInt8_def
  retrieveInt64_def retrieveInt32_def retrieveInt16_def retrieveInt8_def

lemma word_to_mem_8 [word_bytes]: "word_to_mem e (x :: 8 word) = be_bytes x"
  by (cases e) (simp_all add: word_to_mem_def be_bytes_def le_bytes_def)

lemma mem_to_word_8 [word_bytes]: "mem_to_word e (be_bytes (x :: 8 word)) = x"
proof -
  have "rev (le_bytes x) = le_bytes x" by (simp add: le_bytes_def)
  then show ?thesis
    by (cases e) (simp_all add: mem_to_word_def be_bytes_def le_value_le_bytes)
qed

lemma append_ints_eq:
  "appendInt64 e x64 b = Buffer_append (be_bytes x64) b"
  "appendInt32 e x32 b = Buffer_append (be_bytes x32) b"
  "appendInt16 e x16 b = Buffer_append (be_bytes x16) b"
  "appendInt8 e x8 b = Buffer_append (be_bytes x8) b"
  "prependInt64 e x64 b = prepend (be_bytes x64) b"
  "prependInt32 e x32 b = prepend (be_bytes x32) b"
  "prependInt16 e x16 b = prepend (be_bytes x16) b"
  "prependInt8 e x8 b = prepend (be_bytes x8) b"
  by (simp_all add: appendInt_defs prependInt_defs endian_defs word_bytes)

lemma take_front:
  assumes "Buffer_ok b" "Buffer_contents b = d @ rest"
  shows "length d \<le> readableBytes b" "take (length d) (drop (Buffer_peek b) (buffer b)) = d"
proof -
  have "readableBytes b = length (d @ rest)"
    using assms by (metis Buffer_ok_inv length_contents)
  then show 1: "length d \<le> readableBytes b" by simp
  show "take (length d) (drop (Buffer_peek b) (buffer b)) = d"
    using take_contents [OF Buffer_ok_inv [OF assms(1)] 1] assms(2) by simp
qed

lemma peek_ints:
  assumes "Buffer_ok b"
  shows "Buffer_contents b = be_bytes x64 @ rest \<Longrightarrow> peekInt64 e b = Some x64"
    "Buffer_contents b = be_bytes x32 @ rest \<Longrightarrow> peekInt32 e b = Some x32"
    "Buffer_contents b = be_bytes x16 @ rest \<Longrightarrow> peekInt16 e b = Some x16"
    "Buffer_contents b = be_bytes x8 @ rest \<Longrightarrow> peekInt8 e b = Some x8"
  using take_front [OF assms, of "be_bytes x64" rest] take_front [OF assms, of "be_bytes x32" rest]
    take_front [OF assms, of "be_bytes x16" rest] take_front [OF assms, of "be_bytes x8" rest]
  by (auto simp: peekInt_defs endian_defs word_bytes)

lemma retrieve_front:
  assumes "Buffer_ok b" "Buffer_contents b = d @ rest"
  shows "\<exists>b'. retrieve (length d) b = Some b' \<and> Buffer_ok b' \<and> Buffer_contents b' = rest"
  using retrieve_ok [OF assms(1), of "length d"] assms(2) by auto

lemma read_ints:
  assumes "Buffer_ok b"
  shows "Buffer_contents b = be_bytes x64 @ rest \<Longrightarrow>
      \<exists>b'. readInt64 e b = Some (x64, b') \<and> Buffer_ok b' \<and> Buffer_contents b' = rest"
    "Buffer_contents b = be_bytes x32 @ rest \<Longrightarrow>
      \<exists>b'. readInt32 e b = Some (x32, b') \<and> Buffer_ok b' \<and> Buffer_contents b' = rest"
    "Buffer_contents b = be_bytes x16 @ rest \<Longrightarrow>
      \<exists>b'. readInt16 e b = Some (x16, b') \<and> Buffer_ok b' \<and> Buffer_contents b' = rest"
    "Buffer_contents b = be_bytes x8 @ rest \<Longrightarrow>
      \<exists>b'. readInt8 e b = Some (x8, b') \<and> Buffer_ok b' \<and> Buffer_contents b' = rest"
  using retrieve_front [OF assms, of "be_bytes x64" rest] retrieve_front [OF assms, of "be_bytes x32" rest]
    retrieve_front [OF assms, of "be_bytes x16" rest] retrieve_front [OF assms, of "be_bytes x8" rest]
  by (auto simp: readInt_defs peek_ints [OF assms])

subsection \<open>The interface of a byte queue\<close>

text \<open>
  What the parsers and the connection rely on: appending goes to the end and always works,
  retrieving takes from the front and works exactly when enough bytes are there.
\<close>

locale byte_queue =
  fixes ok :: "'b \<Rightarrow> bool"
    and contents :: "'b \<Rightarrow> char list"
    and enq :: "char list \<Rightarrow> 'b \<Rightarrow> 'b option"
    and deq :: "nat \<Rightarrow> 'b \<Rightarrow> 'b option"
  assumes enq_law: "ok b \<Longrightarrow> \<exists>b'. enq d b = Some b' \<and> ok b' \<and> contents b' = contents b @ d"
    and deq_law: "ok b \<Longrightarrow> n \<le> length (contents b) \<Longrightarrow>
      \<exists>b'. deq n b = Some b' \<and> ok b' \<and> contents b' = drop n (contents b)"
    and deq_abort: "ok b \<Longrightarrow> length (contents b) < n \<Longrightarrow> deq n b = None"
begin

lemma enq_rel:
  assumes "ok b"
  shows "rel_option (\<lambda>b' q. ok b' \<and> contents b' = q) (enq d b) (Some (contents b @ d))"
  using enq_law [OF assms, of d] by auto

lemma deq_rel:
  assumes "ok b"
  shows "rel_option (\<lambda>b' q. ok b' \<and> contents b' = q) (deq n b)
    (if n \<le> length (contents b) then Some (drop n (contents b)) else None)"
  using deq_law [OF assms, of n] deq_abort [OF assms, of n]
  by (cases "n \<le> length (contents b)") (auto simp: not_le)

text \<open>Bytes come out in the order in which they went in, whatever the sizes of the pieces.\<close>

lemma fifo:
  assumes "ok b"
  shows "\<exists>b1 b2. enq d b = Some b1 \<and> deq (length (contents b)) b1 = Some b2 \<and> ok b2 \<and> contents b2 = d"
proof -
  obtain b1 where b1: "enq d b = Some b1" "ok b1" "contents b1 = contents b @ d"
    using enq_law [OF assms, of d] by blast
  show ?thesis using b1 deq_law [OF b1(2), of "length (contents b)"] by auto
qed

end

interpretation buf: byte_queue Buffer_ok Buffer_contents Buffer_append retrieve
proof unfold_locales
  show "\<exists>b'. Buffer_append d b = Some b' \<and> Buffer_ok b' \<and> Buffer_contents b' = Buffer_contents b @ d"
    if "Buffer_ok b" for b d
    using Buffer_append_ok [OF that] by blast
  show "\<exists>b'. retrieve n b = Some b' \<and> Buffer_ok b' \<and> Buffer_contents b' = drop n (Buffer_contents b)"
    if "Buffer_ok b" "n \<le> length (Buffer_contents b)" for b n
    using retrieve_ok [OF that] by blast
  show "retrieve n b = None" if "Buffer_ok b" "length (Buffer_contents b) < n" for b n
    using retrieve_aborts [OF that] .
qed

text \<open>
  The reserve in front of the contents survives every operation but \<open>prepend\<close>, so the buffers that
  keep it form a byte queue as well.
\<close>

definition Buffer_roomy :: "Buffer \<Rightarrow> bool" where
  "Buffer_roomy b \<longleftrightarrow> Buffer_ok b \<and> kCheapPrepend \<le> readerIndex b"

lemma Buffer_roomy_new [simp]: "Buffer_roomy (Buffer_new n)"
  by (simp add: Buffer_roomy_def) (simp add: Buffer_new_def)

interpretation rbuf: byte_queue Buffer_roomy Buffer_contents Buffer_append retrieve
proof unfold_locales
  show "\<exists>b'. Buffer_append d b = Some b' \<and> Buffer_roomy b' \<and> Buffer_contents b' = Buffer_contents b @ d"
    if "Buffer_roomy b" for b d
    using that Buffer_append_ok [of b d] by (auto simp: Buffer_roomy_def)
  show "\<exists>b'. retrieve n b = Some b' \<and> Buffer_roomy b' \<and> Buffer_contents b' = drop n (Buffer_contents b)"
    if "Buffer_roomy b" "n \<le> length (Buffer_contents b)" for b n
    using that retrieve_ok [of b n] by (auto simp: Buffer_roomy_def)
  show "retrieve n b = None" if "Buffer_roomy b" "length (Buffer_contents b) < n" for b n
    using that retrieve_aborts [of b n] by (simp add: Buffer_roomy_def)
qed

subsection \<open>Runs of operations\<close>

datatype buffer_op =
    OpAppend string | OpRetrieve nat | OpRetrieveAll | OpUnwrite nat | OpEnsureWritable nat
  | OpAppendInt64 "64 word" | OpAppendInt32 "32 word" | OpAppendInt16 "16 word" | OpAppendInt8 "8 word"
  | OpReadFd readv_result

fun buffer_step :: "endianness \<Rightarrow> buffer_op \<Rightarrow> Buffer \<Rightarrow> Buffer option" where
  "buffer_step e (OpAppend d) b = Buffer_append d b"
| "buffer_step e (OpRetrieve n) b = retrieve n b"
| "buffer_step e OpRetrieveAll b = Some (retrieveAll b)"
| "buffer_step e (OpUnwrite n) b = unwrite n b"
| "buffer_step e (OpEnsureWritable n) b = ensureWritableBytes n b"
| "buffer_step e (OpAppendInt64 x) b = appendInt64 e x b"
| "buffer_step e (OpAppendInt32 x) b = appendInt32 e x b"
| "buffer_step e (OpAppendInt16 x) b = appendInt16 e x b"
| "buffer_step e (OpAppendInt8 x) b = appendInt8 e x b"
| "buffer_step e (OpReadFd r) b = map_option rf_buffer (readFd r b)"

text \<open>The same operations on a list of bytes.\<close>

fun queue_step :: "buffer_op \<Rightarrow> char list \<Rightarrow> char list option" where
  "queue_step (OpAppend d) q = Some (q @ d)"
| "queue_step (OpRetrieve n) q = (if n \<le> length q then Some (drop n q) else None)"
| "queue_step OpRetrieveAll q = Some []"
| "queue_step (OpUnwrite n) q = (if n \<le> length q then Some (take (length q - n) q) else None)"
| "queue_step (OpEnsureWritable n) q = Some q"
| "queue_step (OpAppendInt64 x) q = Some (q @ be_bytes x)"
| "queue_step (OpAppendInt32 x) q = Some (q @ be_bytes x)"
| "queue_step (OpAppendInt16 x) q = Some (q @ be_bytes x)"
| "queue_step (OpAppendInt8 x) q = Some (q @ be_bytes x)"
| "queue_step (OpReadFd (ReadvError err)) q = Some q"
| "queue_step (OpReadFd (ReadvBytes d)) q = Some (q @ d)"

definition buffer_rel :: "Buffer \<Rightarrow> char list \<Rightarrow> bool" where
  "buffer_rel b q \<longleftrightarrow> Buffer_roomy b \<and> Buffer_contents b = q"

lemma buffer_step_rel:
  assumes "buffer_rel b q"
  shows "rel_option buffer_rel (buffer_step e x b) (queue_step x q)"
proof -
  have r: "Buffer_roomy b" and ok: "Buffer_ok b" and k: "kCheapPrepend \<le> readerIndex b"
    and q: "Buffer_contents b = q"
    using assms by (simp_all add: buffer_rel_def Buffer_roomy_def)
  have app: "rel_option buffer_rel (Buffer_append d b) (Some (q @ d))" for d
    using rbuf.enq_rel [OF r, of d] q by (simp add: buffer_rel_def [abs_def])
  show ?thesis
  proof (cases x)
    case (OpRetrieve n)
    then show ?thesis using rbuf.deq_rel [OF r, of n] q
      by (auto simp: buffer_rel_def [abs_def] split: if_splits)
  next
    case OpRetrieveAll
    then show ?thesis
      using ok retrieveAll_ok [of b]
      by (simp add: buffer_rel_def Buffer_roomy_def Buffer_ok_def) (simp add: retrieveAll_def)
  next
    case (OpUnwrite n)
    have "unwrite n b = None" if "length q < n"
      using length_contents [OF Buffer_ok_inv [OF ok]] q that by (simp add: unwrite_def)
    moreover have "readerIndex b' = readerIndex b" if "unwrite n b = Some b'" for b'
      using that by (auto simp: unwrite_def)
    ultimately show ?thesis
      using OpUnwrite unwrite_ok [OF ok, of n] q k
      by (cases "n \<le> length q") (auto simp: buffer_rel_def Buffer_roomy_def)
  next
    case (OpEnsureWritable n)
    then show ?thesis
      using ensureWritableBytes_ok [OF ok, of n] q k by (auto simp: buffer_rel_def Buffer_roomy_def)
  next
    case (OpReadFd r)
    show ?thesis
    proof (cases r)
      case (ReadvError err)
      then show ?thesis using OpReadFd assms by (simp add: readFd_def Let_def)
    next
      case (ReadvBytes d)
      then show ?thesis
        using OpReadFd readFd_ok [OF ok, of d] q k by (auto simp: buffer_rel_def Buffer_roomy_def)
    qed
  qed (simp_all add: append_ints_eq app)
qed

subsection \<open>Properties\<close>

text \<open>
  C2. The buffer refines a queue of bytes.  Along every sequence of operations (appending bytes and
  integers, retrieving, taking back, reserving space, reading from a descriptor) on a new buffer,
  the buffer and a plain list of bytes agree: an assertion of the class fails exactly when the list
  operation is undefined, and otherwise the readable bytes are the list.
\<close>

theorem Buffer_refines_queue:
  "rel_option (\<lambda>b q. Buffer_contents b = q \<and> Buffer_inv b)
     (run_ops (buffer_step e) ops (Buffer_new n)) (run_ops queue_step ops [])"
proof (rule option.rel_mono_strong)
  show "rel_option buffer_rel (run_ops (buffer_step e) ops (Buffer_new n)) (run_ops queue_step ops [])"
    by (rule run_ops_rel [OF buffer_step_rel]) (simp_all add: buffer_rel_def Buffer_new_ok)
qed (simp add: buffer_rel_def Buffer_roomy_def Buffer_ok_def)

lemma run_roomy:
  assumes "run_ops (buffer_step e) ops (Buffer_new n) = Some b"
  shows "Buffer_roomy b"
proof -
  have "rel_option buffer_rel (run_ops (buffer_step e) ops (Buffer_new n)) (run_ops queue_step ops [])"
    by (rule run_ops_rel [OF buffer_step_rel]) (simp_all add: buffer_rel_def Buffer_new_ok)
  with assms show ?thesis by (auto simp: option_rel_Some1 buffer_rel_def)
qed

text \<open>
  Cheap prepend.  After any sequence of operations on a new buffer, eight bytes can be put in
  front of the contents without moving them: \<open>prepend\<close> of at most \<open>kCheapPrepend\<close> bytes passes its
  assertion, puts the bytes in front and does not resize the vector.
\<close>

lemma Buffer_cheap_prepend:
  assumes "run_ops (buffer_step e) ops (Buffer_new n) = Some b"
    and "length d \<le> kCheapPrepend"
  shows "\<exists>b'. prepend d b = Some b' \<and> Buffer_contents b' = d @ Buffer_contents b \<and> Buffer_inv b'
    \<and> length (buffer b') = length (buffer b) \<and> writerIndex b' = writerIndex b"
proof -
  have "Buffer_ok b" and room: "length d \<le> prependableBytes b"
    using run_roomy [OF assms(1)] assms(2) by (simp_all add: Buffer_roomy_def prependableBytes_def)
  then obtain b' where "prepend d b = Some b'" "Buffer_ok b'" "Buffer_contents b' = d @ Buffer_contents b"
    using prepend_ok by blast
  moreover from this(1) have "length (buffer b') = length (buffer b)" "writerIndex b' = writerIndex b"
    using room \<open>Buffer_ok b\<close> by (auto simp: prepend_def Buffer_ok_def Buffer_inv_def prependableBytes_def)
  ultimately show ?thesis by (auto simp: Buffer_ok_def)
qed

text \<open>
  Integers survive the network.  An integer of any of the four widths that a host appends to an
  empty buffer is read back unchanged by a host of either byte order, and the buffer is empty again;
  on the wire it has its big-endian bytes.
\<close>

lemma Buffer_int_roundtrip:
  assumes "Buffer_ok b" "Buffer_contents b = []"
  shows "(\<exists>b1 b2. appendInt64 e x64 b = Some b1 \<and> Buffer_contents b1 = be_bytes x64
        \<and> readInt64 e' b1 = Some (x64, b2) \<and> Buffer_contents b2 = [])
    \<and> (\<exists>b1 b2. appendInt32 e x32 b = Some b1 \<and> Buffer_contents b1 = be_bytes x32
        \<and> readInt32 e' b1 = Some (x32, b2) \<and> Buffer_contents b2 = [])
    \<and> (\<exists>b1 b2. appendInt16 e x16 b = Some b1 \<and> Buffer_contents b1 = be_bytes x16
        \<and> readInt16 e' b1 = Some (x16, b2) \<and> Buffer_contents b2 = [])
    \<and> (\<exists>b1 b2. appendInt8 e x8 b = Some b1 \<and> Buffer_contents b1 = be_bytes x8
        \<and> readInt8 e' b1 = Some (x8, b2) \<and> Buffer_contents b2 = [])"
proof -
  have app: "\<exists>b1. Buffer_append d b = Some b1 \<and> Buffer_ok b1 \<and> Buffer_contents b1 = d" for d
    using Buffer_append_ok [OF assms(1), of d] assms(2) by auto
  have whole: "Buffer_contents b1 = d \<Longrightarrow> Buffer_contents b1 = d @ []" for b1 d by simp
  show ?thesis
    unfolding append_ints_eq
    by (intro conjI) (metis app whole read_ints(1), metis app whole read_ints(2),
      metis app whole read_ints(3), metis app whole read_ints(4))
qed

text \<open>
  \<open>findCRLF\<close> finds the first end of line: the result is the null pointer exactly when no CRLF is
  among the readable bytes, and otherwise points at the first one, inside the readable range.
\<close>

lemma findCRLF_first:
  assumes "Buffer_inv b"
  shows "case findCRLF b of
      None \<Rightarrow> \<not> sublist kCRLF (Buffer_contents b)
    | Some p \<Rightarrow> \<exists>line rest. Buffer_contents b = line @ kCRLF @ rest \<and> p = Buffer_peek b + length line
        \<and> \<not> sublist kCRLF (line @ butlast kCRLF)"
proof -
  let ?c = "Buffer_contents b" and ?k = "std_search kCRLF (Buffer_contents b)"
  have ne: "kCRLF \<noteq> []" by (simp add: kCRLF_def)
  show ?thesis
  proof (cases "?k = length ?c")
    case True
    then show ?thesis
      using std_search_None_iff [OF ne, of ?c] by (simp add: findCRLF_eq [OF assms])
  next
    case False
    then have less: "?k < length ?c" using std_search_le [of kCRLF ?c] by linarith
    define line where "line = take ?k ?c"
    have "?k = length line" "\<exists>rest. ?c = line @ kCRLF @ rest" "\<not> sublist kCRLF (line @ butlast kCRLF)"
      using less std_search_split [OF ne less] by (auto simp: line_def)
    then show ?thesis
      using False by (auto simp: findCRLF_eq [OF assms] Let_def)
  qed
qed

end
