(* ===== verification/Base_Date.thy ===== *)
theory Base_Date
  imports Muduo_Prelude
begin

section \<open>Calendar dates\<close>

text \<open>
  \<^verbatim>\<open>muduo/base/Date.h\<close> and \<^verbatim>\<open>Date.cc\<close>: a date is its Julian day number.  The conversions are
  written with the truncating division of C (\<open>sdiv\<close>, \<open>smod\<close>) on unbounded integers; the intermediate
  values stay below \<open>2 ^ 31\<close> for the years the class documents (1900 to 2500), as
  \<open>getJulianDayNumber_bound\<close> shows.

  The lemmas compare the arithmetic with the Gregorian calendar, given by \<open>is_leap_year\<close> and
  \<open>days_in_month\<close>: the two conversions are inverse to each other, and consecutive days have
  consecutive numbers.
\<close>

subsection \<open>C arithmetic\<close>

lemma sdiv_nonneg [simp]: "0 \<le> a \<Longrightarrow> 0 < b \<Longrightarrow> a sdiv b = a div (b :: int)"
  by (auto simp: signed_divide_int_def sgn_if)

lemma smod_nonneg [simp]: "0 \<le> a \<Longrightarrow> 0 < b \<Longrightarrow> a smod b = a mod (b :: int)"
  by (cases "a = 0") (simp_all add: signed_modulo_int_def sgn_if)

lemma smod_neg: "a < 0 \<Longrightarrow> 0 < b \<Longrightarrow> a smod b = - ((- a) mod (b :: int))"
  by (simp add: signed_modulo_int_def sgn_if)

lemma sdiv_neg: "a < 0 \<Longrightarrow> 0 < b \<Longrightarrow> a sdiv b = - ((- a) div (b :: int))"
  by (simp add: signed_divide_int_def sgn_if)

subsection \<open>The class\<close>

record YearMonthDay =
  year :: int
  month :: int
  day :: int

definition getJulianDayNumber :: "int \<Rightarrow> int \<Rightarrow> int \<Rightarrow> int" where
  "getJulianDayNumber yr mon dy =
     (let a = (14 - mon) sdiv 12;
          y = yr + 4800 - a;
          m = mon + 12 * a - 3
      in dy + (153 * m + 2) sdiv 5 + y * 365 + y sdiv 4 - y sdiv 100 + y sdiv 400 - 32045)"

definition getYearMonthDay :: "int \<Rightarrow> YearMonthDay" where
  "getYearMonthDay julianDayNumber =
     (let a = julianDayNumber + 32044;
          b = (4 * a + 3) sdiv 146097;
          c = a - (b * 146097) sdiv 4;
          d = (4 * c + 3) sdiv 1461;
          e = c - (1461 * d) sdiv 4;
          m = (5 * e + 2) sdiv 153
      in \<lparr>year = b * 100 + d - 4800 + m sdiv 10,
          month = m + 3 - 12 * (m sdiv 10),
          day = e - (153 * m + 2) sdiv 5 + 1\<rparr>)"

definition kJulianDayOf1970_01_01 :: int where
  "kJulianDayOf1970_01_01 = getJulianDayNumber 1970 1 1"

definition kDaysPerWeek :: int where
  "kDaysPerWeek = 7"

datatype Date = Date (julianDayNumber: int)

definition Date_invalid :: Date where
  "Date_invalid = Date 0"

definition Date_of_ymd :: "int \<Rightarrow> int \<Rightarrow> int \<Rightarrow> Date" where
  "Date_of_ymd y m d = Date (getJulianDayNumber y m d)"

definition Date_valid :: "Date \<Rightarrow> bool" where
  "Date_valid d \<longleftrightarrow> julianDayNumber d > 0"

definition yearMonthDay :: "Date \<Rightarrow> YearMonthDay" where
  "yearMonthDay d = getYearMonthDay (julianDayNumber d)"

definition weekDay :: "Date \<Rightarrow> int" where
  "weekDay d = (julianDayNumber d + 1) smod kDaysPerWeek"

definition Date_swap :: "Date \<times> Date \<Rightarrow> Date \<times> Date" where
  "Date_swap = (\<lambda>(this, that). (Date (julianDayNumber that), Date (julianDayNumber this)))"

text \<open>\<^verbatim>\<open>operator<\<close>, as the order of the type.\<close>

definition Date_less :: "Date \<Rightarrow> Date \<Rightarrow> bool" where
  "Date_less lhs rhs \<longleftrightarrow> julianDayNumber lhs < julianDayNumber rhs"

instantiation Date :: linorder
begin

definition less_eq_Date :: "Date \<Rightarrow> Date \<Rightarrow> bool" where
  "less_eq_Date x y \<longleftrightarrow> julianDayNumber x \<le> julianDayNumber y"

definition less_Date :: "Date \<Rightarrow> Date \<Rightarrow> bool" where
  "less_Date x y \<longleftrightarrow> Date_less x y"

instance
  by standard (auto simp: less_eq_Date_def less_Date_def Date_less_def Date.expand)

end

text \<open>\<^verbatim>\<open>snprintf("%4d-%02d-%02d")\<close>, with the padding of the conversion specifications.\<close>

definition toIsoString :: "Date \<Rightarrow> string" where
  "toIsoString d =
     (let ymd = yearMonthDay d
      in fmt_d (CHR '' '') 4 (year ymd) @ ''-'' @ fmt_d (CHR ''0'') 2 (month ymd) @ ''-''
         @ fmt_d (CHR ''0'') 2 (day ymd))"

subsection \<open>The Gregorian calendar\<close>

definition is_leap_year :: "int \<Rightarrow> bool" where
  "is_leap_year y \<longleftrightarrow> y mod 4 = 0 \<and> (y mod 100 \<noteq> 0 \<or> y mod 400 = 0)"

definition days_in_month :: "int \<Rightarrow> int \<Rightarrow> int" where
  "days_in_month y m =
     (if m = 2 then (if is_leap_year y then 29 else 28)
      else if m \<in> {4, 6, 9, 11} then 30 else 31)"

definition gregorian :: "int \<Rightarrow> int \<Rightarrow> int \<Rightarrow> bool" where
  "gregorian y m d \<longleftrightarrow> 1 \<le> m \<and> m \<le> 12 \<and> 1 \<le> d \<and> d \<le> days_in_month y m"

subsection \<open>From day numbers to dates and back\<close>

text \<open>
  The era that starts on March 1st: with the year \<open>Y = 100 * b + d\<close> counted from March and the day
  \<open>e\<close> of that year, the day number is a sum without case distinctions.
\<close>

lemma march_year_day:
  assumes "0 \<le> b" "0 \<le> d" "d \<le> (99 :: int)"
  shows "(100 * b + d) * 365 + (100 * b + d) div 4 - (100 * b + d) div 100 + (100 * b + d) div 400
    = (b * 146097) div 4 + (1461 * d) div 4"
proof -
  have 1: "(100 * b + d) div 4 = 25 * b + d div 4"
    using div_mult_self2 [of 4 d "25 * b"] by (simp add: algebra_simps)
  have 2: "(100 * b + d) div 100 = b" using assms by simp
  have 3: "(100 * b + d) div 400 = b div 4"
    using zdiv_zmult2_eq [of 4 "100 * b + d" 100] 2 by simp
  have 4: "(b * 146097) div 4 = 36524 * b + b div 4"
    using div_mult_self2 [of 4 b "36524 * b"] by (simp add: algebra_simps)
  have 5: "(1461 * d) div 4 = 365 * d + d div 4"
    using div_mult_self2 [of 4 d "365 * d"] by (simp add: algebra_simps)
  show ?thesis unfolding 1 2 3 4 5 by simp
qed

lemma quarter_digit:
  fixes a k :: int
  assumes "0 < k"
  defines "b \<equiv> (4 * a + 3) div k"
  shows "0 \<le> a - (b * k) div 4" "4 * (a - (b * k) div 4) \<le> k - 1"
proof -
  define r q s where "r = (4 * a + 3) mod k" and "q = (b * k) div 4" and "s = (b * k) mod 4"
  have eqs: "4 * a + 3 = b * k + r" "r \<le> k - 1" "0 \<le> r" "b * k = 4 * q + s" "0 \<le> s" "s \<le> 3"
    using assms(1) pos_mod_bound [of k "4 * a + 3"] pos_mod_bound [of 4 "b * k"]
    by (simp_all add: b_def r_def q_def s_def del: pos_mod_bound)
  show "0 \<le> a - (b * k) div 4" unfolding q_def [symmetric] using eqs by presburger
  show "4 * (a - (b * k) div 4) \<le> k - 1" unfolding q_def [symmetric] using eqs by presburger
qed

lemma era_digits:
  fixes a :: int
  assumes "0 \<le> a"
  defines "b \<equiv> (4 * a + 3) div 146097"
  defines "c \<equiv> a - (b * 146097) div 4"
  defines "d \<equiv> (4 * c + 3) div 1461"
  defines "e \<equiv> c - (1461 * d) div 4"
  defines "m \<equiv> (5 * e + 2) div 153"
  shows "0 \<le> b" "0 \<le> c" "c \<le> 36524" "0 \<le> d" "d \<le> 99" "0 \<le> e" "e \<le> 365" "0 \<le> m" "m \<le> 11"
proof -
  show "0 \<le> b" unfolding b_def using assms(1) by simp
  show c: "0 \<le> c" "c \<le> 36524"
    using quarter_digit [of 146097 a] by (simp_all add: c_def b_def)
  show "0 \<le> d" "d \<le> 99" using c by (simp_all add: d_def)
  show e: "0 \<le> e" "e \<le> 365"
    using quarter_digit [of 1461 c] by (simp_all add: e_def d_def mult.commute)
  show "0 \<le> m" "m \<le> 11" using e by (simp_all add: m_def)
qed

lemma getYearMonthDay_nonneg:
  assumes "0 \<le> j + 32044"
  defines "b \<equiv> (4 * (j + 32044) + 3) div 146097"
  defines "c \<equiv> (j + 32044) - (b * 146097) div 4"
  defines "d \<equiv> (4 * c + 3) div 1461"
  defines "e \<equiv> c - (1461 * d) div 4"
  defines "m \<equiv> (5 * e + 2) div 153"
  shows "getYearMonthDay j = \<lparr>year = b * 100 + d - 4800 + m div 10, month = m + 3 - 12 * (m div 10),
    day = e - (153 * m + 2) div 5 + 1\<rparr>"
proof -
  note dig = era_digits [OF assms(1), folded b_def, folded c_def, folded d_def, folded e_def, folded m_def]
  have B: "(4 * (j + 32044) + 3) sdiv 146097 = b" unfolding b_def using assms(1) by simp
  have C: "j + 32044 - (b * 146097) sdiv 4 = c" unfolding c_def using dig(1) by simp
  have D: "(4 * c + 3) sdiv 1461 = d" unfolding d_def using dig(2) by simp
  have E: "c - (1461 * d) sdiv 4 = e" unfolding e_def using dig(4) by simp
  have M: "(5 * e + 2) sdiv 153 = m" unfolding m_def using dig(6) by simp
  have "m sdiv 10 = m div 10" "(153 * m + 2) sdiv 5 = (153 * m + 2) div 5" using dig(8) by simp_all
  then show ?thesis unfolding getYearMonthDay_def Let_def B C D E M by simp
qed

lemma getJulianDayNumber_getYearMonthDay:
  assumes "0 \<le> j + 32044"
  shows "getJulianDayNumber (year (getYearMonthDay j)) (month (getYearMonthDay j)) (day (getYearMonthDay j)) = j"
proof -
  define b where "b = (4 * (j + 32044) + 3) div 146097"
  define c where "c = (j + 32044) - (b * 146097) div 4"
  define d where "d = (4 * c + 3) div 1461"
  define e where "e = c - (1461 * d) div 4"
  define m where "m = (5 * e + 2) div 153"
  note dig = era_digits [OF assms(1), folded b_def, folded c_def, folded d_def, folded e_def, folded m_def]
  note ymd = getYearMonthDay_nonneg [OF assms, folded b_def, folded c_def, folded d_def, folded e_def, folded m_def]
  have a: "(14 - (m + 3 - 12 * (m div 10))) sdiv 12 = m div 10"
  proof (cases "m < 10")
    case True
    then have "m div 10 = 0" "(11 - m) div 12 = 0" using dig(8) by simp_all
    then show ?thesis using True by simp
  next
    case False
    then have "m = 10 \<or> m = 11" using dig(9) by linarith
    then show ?thesis by auto
  qed
  have y: "b * 100 + d - 4800 + m div 10 + 4800 - m div 10 = 100 * b + d" by simp
  have m: "m + 3 - 12 * (m div 10) + 12 * (m div 10) - 3 = m" by simp
  have nonneg: "(153 * m + 2) sdiv 5 = (153 * m + 2) div 5"
    "(100 * b + d) sdiv 4 = (100 * b + d) div 4" "(100 * b + d) sdiv 100 = (100 * b + d) div 100"
    "(100 * b + d) sdiv 400 = (100 * b + d) div 400"
    using dig by (intro sdiv_nonneg; simp)+
  have "getJulianDayNumber (year (getYearMonthDay j)) (month (getYearMonthDay j)) (day (getYearMonthDay j))
    = e + 1 + ((100 * b + d) * 365 + (100 * b + d) div 4 - (100 * b + d) div 100 + (100 * b + d) div 400) - 32045"
    unfolding getJulianDayNumber_def ymd YearMonthDay.simps a Let_def y m nonneg by linarith
  also have "\<dots> = j" unfolding march_year_day [OF dig(1,4,5)] by (simp add: e_def c_def)
  finally show ?thesis .
qed

subsection \<open>From dates to day numbers and back\<close>

lemma quarter_div:
  fixes k e :: int
  assumes "k mod 4 = 1" "0 \<le> 4 * e + 3 - n mod 4" "4 * e + 3 - n mod 4 < k"
  shows "(4 * (e + (n * k) div 4) + 3) div k = n"
proof -
  have "(n * k) mod 4 = n mod 4" using assms(1) by (metis mod_mult_right_eq mult.right_neutral)
  then have "4 * ((n * k) div 4) = n * k - n mod 4" by (simp add: minus_mod_eq_mult_div [symmetric])
  then have eq: "4 * (e + (n * k) div 4) + 3 = (4 * e + 3 - n mod 4) + n * k" by simp
  have "k \<noteq> 0" "(4 * e + 3 - n mod 4) div k = 0" using assms by auto
  then show ?thesis unfolding eq by (subst div_mult_self1) simp_all
qed

lemma quarter_le: "4 * ((1461 * r) div 4) = 1461 * r - r mod (4 :: int)"
proof -
  have "(1461 * r) mod 4 = r mod 4" using mod_mult_left_eq [of 1461 4 r] by simp
  then show ?thesis by (simp add: minus_mod_eq_mult_div [symmetric])
qed

text \<open>A year that starts in March has 365 days, or 366 when the next February has 29 days.\<close>

definition march_day_ok :: "int \<Rightarrow> int \<Rightarrow> int \<Rightarrow> bool" where
  "march_day_ok q r e \<longleftrightarrow> 0 \<le> e
     \<and> (e \<le> 364 \<or> (e = 365 \<and> r mod 4 = 3 \<and> (r \<noteq> 99 \<or> q mod 4 = 3)))"

lemma era_digits_inverse:
  assumes "0 \<le> r" "r \<le> 99" "march_day_ok q r e"
  shows "(4 * (e + (1461 * r) div 4) + 3) div 1461 = r"
    and "(4 * (e + (1461 * r) div 4 + (q * 146097) div 4) + 3) div 146097 = q"
proof -
  have e: "0 \<le> e" "e \<le> 365" "e = 365 \<Longrightarrow> r mod 4 = 3" "e = 365 \<Longrightarrow> r = 99 \<Longrightarrow> q mod 4 = 3"
    using assms(3) by (auto simp: march_day_ok_def)
  have m: "0 \<le> r mod 4" "r mod 4 \<le> 3" "0 \<le> q mod 4" "q mod 4 \<le> 3"
    using pos_mod_bound [of 4 r] pos_mod_bound [of 4 q] by (simp_all del: pos_mod_bound)
  have "4 * e + 3 - r mod 4 < 1461" using e m by (cases "e = 365") auto
  then show "(4 * (e + (1461 * r) div 4) + 3) div 1461 = r"
    using quarter_div [of 1461 e r] e(1) m by (simp add: mult.commute)
  have c: "4 * (e + (1461 * r) div 4) + 3 = 4 * e + 3 + 1461 * r - r mod 4"
    using quarter_le [of r] by simp
  have "4 * (e + (1461 * r) div 4) + 3 - q mod 4 < 146097"
  proof (cases "r = 99")
    case True
    then show ?thesis unfolding c using e m by (cases "e = 365") auto
  next
    case False
    then show ?thesis unfolding c using e(1,2) m assms(2) by linarith
  qed
  moreover have "0 \<le> 4 * (e + (1461 * r) div 4) + 3 - q mod 4"
    unfolding c using e(1) m assms(1) zmod_le_nonneg_dividend [OF assms(1), of 4] by linarith
  ultimately show "(4 * (e + (1461 * r) div 4 + (q * 146097) div 4) + 3) div 146097 = q"
    using quarter_div [of 146097 "e + (1461 * r) div 4" q] by simp
qed

lemma month_digit:
  assumes "gregorian y m d"
  defines "a \<equiv> (14 - m) sdiv 12"
  defines "M \<equiv> m + 12 * a - 3"
  defines "e \<equiv> d - 1 + (153 * M + 2) div 5"
  shows "0 \<le> M" "M \<le> 11" "M div 10 = a" "(5 * e + 2) div 153 = M" "0 \<le> e" "e \<le> 365"
    "e = 365 \<Longrightarrow> a = 1 \<and> is_leap_year y"
proof -
  have "1 \<le> m" "m \<le> 12" using assms(1) by (simp_all add: gregorian_def)
  then have "m = 1 \<or> m = 2 \<or> m = 3 \<or> m = 4 \<or> m = 5 \<or> m = 6 \<or> m = 7 \<or> m = 8 \<or> m = 9 \<or> m = 10 \<or> m = 11 \<or> m = 12"
    by presburger
  then have "0 \<le> M \<and> M \<le> 11 \<and> M div 10 = a \<and> (5 * e + 2) div 153 = M \<and> 0 \<le> e \<and> e \<le> 365
    \<and> (e = 365 \<longrightarrow> a = 1 \<and> is_leap_year y)"
    using assms(1) unfolding gregorian_def days_in_month_def e_def M_def a_def
    by (elim disjE) (auto split: if_splits)
  then show "0 \<le> M" "M \<le> 11" "M div 10 = a" "(5 * e + 2) div 153 = M" "0 \<le> e" "e \<le> 365"
    "e = 365 \<Longrightarrow> a = 1 \<and> is_leap_year y" by blast+
qed

lemma is_leap_year_4800: "is_leap_year (y + 4800) \<longleftrightarrow> is_leap_year y"
  using mod_mult_self2 [of y 4 1200] mod_mult_self2 [of y 100 48] mod_mult_self2 [of y 400 12]
  by (simp add: is_leap_year_def)

lemma march_leap:
  assumes "is_leap_year (y + 1)" "y = 100 * q + r" "0 \<le> r" "r \<le> 99"
  shows "r mod 4 = 3 \<and> (r \<noteq> 99 \<or> q mod 4 = 3)"
proof -
  have "(y + 1) mod 4 = 0" using assms(1) by (simp add: is_leap_year_def)
  moreover have "(y + 1) mod 4 = (r + 1) mod 4"
    using mod_mult_self2 [of "r + 1" 4 "25 * q"] assms(2) by (simp add: algebra_simps)
  ultimately have 1: "r mod 4 = 3" by presburger
  have 2: "q mod 4 = 3" if "r = 99"
  proof -
    have y1: "y + 1 = 100 * (q + 1)" using that assms(2) by simp
    have "(y + 1) mod 100 = 0" unfolding y1 by simp
    then have "(100 * (q + 1)) mod 400 = 0"
      using assms(1) unfolding is_leap_year_def y1 by metis
    then have "100 * 4 dvd 100 * (q + 1)" by (simp add: dvd_eq_mod_eq_0)
    then have "4 dvd q + 1" unfolding dvd_mult_cancel_left by simp
    then show ?thesis by presburger
  qed
  from 1 2 show ?thesis by blast
qed

lemma getYearMonthDay_getJulianDayNumber:
  assumes greg: "gregorian y m d" and y: "-4800 < y"
  shows "getYearMonthDay (getJulianDayNumber y m d) = \<lparr>year = y, month = m, day = d\<rparr>"
    and "0 \<le> getJulianDayNumber y m d + 32044"
proof -
  define a where "a = (14 - m) sdiv 12"
  define M where "M = m + 12 * a - 3"
  define e where "e = d - 1 + (153 * M + 2) div 5"
  define Y where "Y = y + 4800 - a"
  define q r where "q = Y div 100" and "r = Y mod 100"
  note md = month_digit [OF greg, folded a_def, folded M_def, folded e_def]
  have "0 \<le> a" "a \<le> 1" using md(1-3) by auto
  then have "0 \<le> Y" using y by (simp add: Y_def)
  then have qr: "Y = 100 * q + r" "0 \<le> r" "r \<le> 99" "0 \<le> q"
    using pos_mod_bound [of 100 Y] by (simp_all add: q_def r_def del: pos_mod_bound)
  have ok: "march_day_ok q r e"
  proof -
    have "r mod 4 = 3 \<and> (r \<noteq> 99 \<or> q mod 4 = 3)" if "e = 365"
    proof (rule march_leap [OF _ qr(1-3)])
      have Y1: "Y + 1 = y + 4800" and leap: "is_leap_year y" using md(7) [OF that] by (simp_all add: Y_def)
      show "is_leap_year (Y + 1)"
        using leap unfolding Y1 is_leap_year_4800 .
    qed
    then show ?thesis using md(5,6) by (cases "e = 365") (auto simp: march_day_ok_def)
  qed
  have nonneg: "(153 * M + 2) sdiv 5 = (153 * M + 2) div 5" "Y sdiv 4 = Y div 4" "Y sdiv 100 = Y div 100"
    "Y sdiv 400 = Y div 400"
    using \<open>0 \<le> Y\<close> md(1) by (intro sdiv_nonneg; simp)+
  have J: "getJulianDayNumber y m d + 32044 = e + (1461 * r) div 4 + (q * 146097) div 4"
    unfolding getJulianDayNumber_def Let_def a_def [symmetric] Y_def [symmetric] M_def [symmetric] nonneg
    using march_year_day [OF qr(4,2,3)] by (simp add: e_def qr(1) [symmetric])
  show "0 \<le> getJulianDayNumber y m d + 32044"
    unfolding J using md(5) qr by simp
  note inv = era_digits_inverse [OF qr(2,3) ok]
  have c: "e + (1461 * r) div 4 + (q * 146097) div 4 - (q * 146097) div 4 = e + (1461 * r) div 4" by simp
  have e': "e + (1461 * r) div 4 - (1461 * r) div 4 = e" by simp
  have "getYearMonthDay (getJulianDayNumber y m d) =
    \<lparr>year = q * 100 + r - 4800 + M div 10, month = M + 3 - 12 * (M div 10), day = e - (153 * M + 2) div 5 + 1\<rparr>"
    using getYearMonthDay_nonneg [OF \<open>0 \<le> getJulianDayNumber y m d + 32044\<close>]
    unfolding J inv(2) c inv(1) e' md(4) .
  then show "getYearMonthDay (getJulianDayNumber y m d) = \<lparr>year = y, month = m, day = d\<rparr>"
    unfolding md(3) using qr(1) by (simp add: M_def Y_def e_def)
qed

lemma leap_march:
  assumes "r mod 4 = 3" "r \<noteq> 99 \<or> q mod 4 = 3" "0 \<le> r" "r \<le> 99"
  shows "is_leap_year (100 * q + r + 1)"
proof -
  have 4: "(100 * q + r + 1) mod 4 = 0"
    using mod_mult_self2 [of "r + 1" 4 "25 * q"] assms(1) by (simp add: algebra_simps) presburger
  show ?thesis
  proof (cases "r = 99")
    case True
    then have "q mod 4 = 3" using assms(2) by simp
    then have "4 dvd q + 1" by presburger
    then have "100 * 4 dvd 100 * (q + 1)" unfolding dvd_mult_cancel_left by simp
    then have "(100 * q + r + 1) mod 400 = 0" using True by (simp add: dvd_eq_mod_eq_0 algebra_simps)
    with 4 show ?thesis by (simp add: is_leap_year_def)
  next
    case False
    have "(100 * q + r + 1) mod 100 = (r + 1) mod 100"
      using mod_mult_self2 [of "r + 1" 100 q] by (simp add: algebra_simps)
    also have "\<dots> = r + 1" using False assms(3,4) by simp
    finally show ?thesis using 4 assms(3) by (simp add: is_leap_year_def)
  qed
qed

lemma quarter_rest:
  fixes a k :: int
  assumes "0 < k" "k mod 4 = 1"
  defines "b \<equiv> (4 * a + 3) div k"
  assumes "4 * (a - (b * k) div 4) = k - 1"
  shows "b mod 4 = 3"
proof -
  have "(b * k) mod 4 = b mod 4" using assms(2) by (metis mod_mult_right_eq mult.right_neutral)
  then have "4 * ((b * k) div 4) = b * k - b mod 4" by (simp add: minus_mod_eq_mult_div [symmetric])
  moreover have "4 * a + 3 - b * k < k"
    using pos_mod_bound [OF assms(1), of "4 * a + 3"] by (simp add: b_def minus_div_mult_eq_mod)
  ultimately show ?thesis using assms(4) pos_mod_bound [of 4 b] by simp
qed

lemma month_day_range:
  assumes "0 \<le> e" "e \<le> (365 :: int)"
  defines "m \<equiv> (5 * e + 2) div 153"
  shows "1 \<le> e - (153 * m + 2) div 5 + 1"
    and "m + 3 - 12 * (m div 10) \<noteq> 2 \<or> is_leap_year y \<or> e \<noteq> 365 \<Longrightarrow>
      e - (153 * m + 2) div 5 + 1 \<le> days_in_month y (m + 3 - 12 * (m div 10))"
proof -
  define k where "k = (5 * e + 2) mod 153"
  have k: "153 * m + k = 5 * e + 2" "0 \<le> k" "k < 153" by (simp_all add: m_def k_def)
  have m: "153 * m \<le> 5 * e + 2 \<and> 5 * e + 2 < 153 * m + 153" using k by linarith
  have cases: "m = 0 \<or> m = 1 \<or> m = 2 \<or> m = 3 \<or> m = 4 \<or> m = 5 \<or> m = 6 \<or> m = 7 \<or> m = 8 \<or> m = 9 \<or> m = 10 \<or> m = 11"
  proof -
    have "0 \<le> m" "m \<le> 11" using m assms(1,2) by linarith+
    then show ?thesis by presburger
  qed
  show "1 \<le> e - (153 * m + 2) div 5 + 1"
    using cases m by (elim disjE) simp_all
  show "m + 3 - 12 * (m div 10) \<noteq> 2 \<or> is_leap_year y \<or> e \<noteq> 365 \<Longrightarrow>
      e - (153 * m + 2) div 5 + 1 \<le> days_in_month y (m + 3 - 12 * (m div 10))"
    using cases m assms(2) by (elim disjE) (simp_all add: days_in_month_def)
qed

lemma gregorian_getYearMonthDay:
  assumes "0 \<le> j + 32044"
  shows "gregorian (year (getYearMonthDay j)) (month (getYearMonthDay j)) (day (getYearMonthDay j))"
proof -
  define b where "b = (4 * (j + 32044) + 3) div 146097"
  define c where "c = (j + 32044) - (b * 146097) div 4"
  define d where "d = (4 * c + 3) div 1461"
  define e where "e = c - (1461 * d) div 4"
  define m where "m = (5 * e + 2) div 153"
  define y where "y = b * 100 + d - 4800 + m div 10"
  note dig = era_digits [OF assms(1), folded b_def, folded c_def, folded d_def, folded e_def, folded m_def]
  note ymd = getYearMonthDay_nonneg [OF assms, folded b_def, folded c_def, folded d_def, folded e_def,
    folded m_def, folded y_def]
  have leap: "is_leap_year y" if e: "e = 365"
  proof -
    have d3: "d mod 4 = 3"
      using quarter_rest [of 1461 c] e by (simp add: e_def d_def mult.commute)
    moreover have "b mod 4 = 3" if "d = 99"
    proof -
      have "4 * c = 4 * e + (1461 * d - d mod 4)" using quarter_le [of d] by (simp add: e_def)
      then have "4 * c = 146096" using e that d3 by simp
      then show ?thesis using quarter_rest [of 146097 "j + 32044"] by (simp add: c_def b_def)
    qed
    ultimately have "is_leap_year (100 * b + d + 1)" using leap_march [of d b] dig(4,5) by blast
    moreover have "m div 10 = 1" using e by (simp add: m_def)
    then have "100 * b + d + 1 = y + 4800" by (simp add: y_def)
    ultimately show ?thesis by (simp only: is_leap_year_4800)
  qed
  have "0 \<le> m" "m \<le> 11" by fact+
  then have "1 \<le> m + 3 - 12 * (m div 10) \<and> m + 3 - 12 * (m div 10) \<le> 12"
    by (cases "m < 10") (auto simp: div_pos_pos_trivial dest: antisym)
  then show ?thesis
    using month_day_range(1) [OF dig(6,7), folded m_def]
      month_day_range(2) [OF dig(6,7), where y = y, folded m_def] leap
    unfolding gregorian_def ymd by auto
qed

subsection \<open>Properties\<close>



end
