(* ===== verification/Base_TimeZone.thy ===== *)
theory Base_TimeZone
  imports Base_Date Net_Endian
begin

section \<open>Time zones\<close>

text \<open>
  \<^verbatim>\<open>muduo/base/TimeZone.h\<close> and \<^verbatim>\<open>TimeZone.cc\<close>: conversion between seconds since the epoch and
  broken-down time, in UTC and in a zone with transitions, and the parser of zone files.

  The fields of \<^verbatim>\<open>struct tm\<close> are unbounded integers.  \<^verbatim>\<open>gmtime_r\<close> and \<^verbatim>\<open>timegm\<close> of the C library are
  given by the calendar functions of the class, whose comments name them as their counterparts.
  Undefined behaviour (the first element of an empty vector, an index out of range) is \<open>None\<close>; a C++
  exception thrown while a file is read is the left summand of a sum.
\<close>

subsection \<open>UTC\<close>

record tm =
  tm_sec :: int
  tm_min :: int
  tm_hour :: int
  tm_mday :: int
  tm_mon :: int
  tm_year :: int
  tm_wday :: int
  tm_yday :: int
  tm_isdst :: bool
  tm_gmtoff :: int
  tm_zone :: string

definition tm_zero :: tm where
  "tm_zero = \<lparr>tm_sec = 0, tm_min = 0, tm_hour = 0, tm_mday = 0, tm_mon = 0, tm_year = 0,
     tm_wday = 0, tm_yday = 0, tm_isdst = False, tm_gmtoff = 0, tm_zone = []\<rparr>"

definition kSecondsPerDay :: int where
  "kSecondsPerDay = 24 * 60 * 60"

definition fillHMS :: "int \<Rightarrow> tm \<Rightarrow> tm" where
  "fillHMS seconds utc =
     (let minutes = seconds sdiv 60
      in utc\<lparr>tm_sec := seconds smod 60, tm_min := minutes smod 60, tm_hour := minutes sdiv 60\<rparr>)"

definition toUtcTime :: "int \<Rightarrow> bool \<Rightarrow> tm" where
  "toUtcTime secondsSinceEpoch yday =
     (let utc = tm_zero\<lparr>tm_zone := ''GMT''\<rparr>;
          seconds = secondsSinceEpoch smod kSecondsPerDay;
          days = secondsSinceEpoch sdiv kSecondsPerDay;
          (seconds, days) = (if seconds < 0 then (seconds + kSecondsPerDay, days - 1) else (seconds, days));
          utc = fillHMS seconds utc;
          date = Date (days + kJulianDayOf1970_01_01);
          ymd = yearMonthDay date;
          utc = utc\<lparr>tm_year := year ymd - 1900, tm_mon := month ymd - 1, tm_mday := day ymd,
                     tm_wday := weekDay date\<rparr>
      in if yday
         then utc\<lparr>tm_yday := julianDayNumber date - julianDayNumber (Date_of_ymd (year ymd) 1 1)\<rparr>
         else utc)"

definition fromUtcTime_ymd :: "int \<Rightarrow> int \<Rightarrow> int \<Rightarrow> int \<Rightarrow> int \<Rightarrow> int \<Rightarrow> int" where
  "fromUtcTime_ymd yr mon dy hour minute seconds =
     (let date = Date_of_ymd yr mon dy;
          secondsInDay = hour * 3600 + minute * 60 + seconds;
          days = julianDayNumber date - kJulianDayOf1970_01_01
      in days * kSecondsPerDay + secondsInDay)"

definition fromUtcTime :: "tm \<Rightarrow> int" where
  "fromUtcTime utc = fromUtcTime_ymd (tm_year utc + 1900) (tm_mon utc + 1) (tm_mday utc)
     (tm_hour utc) (tm_min utc) (tm_sec utc)"

definition gmtime_r :: "int \<Rightarrow> tm" where
  "gmtime_r t = toUtcTime t True"

definition timegm :: "tm \<Rightarrow> int" where
  "timegm = fromUtcTime"

subsection \<open>Transitions\<close>

record Transition =
  gmttime :: int
  localtime :: int
  localtimeIdx :: nat

record Localtime =
  gmtOffset :: int
  isDst :: bool
  arrbIdx :: nat

record TimeZone_Data =
  transitions :: "Transition list"
  localtimes :: "Localtime list"
  tz_abbreviation :: string

definition Data_empty :: TimeZone_Data where
  "Data_empty = \<lparr>transitions = [], localtimes = [], tz_abbreviation = []\<rparr>"

definition Comp :: "bool \<Rightarrow> Transition \<Rightarrow> Transition \<Rightarrow> bool" where
  "Comp compareGmt lhs rhs =
     (if compareGmt then gmttime lhs < gmttime rhs else localtime lhs < localtime rhs)"

definition Comp_equal :: "bool \<Rightarrow> Transition \<Rightarrow> Transition \<Rightarrow> bool" where
  "Comp_equal compareGmt lhs rhs =
     (if compareGmt then gmttime lhs = gmttime rhs else localtime lhs = localtime rhs)"

text \<open>\<^verbatim>\<open>std::lower_bound\<close> on a sorted range: the number of elements before the first that is not less.\<close>

definition std_lower_bound :: "('a \<Rightarrow> 'a \<Rightarrow> bool) \<Rightarrow> 'a list \<Rightarrow> 'a \<Rightarrow> nat" where
  "std_lower_bound lt xs x = length (takeWhile (\<lambda>y. lt y x) xs)"

definition findLocaltime :: "TimeZone_Data \<Rightarrow> Transition \<Rightarrow> bool \<Rightarrow> Localtime option" where
  "findLocaltime data sentry gmt =
     (if transitions data = [] \<or> Comp gmt sentry (hd (transitions data))
      then vector_at (localtimes data) 0
      else
        (let transI = std_lower_bound (Comp gmt) (transitions data) sentry
         in if transI \<noteq> length (transitions data)
            then do {
              transI \<leftarrow> (if \<not> Comp_equal gmt sentry (transitions data ! transI)
                        then do { cassert (transI \<noteq> 0); Some (transI - 1) }
                        else Some transI);
              vector_at (localtimes data) (localtimeIdx (transitions data ! transI))
            }
            else vector_at (localtimes data) (localtimeIdx (last (transitions data)))))"

subsection \<open>The class\<close>

text \<open>\<open>None\<close> is the invalid zone, a null \<^verbatim>\<open>data_\<close>.\<close>

type_synonym TimeZone = "TimeZone_Data option"

definition TimeZone_valid :: "TimeZone \<Rightarrow> bool" where
  "TimeZone_valid tz \<longleftrightarrow> tz \<noteq> None"

definition TimeZone_fixed :: "int \<Rightarrow> string \<Rightarrow> TimeZone" where
  "TimeZone_fixed eastOfUtc name =
     Some (Data_empty\<lparr>localtimes := [\<lparr>gmtOffset = eastOfUtc, isDst = False, arrbIdx = 0\<rparr>],
                      tz_abbreviation := name\<rparr>)"

text \<open>The C string that starts at an index of a \<^verbatim>\<open>std::string\<close>.\<close>

definition c_string_at :: "string \<Rightarrow> nat \<Rightarrow> string option" where
  "c_string_at s i = (if i \<le> length s then Some (takeWhile (\<lambda>c. c \<noteq> CHR 0x00) (drop i s)) else None)"

definition toLocalTime :: "TimeZone \<Rightarrow> int \<Rightarrow> tm option" where
  "toLocalTime tz seconds = do {
     data \<leftarrow> tz;
     local \<leftarrow> findLocaltime data \<lparr>gmttime = seconds, localtime = 0, localtimeIdx = 0\<rparr> True;
     let localSeconds = seconds + gmtOffset local;
     zone \<leftarrow> c_string_at (tz_abbreviation data) (arrbIdx local);
     Some ((gmtime_r localSeconds)\<lparr>tm_isdst := isDst local, tm_gmtoff := gmtOffset local, tm_zone := zone\<rparr>)
   }"

definition fromLocalTime :: "TimeZone \<Rightarrow> tm \<Rightarrow> int option" where
  "fromLocalTime tz localTm = do {
     data \<leftarrow> tz;
     let seconds = timegm localTm;
     local \<leftarrow> findLocaltime data \<lparr>gmttime = 0, localtime = seconds, localtimeIdx = 0\<rparr> False;
     seconds \<leftarrow> (if tm_isdst localTm
       then do {
         tryTm \<leftarrow> toLocalTime tz (seconds - gmtOffset local);
         Some (if \<not> tm_isdst tryTm \<and> tm_hour tryTm = tm_hour localTm \<and> tm_min tryTm = tm_min localTm
               then seconds - 3600 else seconds)
       }
       else Some seconds);
     Some (seconds - gmtOffset local)
   }"

subsection \<open>Zone files\<close>

text \<open>
  A file is its remaining bytes.  A read that meets the end of the file throws; the left summand is
  the \<^verbatim>\<open>what()\<close> of the exception.
\<close>

type_synonym 'a reader = "char list \<Rightarrow> string + 'a \<times> char list"

definition rbind :: "'a reader \<Rightarrow> ('a \<Rightarrow> 'b reader) \<Rightarrow> 'b reader" where
  "rbind m f s = (case m s of Inl what \<Rightarrow> Inl what | Inr (x, s') \<Rightarrow> f x s')"

definition rreturn :: "'a \<Rightarrow> 'a reader" where
  "rreturn x s = Inr (x, s)"

definition File_readBytes :: "nat \<Rightarrow> string reader" where
  "File_readBytes n s = (if length s < n then Inl ''no enough data'' else Inr (take n s, drop n s))"

definition File_readInt32 :: "endianness \<Rightarrow> int reader" where
  "File_readInt32 e s =
     (if length s < 4 then Inl ''bad int32_t data''
      else Inr (sint (betoh e (mem_to_word e (take 4 s)) :: 32 word), drop 4 s))"

definition File_readUInt8 :: "nat reader" where
  "File_readUInt8 s = (case s of [] \<Rightarrow> Inl ''bad uint8_t data'' | c # s' \<Rightarrow> Inr (of_char c, s'))"

fun read_times :: "nat \<Rightarrow> 'a reader \<Rightarrow> 'a list reader" where
  "read_times 0 f = rreturn []"
| "read_times (Suc n) f = rbind f (\<lambda>x. rbind (read_times n f) (\<lambda>xs. rreturn (x # xs)))"

text \<open>The counts of the header: \<^verbatim>\<open>isgmtcnt, isstdcnt, leapcnt, timecnt, typecnt, charcnt\<close>.\<close>

definition read_tz_header :: "endianness \<Rightarrow> int list reader" where
  "read_tz_header e =
     rbind (File_readBytes 4) (\<lambda>head.
       if head \<noteq> ''TZif'' then (\<lambda>s. Inl ''bad head'')
       else rbind (File_readBytes 1) (\<lambda>version.
            rbind (File_readBytes 15) (\<lambda>_. read_times 6 (File_readInt32 e))))"

text \<open>
  The local time types are pushed into the data one by one, so those read before an exception stay.
  The result is the list that was pushed, and the exception or the rest of the file.
\<close>

definition read_localtime :: "endianness \<Rightarrow> Localtime reader" where
  "read_localtime e =
     rbind (File_readInt32 e) (\<lambda>gmtoff. rbind File_readUInt8 (\<lambda>isdst. rbind File_readUInt8 (\<lambda>abbrind.
       rreturn \<lparr>gmtOffset = gmtoff, isDst = (isdst \<noteq> 0), arrbIdx = abbrind\<rparr>)))"

fun read_localtimes :: "endianness \<Rightarrow> nat \<Rightarrow> char list \<Rightarrow> Localtime list \<times> (string + char list)" where
  "read_localtimes e 0 s = ([], Inr s)"
| "read_localtimes e (Suc n) s =
     (case read_localtime e s of
        Inl what \<Rightarrow> ([], Inl what)
      | Inr (l, s') \<Rightarrow> (let (ls, r) = read_localtimes e n s' in (l # ls, r)))"

fun make_transitions :: "int list \<Rightarrow> nat list \<Rightarrow> Localtime list \<Rightarrow> Transition list option" where
  "make_transitions (t # ts) (localIdx # is) ls = do {
     l \<leftarrow> vector_at ls localIdx;
     rest \<leftarrow> make_transitions ts is ls;
     Some (\<lparr>gmttime = t, localtime = t + gmtOffset l, localtimeIdx = localIdx\<rparr> # rest)
   }"
| "make_transitions _ _ ls = Some []"

text \<open>
  The file is \<open>None\<close> when it cannot be opened.  \<^verbatim>\<open>reserve\<close> of a negative count throws a
  \<^verbatim>\<open>length_error\<close>, which is a \<^verbatim>\<open>logic_error\<close>.
\<close>

definition readTimeZoneFile :: "endianness \<Rightarrow> char list option \<Rightarrow> (bool \<times> TimeZone_Data) option" where
  "readTimeZoneFile e file =
     (case file of
        None \<Rightarrow> Some (True, Data_empty)
      | Some s \<Rightarrow>
          (case read_tz_header e s of
             Inl what \<Rightarrow> Some (True, Data_empty)
           | Inr (cnt, s1) \<Rightarrow>
               (let timecnt = cnt ! 3; typecnt = cnt ! 4; charcnt = cnt ! 5
                in if timecnt < 0 then Some (True, Data_empty)
                   else
                     (case rbind (read_times (nat timecnt) (File_readInt32 e)) (\<lambda>gmts.
                            rbind (read_times (nat timecnt) File_readUInt8) (\<lambda>idxs. rreturn (gmts, idxs))) s1 of
                        Inl what \<Rightarrow> Some (True, Data_empty)
                      | Inr ((gmts, idxs), s2) \<Rightarrow>
                          (case read_localtimes e (nat typecnt) s2 of
                             (ls, Inl what) \<Rightarrow> Some (True, Data_empty\<lparr>localtimes := ls\<rparr>)
                           | (ls, Inr s3) \<Rightarrow> do {
                               ts \<leftarrow> make_transitions gmts idxs ls;
                               cassert (0 \<le> charcnt);
                               let data = Data_empty\<lparr>localtimes := ls, transitions := ts\<rparr>;
                               Some (True, case File_readBytes (nat charcnt) s3 of
                                             Inl what \<Rightarrow> data
                                           | Inr (names, _) \<Rightarrow> data\<lparr>tz_abbreviation := names\<rparr>)
                             })))))"

definition TimeZone_of_file :: "endianness \<Rightarrow> char list option \<Rightarrow> TimeZone option" where
  "TimeZone_of_file e file = do {
     (ok, data) \<leftarrow> readTimeZoneFile e file;
     Some (if \<not> ok then None else Some data)
   }"

subsection \<open>UTC is the calendar\<close>

lemma floor_fix:
  fixes t D :: int
  assumes "0 < D"
  shows "(if t smod D < 0 then (t smod D + D, t sdiv D - 1) else (t smod D, t sdiv D)) = (t mod D, t div D)"
proof (cases "0 \<le> t")
  case True
  then show ?thesis using assms by (simp add: pos_mod_sign not_less)
next
  case False
  show ?thesis
  proof (cases "(- t) mod D = 0")
    case True
    then have "t mod D = 0" by (metis add.inverse_inverse mod_minus_eq minus_zero mod_0)
    moreover have "t div D = - ((- t) div D)"
      using True assms zdiv_zminus1_eq_if [of D "- t"] by simp
    ultimately show ?thesis using False assms True by (simp add: smod_neg sdiv_neg)
  next
    case nz: False
    have "0 < (- t) mod D" using nz pos_mod_sign [OF assms, of "- t"] by linarith
    moreover have "t mod D = D - (- t) mod D"
      using nz zmod_zminus1_eq_if [of "- t" D] by simp
    moreover have "t div D = - ((- t) div D) - 1"
      using nz assms zdiv_zminus1_eq_if [of D "- t"] by simp
    ultimately show ?thesis using False assms by (simp add: smod_neg sdiv_neg)
  qed
qed

lemma kJulianDay_1970 [simp]: "kJulianDayOf1970_01_01 = 2440588"
  by (simp add: kJulianDayOf1970_01_01_def getJulianDayNumber_def)

text \<open>The day and the second of the day of a moment.\<close>

lemma toUtcTime_fields:
  defines "D \<equiv> kSecondsPerDay"
  shows "tm_sec (toUtcTime t yd) = t mod D mod 60" "tm_min (toUtcTime t yd) = t mod D div 60 mod 60"
    "tm_hour (toUtcTime t yd) = t mod D div 60 div 60"
    "tm_year (toUtcTime t yd) = year (getYearMonthDay (t div D + 2440588)) - 1900"
    "tm_mon (toUtcTime t yd) = month (getYearMonthDay (t div D + 2440588)) - 1"
    "tm_mday (toUtcTime t yd) = day (getYearMonthDay (t div D + 2440588))"
proof -
  have pos: "0 \<le> t mod D" "0 \<le> t mod D div 60" "0 < D" by (simp_all add: D_def kSecondsPerDay_def)
  show "tm_sec (toUtcTime t yd) = t mod D mod 60" "tm_min (toUtcTime t yd) = t mod D div 60 mod 60"
    "tm_hour (toUtcTime t yd) = t mod D div 60 div 60"
    "tm_year (toUtcTime t yd) = year (getYearMonthDay (t div D + 2440588)) - 1900"
    "tm_mon (toUtcTime t yd) = month (getYearMonthDay (t div D + 2440588)) - 1"
    "tm_mday (toUtcTime t yd) = day (getYearMonthDay (t div D + 2440588))"
    unfolding toUtcTime_def Let_def D_def [symmetric] floor_fix [OF pos(3)] fillHMS_def
    using pos(1,2) by (simp_all add: yearMonthDay_def)
qed

lemma hms_sum:
  "0 \<le> s \<Longrightarrow> s div 60 div 60 * 3600 + s div 60 mod 60 * 60 + s mod 60 = (s :: int)"
  using mult_div_mod_eq [of 60 s] mult_div_mod_eq [of 60 "s div 60"] by linarith

lemma fromUtcTime_toUtcTime:
  assumes "-2472632 * kSecondsPerDay \<le> t"
  shows "fromUtcTime (toUtcTime t yd) = t"
proof -
  let ?j = "t div kSecondsPerDay + 2440588"
  have "0 \<le> ?j + 32044" using assms by (simp add: kSecondsPerDay_def)
  then have "getJulianDayNumber (year (getYearMonthDay ?j)) (month (getYearMonthDay ?j)) (day (getYearMonthDay ?j)) = ?j"
    by (rule getJulianDayNumber_getYearMonthDay)
  moreover have "0 \<le> t mod kSecondsPerDay" by (simp add: kSecondsPerDay_def)
  ultimately show ?thesis
    using hms_sum [of "t mod kSecondsPerDay"]
    by (simp add: fromUtcTime_def fromUtcTime_ymd_def toUtcTime_fields Date_of_ymd_def Let_def)
qed

lemma toUtcTime_fromUtcTime:
  fixes yd :: bool
  assumes "gregorian y m d" "-4800 < y" "0 \<le> h" "h < 24" "0 \<le> mi" "mi < 60" "0 \<le> s" "s < 60"
  defines "u \<equiv> toUtcTime (fromUtcTime_ymd y m d h mi s) yd"
  shows "tm_year u = y - 1900" "tm_mon u = m - 1" "tm_mday u = d" "tm_hour u = h" "tm_min u = mi" "tm_sec u = s"
proof -
  let ?J = "getJulianDayNumber y m d" and ?S = "h * 3600 + mi * 60 + s"
  have S: "0 \<le> ?S" "?S < kSecondsPerDay" using assms by (simp_all add: kSecondsPerDay_def)
  have t: "fromUtcTime_ymd y m d h mi s = ?S + (?J - 2440588) * kSecondsPerDay"
    by (simp add: fromUtcTime_ymd_def Date_of_ymd_def Let_def)
  have div: "fromUtcTime_ymd y m d h mi s div kSecondsPerDay = ?J - 2440588"
    and mod: "fromUtcTime_ymd y m d h mi s mod kSecondsPerDay = ?S"
    unfolding t using S by simp_all
  have S': "?S = s + (h * 60 + mi) * 60" by simp
  have q1: "?S div 60 = h * 60 + mi" "?S mod 60 = s"
    unfolding S' div_mult_self1 [of 60, simplified] mod_mult_self1 using assms(7,8) by simp_all
  have q2: "(h * 60 + mi) div 60 = h" "(h * 60 + mi) mod 60 = mi" using assms by simp_all
  show "tm_year u = y - 1900" "tm_mon u = m - 1" "tm_mday u = d" "tm_hour u = h" "tm_min u = mi" "tm_sec u = s"
    using getYearMonthDay_getJulianDayNumber [OF assms(1,2)] assms(5,6)
    unfolding u_def by (simp_all add: toUtcTime_fields div mod q1 q2)
qed

subsection \<open>The local time in force\<close>

definition transition_key :: "bool \<Rightarrow> Transition \<Rightarrow> int" where
  "transition_key gmt t = (if gmt then gmttime t else localtime t)"

lemma Comp_key: "Comp gmt a b \<longleftrightarrow> transition_key gmt a < transition_key gmt b"
  "Comp_equal gmt a b \<longleftrightarrow> transition_key gmt a = transition_key gmt b"
  by (simp_all add: Comp_def Comp_equal_def transition_key_def)

text \<open>The last transition that is not later than the given moment; the first local time before all.\<close>

definition localtime_in_force :: "TimeZone_Data \<Rightarrow> bool \<Rightarrow> int \<Rightarrow> nat" where
  "localtime_in_force data gmt s =
     (case filter (\<lambda>t. transition_key gmt t \<le> s) (transitions data) of
        [] \<Rightarrow> 0 | ts \<Rightarrow> localtimeIdx (last ts))"

lemma filter_sorted_takeWhile:
  assumes "sorted_wrt (\<lambda>a b. (f a :: int) < f b) xs"
  shows "filter (\<lambda>x. f x \<le> s) xs = takeWhile (\<lambda>x. f x \<le> s) xs"
  using assms
proof (induction xs)
  case (Cons x xs)
  have "filter (\<lambda>x. f x \<le> s) xs = []" if "\<not> f x \<le> s"
    using Cons.prems that by (force simp: filter_empty_conv)
  then show ?case using Cons by (cases "f x \<le> s") simp_all
qed simp

lemma findLocaltime_eq:
  assumes sorted: "sorted_wrt (\<lambda>a b. transition_key gmt a < transition_key gmt b) (transitions data)"
    and s: "transition_key gmt sentry = s"
  shows "findLocaltime data sentry gmt = vector_at (localtimes data) (localtime_in_force data gmt s)"
proof -
  let ?ts = "transitions data" and ?k = "transition_key gmt"
  define n where "n = std_lower_bound (Comp gmt) ?ts sentry"
  have less: "i < n \<Longrightarrow> i < length ?ts \<Longrightarrow> ?k (?ts ! i) < s" for i
    using s unfolding n_def std_lower_bound_def Comp_key
    by (metis (no_types, lifting) nth_mem set_takeWhileD takeWhile_nth)
  have n: "n \<le> length ?ts" by (simp add: n_def std_lower_bound_def length_takeWhile_le)
  have stop: "n < length ?ts \<Longrightarrow> s \<le> ?k (?ts ! n)"
    using s nth_length_takeWhile [of "\<lambda>y. Comp gmt y sentry" ?ts]
    by (simp add: n_def std_lower_bound_def Comp_key not_less)
  have tw: "filter (\<lambda>t. ?k t \<le> s) ?ts = take m ?ts"
    if "\<And>i. i < m \<Longrightarrow> i < length ?ts \<Longrightarrow> ?k (?ts ! i) \<le> s" "m < length ?ts \<Longrightarrow> s < ?k (?ts ! m)" for m
    unfolding filter_sorted_takeWhile [OF sorted]
    by (rule takeWhile_eq_take_P_nth) (use that in \<open>auto simp: not_le\<close>)
  have last: "localtime_in_force data gmt s = localtimeIdx (?ts ! (m - 1))"
    if "filter (\<lambda>t. ?k t \<le> s) ?ts = take m ?ts" "0 < m" "m \<le> length ?ts" for m
  proof -
    have ne: "take m ?ts \<noteq> []" using that(2,3) by auto
    have "last (take m ?ts) = ?ts ! (m - 1)"
      using that(2,3) last_conv_nth [OF ne] by (simp add: min_absorb2)
    with ne show ?thesis unfolding localtime_in_force_def that(1) by (cases "take m ?ts") simp_all
  qed
  consider (before) "?ts = [] \<or> s < ?k (hd ?ts)" | (at) "?ts \<noteq> []" "?k (hd ?ts) \<le> s" "n < length ?ts" "?k (?ts ! n) = s"
    | (between) "?ts \<noteq> []" "?k (hd ?ts) \<le> s" "n < length ?ts" "s < ?k (?ts ! n)"
    | (after) "?ts \<noteq> []" "?k (hd ?ts) \<le> s" "n = length ?ts"
    using n stop by (metis linorder_le_less_linear order_le_less order_neq_le_trans)
  then show ?thesis
  proof cases
    case before
    then have "filter (\<lambda>t. ?k t \<le> s) ?ts = take 0 ?ts"
      by (intro tw) (auto simp: hd_conv_nth)
    then show ?thesis using before s by (auto simp: findLocaltime_def Comp_key localtime_in_force_def)
  next
    case at
    have "filter (\<lambda>t. ?k t \<le> s) ?ts = take (Suc n) ?ts"
      using at less sorted
      by (intro tw) (force simp: less_Suc_eq sorted_wrt_iff_nth_less)+
    then show ?thesis using at s last [of "Suc n"]
      by (simp add: findLocaltime_def Comp_key n_def [symmetric] Let_def not_less)
  next
    case between
    then have "0 < n" by (metis gr0I hd_conv_nth leD)
    have "filter (\<lambda>t. ?k t \<le> s) ?ts = take n ?ts"
      using between less by (intro tw) (force)+
    then show ?thesis using between s last [of n] \<open>0 < n\<close>
      by (simp add: findLocaltime_def Comp_key n_def [symmetric] Let_def not_less)
  next
    case after
    have "filter (\<lambda>t. ?k t \<le> s) ?ts = take n ?ts"
      using after less by (intro tw) force+
    then show ?thesis using after s last [of n]
      by (simp add: findLocaltime_def Comp_key n_def [symmetric] Let_def not_less last_conv_nth)
  qed
qed

subsection \<open>Writing a zone file\<close>

text \<open>The first data block of the TZif format.\<close>

definition tz_int32 :: "int \<Rightarrow> char list" where
  "tz_int32 i = be_bytes (of_int i :: 32 word)"

definition tz_localtime :: "Localtime \<Rightarrow> char list" where
  "tz_localtime l = tz_int32 (gmtOffset l) @ [char_of (of_bool (isDst l) :: nat), char_of (arrbIdx l)]"

definition tz_file :: "TimeZone_Data \<Rightarrow> char list" where
  "tz_file data = ''TZif'' @ ''2'' @ replicate 15 (CHR 0x00)
     @ concat (map tz_int32 [0, 0, 0, int (length (transitions data)), int (length (localtimes data)),
         int (length (tz_abbreviation data))])
     @ concat (map (\<lambda>t. tz_int32 (gmttime t)) (transitions data))
     @ map (\<lambda>t. char_of (localtimeIdx t)) (transitions data)
     @ concat (map tz_localtime (localtimes data)) @ tz_abbreviation data"

definition int32_range :: "int \<Rightarrow> bool" where
  "int32_range i \<longleftrightarrow> - (2 ^ 31) \<le> i \<and> i < 2 ^ 31"

definition tz_data_ok :: "TimeZone_Data \<Rightarrow> bool" where
  "tz_data_ok data \<longleftrightarrow>
     length (transitions data) < 2 ^ 31 \<and> length (localtimes data) < 2 ^ 31
     \<and> length (tz_abbreviation data) < 2 ^ 31
     \<and> (\<forall>t \<in> set (transitions data). int32_range (gmttime t) \<and> localtimeIdx t < 256
         \<and> localtimeIdx t < length (localtimes data)
         \<and> localtime t = gmttime t + gmtOffset (localtimes data ! localtimeIdx t))
     \<and> (\<forall>l \<in> set (localtimes data). int32_range (gmtOffset l) \<and> arrbIdx l < 256)"

lemma sint_int32: "int32_range i \<Longrightarrow> sint (word_of_int i :: 32 word) = i"
  by (simp add: int_word_sint int32_range_def)

lemma read_int32: "int32_range i \<Longrightarrow> File_readInt32 e (tz_int32 i @ s) = Inr (i, s)"
  by (simp add: File_readInt32_def tz_int32_def word_bytes sint_int32)

lemma read_uint8: "n < 256 \<Longrightarrow> File_readUInt8 (char_of n # s) = Inr (n, s)"
  by (simp add: File_readUInt8_def)

lemma read_times_map:
  assumes "\<And>x s. x \<in> set xs \<Longrightarrow> f (enc x @ s) = Inr (g x, s)"
  shows "read_times (length xs) f (concat (map enc xs) @ s) = Inr (map g xs, s)"
  using assms by (induction xs) (simp_all add: rbind_def rreturn_def)

lemma read_localtime_ok:
  "int32_range (gmtOffset l) \<and> arrbIdx l < 256 \<Longrightarrow> read_localtime e (tz_localtime l @ s) = Inr (l, s)"
  by (simp add: read_localtime_def tz_localtime_def rbind_def rreturn_def read_int32 read_uint8)

lemma read_localtimes_ok:
  assumes "\<forall>l \<in> set ls. int32_range (gmtOffset l) \<and> arrbIdx l < 256"
  shows "read_localtimes e (length ls) (concat (map tz_localtime ls) @ s) = (ls, Inr s)"
  using assms by (induction ls) (simp_all add: read_localtime_ok)

lemma make_transitions_ok:
  assumes "\<forall>t \<in> set ts. localtimeIdx t < length ls \<and> localtime t = gmttime t + gmtOffset (ls ! localtimeIdx t)"
  shows "make_transitions (map gmttime ts) (map localtimeIdx ts) ls = Some ts"
  using assms by (induction ts) (simp_all add: vector_at_def)

lemma read_tz_header_ok:
  assumes "length is = 6" "\<forall>i \<in> set is. int32_range i"
  shows "read_tz_header e (''TZif'' @ ''2'' @ replicate 15 (CHR 0x00) @ concat (map tz_int32 is) @ s) = Inr (is, s)"
  using assms read_times_map [of "is" "File_readInt32 e" tz_int32 "\<lambda>i. i" s]
  by (simp add: read_tz_header_def rbind_def File_readBytes_def read_int32 numeral_eq_Suc)

lemma readTimeZoneFile_tz_file:
  assumes "tz_data_ok data"
  shows "readTimeZoneFile e (Some (tz_file data)) = Some (True, data)"
proof -
  let ?ts = "transitions data" and ?ls = "localtimes data" and ?ab = "tz_abbreviation data"
  define cnt where "cnt = [0, 0, 0, int (length ?ts), int (length ?ls), int (length ?ab)]"
  have ok: "length ?ts < 2 ^ 31" "length ?ls < 2 ^ 31" "length ?ab < 2 ^ 31"
    "\<forall>l \<in> set ?ls. int32_range (gmtOffset l) \<and> arrbIdx l < 256"
    "\<forall>t \<in> set ?ts. int32_range (gmttime t)" "\<forall>t \<in> set ?ts. localtimeIdx t < 256"
    "\<forall>t \<in> set ?ts. localtimeIdx t < length ?ls \<and> localtime t = gmttime t + gmtOffset (?ls ! localtimeIdx t)"
    using assms by (auto simp: tz_data_ok_def)
  have cnt: "length cnt = 6" "\<forall>i \<in> set cnt. int32_range i"
    "cnt ! 3 = int (length ?ts)" "cnt ! 4 = int (length ?ls)" "cnt ! 5 = int (length ?ab)"
    using ok(1-3) by (simp_all add: cnt_def int32_range_def)
  have times: "read_times (length ?ts) (File_readInt32 e) (concat (map (\<lambda>t. tz_int32 (gmttime t)) ?ts) @ s)
      = Inr (map gmttime ?ts, s)" for s
    using ok(5) by (intro read_times_map) (simp add: read_int32)
  have idxs: "read_times (length ?ts) File_readUInt8 (map (\<lambda>t. char_of (localtimeIdx t)) ?ts @ s)
      = Inr (map localtimeIdx ?ts, s)" for s
    using ok(6) read_times_map [of ?ts File_readUInt8 "\<lambda>t. [char_of (localtimeIdx t)]" localtimeIdx s]
    by (simp add: read_uint8)
  show ?thesis
    unfolding tz_file_def cnt_def [symmetric] readTimeZoneFile_def option.case
      read_tz_header_ok [OF cnt(1,2)] sum.case prod.case cnt(3-5)
    by (simp add: rbind_def times idxs rreturn_def
        read_localtimes_ok [OF ok(4)] make_transitions_ok [OF ok(7)] File_readBytes_def Data_empty_def Let_def)
qed

subsection \<open>Properties\<close>

text \<open>
  UTC round trip.  \<open>fromUtcTime\<close> recovers every moment from its broken-down time, for moments before
  and after the epoch, and \<open>toUtcTime\<close> recovers every date of the Gregorian calendar with its time of
  day.
\<close>

lemma UTC_roundtrip:
  "(-2472632 * kSecondsPerDay \<le> t \<longrightarrow> fromUtcTime (toUtcTime t yd) = t)
   \<and> (gregorian y m d \<and> -4800 < y \<and> 0 \<le> h \<and> h < 24 \<and> 0 \<le> mi \<and> mi < 60 \<and> 0 \<le> s \<and> s < 60 \<longrightarrow>
      (let u = toUtcTime (fromUtcTime_ymd y m d h mi s) yd in
         (tm_year u + 1900, tm_mon u + 1, tm_mday u, tm_hour u, tm_min u, tm_sec u) = (y, m, d, h, mi, s)))"
  using fromUtcTime_toUtcTime [of t yd] toUtcTime_fromUtcTime [of y m d h mi s yd] by (simp add: Let_def)



text \<open>
  A fixed zone is a bijection of time: the local time of a moment converts back to the moment, for
  every offset and name.
\<close>

lemma TimeZone_fixed_roundtrip:
  assumes "-2472632 * kSecondsPerDay \<le> t + east"
  shows "\<exists>u. toLocalTime (TimeZone_fixed east name) t = Some u \<and> tm_gmtoff u = east
    \<and> fromLocalTime (TimeZone_fixed east name) u = Some t"
proof -
  have "fromUtcTime (g\<lparr>tm_isdst := a, tm_gmtoff := b, tm_zone := c\<rparr>) = fromUtcTime g" for g a b c
    by (simp add: fromUtcTime_def)
  then show ?thesis
    using fromUtcTime_toUtcTime [OF assms, of True]
    by (simp add: TimeZone_fixed_def toLocalTime_def fromLocalTime_def findLocaltime_def vector_at_def
        Data_empty_def c_string_at_def gmtime_r_def timegm_def)
qed

text \<open>
  A zone file that cannot be opened, or is not a zone file, goes unnoticed: the constructor gives
  a zone that claims to be valid, and every conversion to local time then takes the first element of
  an empty vector.
\<close>

lemma TimeZone_bad_file:
  assumes "file = None \<or> (\<exists>s. file = Some s \<and> take 4 s \<noteq> ''TZif'')"
  shows "\<exists>tz. TimeZone_of_file e file = Some tz \<and> TimeZone_valid tz \<and> toLocalTime tz t = None"
proof -
  have "readTimeZoneFile e file = Some (True, Data_empty)"
    using assms by (auto simp: readTimeZoneFile_def read_tz_header_def rbind_def File_readBytes_def)
  then show ?thesis
    by (simp add: TimeZone_of_file_def TimeZone_valid_def toLocalTime_def findLocaltime_def Data_empty_def
        vector_at_def)
qed

end
