(* ===== verification/Base_Timestamp.thy ===== *)
theory Base_Timestamp
  imports Base_TimeZone
begin

section \<open>Time stamps\<close>

text \<open>
  \<^verbatim>\<open>muduo/base/Timestamp.h\<close> and \<^verbatim>\<open>Timestamp.cc\<close>: microseconds since the epoch.  The 64-bit count
  does not overflow for the next 290000 years, so it is an unbounded integer.  The argument of
  \<^verbatim>\<open>addTime\<close> is a \<^verbatim>\<open>double\<close>, which enters only through its conversion
  \<^verbatim>\<open>static_cast<int64_t>(seconds * kMicroSecondsPerSecond)\<close>; the model takes the converted value.
\<close>

datatype Timestamp = Timestamp (microSecondsSinceEpoch: int)

text \<open>\<^verbatim>\<open>operator<\<close>, as the order of the type.\<close>

definition Timestamp_less :: "Timestamp \<Rightarrow> Timestamp \<Rightarrow> bool" where
  "Timestamp_less lhs rhs \<longleftrightarrow> microSecondsSinceEpoch lhs < microSecondsSinceEpoch rhs"

instantiation Timestamp :: linorder
begin

definition less_eq_Timestamp :: "Timestamp \<Rightarrow> Timestamp \<Rightarrow> bool" where
  "less_eq_Timestamp x y \<longleftrightarrow> microSecondsSinceEpoch x \<le> microSecondsSinceEpoch y"

definition less_Timestamp :: "Timestamp \<Rightarrow> Timestamp \<Rightarrow> bool" where
  "less_Timestamp x y \<longleftrightarrow> Timestamp_less x y"

instance
  by standard (auto simp: less_eq_Timestamp_def less_Timestamp_def Timestamp_less_def Timestamp.expand)

end

definition kMicroSecondsPerSecond :: int where
  "kMicroSecondsPerSecond = 1000 * 1000"

definition Timestamp_invalid :: Timestamp where
  "Timestamp_invalid = Timestamp 0"

definition Timestamp_valid :: "Timestamp \<Rightarrow> bool" where
  "Timestamp_valid t \<longleftrightarrow> microSecondsSinceEpoch t > 0"

definition Timestamp_swap :: "Timestamp \<times> Timestamp \<Rightarrow> Timestamp \<times> Timestamp" where
  "Timestamp_swap = (\<lambda>(this, that).
     (Timestamp (microSecondsSinceEpoch that), Timestamp (microSecondsSinceEpoch this)))"

definition secondsSinceEpoch :: "Timestamp \<Rightarrow> int" where
  "secondsSinceEpoch t = microSecondsSinceEpoch t sdiv kMicroSecondsPerSecond"

definition fromUnixTime :: "int \<Rightarrow> int \<Rightarrow> Timestamp" where
  "fromUnixTime t microseconds = Timestamp (t * kMicroSecondsPerSecond + microseconds)"

text \<open>The argument is the result of \<^verbatim>\<open>gettimeofday\<close>: seconds and microseconds.\<close>

definition Timestamp_now :: "int \<times> int \<Rightarrow> Timestamp" where
  "Timestamp_now = (\<lambda>(tv_sec, tv_usec). Timestamp (tv_sec * kMicroSecondsPerSecond + tv_usec))"

definition addTime :: "Timestamp \<Rightarrow> int \<Rightarrow> Timestamp" where
  "addTime timestamp delta = Timestamp (microSecondsSinceEpoch timestamp + delta)"

definition Timestamp_toString :: "Timestamp \<Rightarrow> string" where
  "Timestamp_toString t =
     (let seconds = microSecondsSinceEpoch t sdiv kMicroSecondsPerSecond;
          microseconds = microSecondsSinceEpoch t smod kMicroSecondsPerSecond
      in show_int seconds @ ''.'' @ fmt_d (CHR ''0'') 6 microseconds)"

definition toFormattedString :: "bool \<Rightarrow> Timestamp \<Rightarrow> string" where
  "toFormattedString showMicroseconds t =
     (let seconds = microSecondsSinceEpoch t sdiv kMicroSecondsPerSecond;
          tm_time = gmtime_r seconds;
          text = fmt_d (CHR '' '') 4 (tm_year tm_time + 1900) @ fmt_d (CHR ''0'') 2 (tm_mon tm_time + 1)
            @ fmt_d (CHR ''0'') 2 (tm_mday tm_time) @ '' '' @ fmt_d (CHR ''0'') 2 (tm_hour tm_time) @ '':''
            @ fmt_d (CHR ''0'') 2 (tm_min tm_time) @ '':'' @ fmt_d (CHR ''0'') 2 (tm_sec tm_time)
      in if showMicroseconds
         then text @ ''.'' @ fmt_d (CHR ''0'') 6 (microSecondsSinceEpoch t smod kMicroSecondsPerSecond)
         else text)"

lemma addTime_simps [simp]:
  "addTime t 0 = t" "addTime (addTime t a) b = addTime t (a + b)"
  "t < addTime t d \<longleftrightarrow> 0 < d" "t \<le> addTime t d \<longleftrightarrow> 0 \<le> d"
  by (simp_all add: addTime_def less_Timestamp_def Timestamp_less_def less_eq_Timestamp_def)

lemma addTime_mono: "t \<le> u \<Longrightarrow> addTime t d \<le> addTime u d"
  by (simp add: addTime_def less_eq_Timestamp_def)

text \<open>
  The printed form determines the time stamp: the digits before and after the point are the seconds
  and the microseconds.
\<close>

lemma length_fmt_d_pad:
  assumes "0 \<le> i" "i < 10 ^ w" "0 < w"
  shows "length (fmt_d pad w i) = w"
proof -
  have "nat i < 10 ^ w" using assms(1,2) by (simp add: nat_less_iff)
  then have "length (show_nat (nat i)) \<le> w" using length_show_nat [OF assms(3)] by blast
  then show ?thesis using assms(1) by (simp add: fmt_d_def Let_def)
qed

lemma nat_of_digits_zeros [simp]: "nat_of_digits (replicate k (CHR ''0'') @ ds) = nat_of_digits ds"
proof (induction k)
  case (Suc k)
  have "digit_val (CHR ''0'') = 0" by (simp add: digit_val_def)
  then show ?case using Suc by (simp add: nat_of_digits_def)
qed simp

lemma nat_of_digits_fmt_d: "0 \<le> i \<Longrightarrow> nat_of_digits (fmt_d (CHR ''0'') w i) = nat i"
  by (simp add: fmt_d_def Let_def)

end
