(* ===== verification/Net_Channel.thy ===== *)
theory Net_Channel
  imports Base_Timestamp
begin

unbundle bit_operations_syntax

section \<open>Channels\<close>

text \<open>
  \<^verbatim>\<open>muduo/net/Channel.h\<close> and \<^verbatim>\<open>Channel.cc\<close>: the registration of one file descriptor with an event
  loop.  Channels are objects that the pollers, the loop and their owners share, so they live in a
  heap from object identities to records.

  An operation that changes the interest of a channel calls the poller of the loop; the poller's
  \<^verbatim>\<open>updateChannel\<close> and \<^verbatim>\<open>removeChannel\<close> are arguments here and are provided by the two pollers.  The
  user callbacks are an argument too: a function on the whole state, called with the kind of event.
\<close>

type_synonym events = "32 word"
type_synonym cid = nat

text \<open>The bits of \<^verbatim>\<open><poll.h>\<close> on Linux.\<close>

definition POLLIN :: events where "POLLIN = 0x001"
definition POLLPRI :: events where "POLLPRI = 0x002"
definition POLLOUT :: events where "POLLOUT = 0x004"
definition POLLERR :: events where "POLLERR = 0x008"
definition POLLHUP :: events where "POLLHUP = 0x010"
definition POLLNVAL :: events where "POLLNVAL = 0x020"
definition POLLRDHUP :: events where "POLLRDHUP = 0x2000"

lemmas poll_bits = POLLIN_def POLLPRI_def POLLOUT_def POLLERR_def POLLHUP_def POLLNVAL_def
  POLLRDHUP_def

definition kNoneEvent :: events where
  "kNoneEvent = 0"

definition kReadEvent :: events where
  "kReadEvent = POLLIN OR POLLPRI"

definition kWriteEvent :: events where
  "kWriteEvent = POLLOUT"

record Channel =
  ch_fd :: int
  events :: events
  revents :: events
  ch_index :: int
  logHup :: bool
  tied :: bool
  eventHandling :: bool
  addedToLoop :: bool
  readCallback :: bool
  writeCallback :: bool
  closeCallback :: bool
  errorCallback :: bool

type_synonym channels = "cid \<Rightarrow> Channel"

definition Channel_new :: "int \<Rightarrow> Channel" where
  "Channel_new fd =
     \<lparr>ch_fd = fd, events = 0, revents = 0, ch_index = -1, logHup = True, tied = False,
      eventHandling = False, addedToLoop = False,
      readCallback = False, writeCallback = False, closeCallback = False, errorCallback = False\<rparr>"

text \<open>The destructor, in the thread of the loop; \<open>hasChannel\<close> is the answer of the poller.\<close>

definition Channel_dtor :: "(cid \<Rightarrow> bool) \<Rightarrow> cid \<Rightarrow> channels \<Rightarrow> unit option" where
  "Channel_dtor hasChannel c h = do {
     cassert (\<not> eventHandling (h c));
     cassert (\<not> addedToLoop (h c));
     cassert (\<not> hasChannel c)
   }"

definition isNoneEvent :: "Channel \<Rightarrow> bool" where
  "isNoneEvent ch \<longleftrightarrow> events ch = kNoneEvent"

definition isWriting :: "Channel \<Rightarrow> bool" where
  "isWriting ch \<longleftrightarrow> events ch AND kWriteEvent \<noteq> 0"

definition isReading :: "Channel \<Rightarrow> bool" where
  "isReading ch \<longleftrightarrow> events ch AND kReadEvent \<noteq> 0"

definition tie :: "Channel \<Rightarrow> Channel" where
  "tie ch = ch\<lparr>tied := True\<rparr>"

definition doNotLogHup :: "Channel \<Rightarrow> Channel" where
  "doNotLogHup ch = ch\<lparr>logHup := False\<rparr>"

type_synonym 'p poller_fun = "cid \<Rightarrow> channels \<times> 'p \<Rightarrow> (channels \<times> 'p) option"

definition Channel_update :: "'p poller_fun \<Rightarrow> 'p poller_fun" where
  "Channel_update updateChannel c = (\<lambda>(h, p). updateChannel c (h(c := (h c)\<lparr>addedToLoop := True\<rparr>), p))"

definition Channel_remove :: "'p poller_fun \<Rightarrow> 'p poller_fun" where
  "Channel_remove removeChannel c = (\<lambda>(h, p). do {
     cassert (isNoneEvent (h c));
     removeChannel c (h(c := (h c)\<lparr>addedToLoop := False\<rparr>), p)
   })"

definition enableReading :: "'p poller_fun \<Rightarrow> 'p poller_fun" where
  "enableReading upd c = (\<lambda>(h, p).
     Channel_update upd c (h(c := (h c)\<lparr>events := events (h c) OR kReadEvent\<rparr>), p))"

definition disableReading :: "'p poller_fun \<Rightarrow> 'p poller_fun" where
  "disableReading upd c = (\<lambda>(h, p).
     Channel_update upd c (h(c := (h c)\<lparr>events := events (h c) AND NOT kReadEvent\<rparr>), p))"

definition enableWriting :: "'p poller_fun \<Rightarrow> 'p poller_fun" where
  "enableWriting upd c = (\<lambda>(h, p).
     Channel_update upd c (h(c := (h c)\<lparr>events := events (h c) OR kWriteEvent\<rparr>), p))"

definition disableWriting :: "'p poller_fun \<Rightarrow> 'p poller_fun" where
  "disableWriting upd c = (\<lambda>(h, p).
     Channel_update upd c (h(c := (h c)\<lparr>events := events (h c) AND NOT kWriteEvent\<rparr>), p))"

definition disableAll :: "'p poller_fun \<Rightarrow> 'p poller_fun" where
  "disableAll upd c = (\<lambda>(h, p). Channel_update upd c (h(c := (h c)\<lparr>events := kNoneEvent\<rparr>), p))"

subsection \<open>Dispatching events\<close>

datatype channel_event = CloseEvent | ErrorEvent | ReadEvent Timestamp | WriteEvent

text \<open>
  The callbacks act on the heap and on the rest \<open>'s\<close> of the state.  The conditions are evaluated on
  the heap that the previous callback left behind.
\<close>

type_synonym 's callbacks = "channel_event \<Rightarrow> cid \<Rightarrow> channels \<times> 's \<Rightarrow> (channels \<times> 's) option"

definition handleEventWithGuard ::
  "'s callbacks \<Rightarrow> Timestamp \<Rightarrow> cid \<Rightarrow> channels \<times> 's \<Rightarrow> (channels \<times> 's) option" where
  "handleEventWithGuard run receiveTime c = (\<lambda>(h0, s0). do {
     let h0 = h0(c := (h0 c)\<lparr>eventHandling := True\<rparr>);
     (h1, s1) \<leftarrow> (if revents (h0 c) AND POLLHUP \<noteq> 0 \<and> \<not> revents (h0 c) AND POLLIN \<noteq> 0 \<and> closeCallback (h0 c)
                 then run CloseEvent c (h0, s0) else Some (h0, s0));
     (h2, s2) \<leftarrow> (if revents (h1 c) AND (POLLERR OR POLLNVAL) \<noteq> 0 \<and> errorCallback (h1 c)
                 then run ErrorEvent c (h1, s1) else Some (h1, s1));
     (h3, s3) \<leftarrow> (if revents (h2 c) AND (POLLIN OR POLLPRI OR POLLRDHUP) \<noteq> 0 \<and> readCallback (h2 c)
                 then run (ReadEvent receiveTime) c (h2, s2) else Some (h2, s2));
     (h4, s4) \<leftarrow> (if revents (h3 c) AND POLLOUT \<noteq> 0 \<and> writeCallback (h3 c)
                 then run WriteEvent c (h3, s3) else Some (h3, s3));
     Some (h4(c := (h4 c)\<lparr>eventHandling := False\<rparr>), s4)
   })"

text \<open>\<open>alive\<close> tells whether \<^verbatim>\<open>tie_.lock()\<close> gives a non-null pointer.\<close>

definition handleEvent ::
  "'s callbacks \<Rightarrow> bool \<Rightarrow> Timestamp \<Rightarrow> cid \<Rightarrow> channels \<times> 's \<Rightarrow> (channels \<times> 's) option" where
  "handleEvent run alive receiveTime c st =
     (if tied (fst st c)
      then (if alive then handleEventWithGuard run receiveTime c st else Some st)
      else handleEventWithGuard run receiveTime c st)"

definition eventsToString :: "int \<Rightarrow> events \<Rightarrow> string" where
  "eventsToString fd ev = show_int fd @ '': ''
     @ (if ev AND POLLIN \<noteq> 0 then ''IN '' else [])
     @ (if ev AND POLLPRI \<noteq> 0 then ''PRI '' else [])
     @ (if ev AND POLLOUT \<noteq> 0 then ''OUT '' else [])
     @ (if ev AND POLLHUP \<noteq> 0 then ''HUP '' else [])
     @ (if ev AND POLLRDHUP \<noteq> 0 then ''RDHUP '' else [])
     @ (if ev AND POLLERR \<noteq> 0 then ''ERR '' else [])
     @ (if ev AND POLLNVAL \<noteq> 0 then ''NVAL '' else [])"

subsection \<open>Changing the interest\<close>

text \<open>The five operations set the events and call the poller.\<close>

definition set_events :: "'p poller_fun \<Rightarrow> cid \<Rightarrow> events \<Rightarrow> channels \<times> 'p \<Rightarrow> (channels \<times> 'p) option" where
  "set_events upd c ev = (\<lambda>(h, p). upd c (h(c := (h c)\<lparr>events := ev, addedToLoop := True\<rparr>), p))"

lemma channel_ops_set_events:
  "enableReading upd c st = set_events upd c (events (fst st c) OR kReadEvent) st"
  "disableReading upd c st = set_events upd c (events (fst st c) AND NOT kReadEvent) st"
  "enableWriting upd c st = set_events upd c (events (fst st c) OR kWriteEvent) st"
  "disableWriting upd c st = set_events upd c (events (fst st c) AND NOT kWriteEvent) st"
  "disableAll upd c st = set_events upd c kNoneEvent st"
  by (simp_all add: enableReading_def disableReading_def enableWriting_def disableWriting_def
      disableAll_def Channel_update_def set_events_def split: prod.splits)

text \<open>The masks that occur: nothing, reading, writing, both.\<close>

definition event_mask :: "events \<Rightarrow> bool" where
  "event_mask ev \<longleftrightarrow> ev \<in> {0, 3, 4, 7}"

lemma event_consts: "kNoneEvent = 0" "kReadEvent = 3" "kWriteEvent = 4"
  by (simp_all add: kNoneEvent_def kReadEvent_def kWriteEvent_def poll_bits)

lemma event_mask_ops:
  "event_mask 0"
  "event_mask ev \<Longrightarrow> event_mask (ev OR kReadEvent)"
  "event_mask ev \<Longrightarrow> event_mask (ev AND NOT kReadEvent)"
  "event_mask ev \<Longrightarrow> event_mask (ev OR kWriteEvent)"
  "event_mask ev \<Longrightarrow> event_mask (ev AND NOT kWriteEvent)"
  by (auto simp: event_mask_def event_consts)

lemma enable_not_0:
  "ev OR kReadEvent \<noteq> 0" "ev OR kWriteEvent \<noteq> 0"
  by (simp_all add: event_consts or_eq_0_iff)

text \<open>A mask as the two flags it stands for.\<close>

lemma isWriting_mask:
  "event_mask (events ch) \<Longrightarrow> isWriting ch \<longleftrightarrow> events ch \<in> {4, 7}"
  "event_mask (events ch) \<Longrightarrow> isReading ch \<longleftrightarrow> events ch \<in> {3, 7}"
  by (auto simp: isWriting_def isReading_def event_mask_def event_consts)

end
