(* ===== verification/Net_Poller.thy ===== *)
theory Net_Poller
  imports Net_Channel
begin

unbundle bit_operations_syntax

section \<open>Pollers\<close>

text \<open>
  \<^verbatim>\<open>muduo/net/Poller.h\<close>, \<^verbatim>\<open>poller/EPollPoller.cc\<close> and \<^verbatim>\<open>poller/PollPoller.cc\<close>: the two backends of
  the event loop.  Both keep a map from file descriptors to channels; the epoll backend mirrors the
  interest in the kernel, the poll backend in an array of \<^verbatim>\<open>pollfd\<close>.

  The interface that the channels rely on is the locale \<open>poller\<close>; it is interpreted on both backends.
  The kernel's \<^verbatim>\<open>epoll_ctl\<close> is a parameter, with its documented behaviour as the locale
  \<open>epoll_kernel\<close>.  The result of \<^verbatim>\<open>epoll_wait\<close> and \<^verbatim>\<open>poll\<close> is an argument.
\<close>

type_synonym channel_map = "(int, cid) smap"

definition Poller_hasChannel :: "channel_map \<Rightarrow> cid \<Rightarrow> channels \<Rightarrow> bool" where
  "Poller_hasChannel m c h \<longleftrightarrow> map_of m (ch_fd (h c)) = Some c"

subsection \<open>The epoll backend\<close>

definition kNew :: int where "kNew = -1"
definition kAdded :: int where "kAdded = 1"
definition kDeleted :: int where "kDeleted = 2"

lemmas ep_index = kNew_def kAdded_def kDeleted_def

definition kInitEventListSize :: nat where
  "kInitEventListSize = 16"

datatype epoll_op = EPOLL_CTL_ADD | EPOLL_CTL_DEL | EPOLL_CTL_MOD

text \<open>
  \<^verbatim>\<open>struct epoll_event\<close> is a pair of events and channel.  \<^verbatim>\<open>epoll_ctl\<close> acts on the state \<open>'k\<close> of the
  kernel; \<open>None\<close> is a negative result, which leaves the kernel unchanged.
\<close>

type_synonym epoll_event = "events \<times> cid"
type_synonym 'k epoll_ctl = "epoll_op \<Rightarrow> int \<Rightarrow> epoll_event \<Rightarrow> 'k \<Rightarrow> 'k option"

record 'k EPollPoller =
  ep_channels :: channel_map
  ep_kernel :: 'k
  ep_events_size :: nat

definition EPollPoller_new :: "'k \<Rightarrow> 'k EPollPoller" where
  "EPollPoller_new k = \<lparr>ep_channels = [], ep_kernel = k, ep_events_size = kInitEventListSize\<rparr>"

definition EPollPoller_update ::
  "'k epoll_ctl \<Rightarrow> epoll_op \<Rightarrow> 'k EPollPoller poller_fun" where
  "EPollPoller_update ctl operation c = (\<lambda>(h, p).
     (let event = (events (h c), c); fd = ch_fd (h c)
      in case ctl operation fd event (ep_kernel p) of
           Some k \<Rightarrow> Some (h, p\<lparr>ep_kernel := k\<rparr>)
         | None \<Rightarrow> (if operation = EPOLL_CTL_DEL then Some (h, p) else None)))"

definition EPollPoller_updateChannel :: "'k epoll_ctl \<Rightarrow> 'k EPollPoller poller_fun" where
  "EPollPoller_updateChannel ctl c = (\<lambda>(h, p).
     (let index = ch_index (h c); fd = ch_fd (h c)
      in if index = kNew \<or> index = kDeleted
         then do {
           p \<leftarrow> (if index = kNew
                 then do {
                   cassert (map_of (ep_channels p) fd = None);
                   Some (p\<lparr>ep_channels := smap_put fd c (ep_channels p)\<rparr>)
                 }
                 else do {
                   cassert (map_of (ep_channels p) fd \<noteq> None);
                   cassert (map_of (ep_channels p) fd = Some c);
                   Some p
                 });
           EPollPoller_update ctl EPOLL_CTL_ADD c (h(c := (h c)\<lparr>ch_index := kAdded\<rparr>), p)
         }
         else do {
           cassert (map_of (ep_channels p) fd \<noteq> None);
           cassert (map_of (ep_channels p) fd = Some c);
           cassert (index = kAdded);
           if isNoneEvent (h c)
           then do {
             (h, p) \<leftarrow> EPollPoller_update ctl EPOLL_CTL_DEL c (h, p);
             Some (h(c := (h c)\<lparr>ch_index := kDeleted\<rparr>), p)
           }
           else EPollPoller_update ctl EPOLL_CTL_MOD c (h, p)
         }))"

definition EPollPoller_removeChannel :: "'k epoll_ctl \<Rightarrow> 'k EPollPoller poller_fun" where
  "EPollPoller_removeChannel ctl c = (\<lambda>(h, p).
     (let fd = ch_fd (h c); index = ch_index (h c)
      in do {
        cassert (map_of (ep_channels p) fd \<noteq> None);
        cassert (map_of (ep_channels p) fd = Some c);
        cassert (isNoneEvent (h c));
        cassert (index = kAdded \<or> index = kDeleted);
        let p = p\<lparr>ep_channels := smap_erase fd (ep_channels p)\<rparr>;
        (h, p) \<leftarrow> (if index = kAdded then EPollPoller_update ctl EPOLL_CTL_DEL c (h, p) else Some (h, p));
        Some (h(c := (h c)\<lparr>ch_index := kNew\<rparr>), p)
      }))"

text \<open>The active channels are appended to the argument.\<close>

fun EPollPoller_fill :: "channel_map \<Rightarrow> epoll_event list \<Rightarrow> channels \<times> cid list \<Rightarrow> (channels \<times> cid list) option" where
  "EPollPoller_fill m [] st = Some st"
| "EPollPoller_fill m ((ev, c) # evs) (h, active) = do {
     cassert (map_of m (ch_fd (h c)) \<noteq> None);
     cassert (map_of m (ch_fd (h c)) = Some c);
     EPollPoller_fill m evs (h(c := (h c)\<lparr>revents := ev\<rparr>), active @ [c])
   }"

definition EPollPoller_fillActiveChannels ::
  "epoll_event list \<Rightarrow> 'k EPollPoller \<Rightarrow> channels \<times> cid list \<Rightarrow> (channels \<times> cid list) option" where
  "EPollPoller_fillActiveChannels evs p st = do {
     cassert (length evs \<le> ep_events_size p);
     EPollPoller_fill (ep_channels p) evs st
   }"

text \<open>
  \<open>wait\<close> is the result of \<^verbatim>\<open>epoll_wait\<close>: the error number, or the events that happened.  An error is
  logged and otherwise ignored.
\<close>

definition EPollPoller_poll ::
  "int + epoll_event list \<Rightarrow> channels \<times> cid list \<times> 'k EPollPoller \<Rightarrow> (channels \<times> cid list \<times> 'k EPollPoller) option" where
  "EPollPoller_poll wait = (\<lambda>(h, active, p).
     (case wait of
        Inl savedErrno \<Rightarrow> Some (h, active, p)
      | Inr evs \<Rightarrow>
          (if length evs > 0
           then do {
             (h, active) \<leftarrow> EPollPoller_fillActiveChannels evs p (h, active);
             Some (h, active, if length evs = ep_events_size p
                              then p\<lparr>ep_events_size := ep_events_size p * 2\<rparr> else p)
           }
           else Some (h, active, p))))"

definition operationToString :: "epoll_op \<Rightarrow> string" where
  "operationToString op =
     (case op of EPOLL_CTL_ADD \<Rightarrow> ''ADD'' | EPOLL_CTL_DEL \<Rightarrow> ''DEL'' | EPOLL_CTL_MOD \<Rightarrow> ''MOD'')"

subsection \<open>The poll backend\<close>

record pollfd =
  pfd_fd :: int
  pfd_events :: "16 word"
  pfd_revents :: "16 word"

record PollPoller =
  pp_channels :: channel_map
  pp_pollfds :: "pollfd list"

definition PollPoller_new :: PollPoller where
  "PollPoller_new = \<lparr>pp_channels = [], pp_pollfds = []\<rparr>"

definition PollPoller_updateChannel :: "PollPoller poller_fun" where
  "PollPoller_updateChannel c = (\<lambda>(h, p).
     (let fd = ch_fd (h c)
      in if ch_index (h c) < 0
         then do {
           cassert (map_of (pp_channels p) fd = None);
           let pfd = \<lparr>pfd_fd = fd, pfd_events = ucast (events (h c)), pfd_revents = 0\<rparr>;
           let fds = pp_pollfds p @ [pfd];
           let idx = int (length fds) - 1;
           Some (h(c := (h c)\<lparr>ch_index := idx\<rparr>),
                 \<lparr>pp_channels = smap_put fd c (pp_channels p), pp_pollfds = fds\<rparr>)
         }
         else do {
           cassert (map_of (pp_channels p) fd \<noteq> None);
           cassert (map_of (pp_channels p) fd = Some c);
           let idx = ch_index (h c);
           cassert (0 \<le> idx \<and> idx < int (length (pp_pollfds p)));
           let pfd = pp_pollfds p ! nat idx;
           cassert (pfd_fd pfd = fd \<or> pfd_fd pfd = - fd - 1);
           let pfd = \<lparr>pfd_fd = fd, pfd_events = ucast (events (h c)), pfd_revents = 0\<rparr>;
           let pfd = (if isNoneEvent (h c) then pfd\<lparr>pfd_fd := - fd - 1\<rparr> else pfd);
           Some (h, p\<lparr>pp_pollfds := (pp_pollfds p)[nat idx := pfd]\<rparr>)
         }))"

text \<open>
  The comparison of the \<^verbatim>\<open>short\<close> events with the \<^verbatim>\<open>int\<close> events of the channel extends the sign.
\<close>

definition PollPoller_removeChannel :: "PollPoller poller_fun" where
  "PollPoller_removeChannel c = (\<lambda>(h, p).
     (let fd = ch_fd (h c); idx = ch_index (h c); fds = pp_pollfds p
      in do {
        cassert (map_of (pp_channels p) fd \<noteq> None);
        cassert (map_of (pp_channels p) fd = Some c);
        cassert (isNoneEvent (h c));
        cassert (0 \<le> idx \<and> idx < int (length fds));
        let pfd = fds ! nat idx;
        cassert (pfd_fd pfd = - fd - 1 \<and> scast (pfd_events pfd) = events (h c));
        let m = smap_erase fd (pp_channels p);
        if nat idx = length fds - 1
        then Some (h, \<lparr>pp_channels = m, pp_pollfds = butlast fds\<rparr>)
        else do {
          let channelAtEnd = pfd_fd (last fds);
          let fds = fds[nat idx := last fds, length fds - 1 := fds ! nat idx];
          let channelAtEnd = (if channelAtEnd < 0 then - channelAtEnd - 1 else channelAtEnd);
          d \<leftarrow> map_of m channelAtEnd;
          Some (h(d := (h d)\<lparr>ch_index := idx\<rparr>), \<lparr>pp_channels = m, pp_pollfds = butlast fds\<rparr>)
        }
      }))"

text \<open>\<open>fds\<close> is the array as the kernel left it, with the received events.\<close>

fun PollPoller_fillActiveChannels ::
  "channel_map \<Rightarrow> pollfd list \<Rightarrow> nat \<Rightarrow> channels \<times> cid list \<Rightarrow> (channels \<times> cid list) option" where
  "PollPoller_fillActiveChannels m [] numEvents st = Some st"
| "PollPoller_fillActiveChannels m (pfd # fds) numEvents (h, active) =
     (if numEvents > 0
      then (if sint (pfd_revents pfd) > 0
            then do {
              c \<leftarrow> map_of m (pfd_fd pfd);
              cassert (ch_fd (h c) = pfd_fd pfd);
              PollPoller_fillActiveChannels m fds (numEvents - 1)
                (h(c := (h c)\<lparr>revents := scast (pfd_revents pfd)\<rparr>), active @ [c])
            }
            else PollPoller_fillActiveChannels m fds numEvents (h, active))
      else Some (h, active))"

text \<open>
  \<open>wait\<close> is the result of \<^verbatim>\<open>poll\<close>: the error number, or the received events of the entries of
  \<^verbatim>\<open>pollfds_\<close> and their number.
\<close>

definition PollPoller_poll ::
  "int + 16 word list \<times> nat \<Rightarrow> channels \<times> cid list \<times> PollPoller \<Rightarrow> (channels \<times> cid list \<times> PollPoller) option" where
  "PollPoller_poll wait = (\<lambda>(h, active, p).
     (case wait of
        Inl savedErrno \<Rightarrow> Some (h, active, p)
      | Inr (revs, numEvents) \<Rightarrow>
          (let p = p\<lparr>pp_pollfds := map2 (\<lambda>pfd r. pfd\<lparr>pfd_revents := r\<rparr>) (pp_pollfds p) revs\<rparr>
           in if numEvents > 0
              then do {
                (h, active) \<leftarrow> PollPoller_fillActiveChannels (pp_channels p) (pp_pollfds p) numEvents (h, active);
                Some (h, active, p)
              }
              else Some (h, active, p))))"

subsection \<open>The interface\<close>

text \<open>
  What channels and the event loop rely on.  \<open>registered\<close> is the map of channels, \<open>watched\<close> the events
  that the kernel is asked for.  A channel is registered by its first operation that enables
  something; then its events may change at will, and it may be removed while it has none.  The
  operations change no field of any channel but the poller's own index.
\<close>

definition same_but_index :: "channels \<Rightarrow> channels \<Rightarrow> bool" where
  "same_but_index h h' \<longleftrightarrow> (\<forall>d. (h' d)\<lparr>ch_index := 0\<rparr> = (h d)\<lparr>ch_index := 0\<rparr>)"

lemma same_but_index_fields:
  assumes "same_but_index h h'"
  shows "ch_fd (h' d) = ch_fd (h d)" "events (h' d) = events (h d)" "addedToLoop (h' d) = addedToLoop (h d)"
    "revents (h' d) = revents (h d)"
proof -
  have "(h' d)\<lparr>ch_index := 0\<rparr> = (h d)\<lparr>ch_index := 0\<rparr>" using assms by (simp add: same_but_index_def)
  then show "ch_fd (h' d) = ch_fd (h d)" "events (h' d) = events (h d)" "addedToLoop (h' d) = addedToLoop (h d)"
    "revents (h' d) = revents (h d)"
    by (cases "h' d"; cases "h d"; simp)+
qed

lemma same_but_index_refl [simp]: "same_but_index h h"
  by (simp add: same_but_index_def)

lemma same_but_index_upd [simp]: "same_but_index h (h(c := (h c)\<lparr>ch_index := i\<rparr>))"
  by (simp add: same_but_index_def)

locale poller =
  fixes inv :: "channels \<Rightarrow> 'p \<Rightarrow> bool"
    and registered :: "'p \<Rightarrow> int \<Rightarrow> cid option"
    and watched :: "'p \<Rightarrow> int \<Rightarrow> events"
    and upd :: "'p poller_fun"
    and rem :: "'p poller_fun"
  assumes registered_fd: "inv h p \<Longrightarrow> registered p fd = Some c \<Longrightarrow> ch_fd (h c) = fd"
    and watched_law: "inv h p \<Longrightarrow>
      watched p fd = (case registered p fd of Some c \<Rightarrow> events (h c) | None \<Rightarrow> 0)"
    and upd_law: "inv h p \<Longrightarrow> event_mask ev \<Longrightarrow> 0 \<le> ch_fd (h c) \<Longrightarrow>
      registered p (ch_fd (h c)) = Some c
        \<or> (registered p (ch_fd (h c)) = None \<and> ch_index (h c) = -1 \<and> ev \<noteq> 0) \<Longrightarrow>
      \<exists>h' p'. set_events upd c ev (h, p) = Some (h', p') \<and> inv h' p'
        \<and> registered p' = (registered p)(ch_fd (h c) \<mapsto> c)
        \<and> same_but_index (h(c := (h c)\<lparr>events := ev, addedToLoop := True\<rparr>)) h'
        \<and> (\<forall>d. registered p' (ch_fd (h d)) \<noteq> Some d \<longrightarrow> ch_index (h' d) = ch_index (h d))"
    and rem_law: "inv h p \<Longrightarrow> registered p (ch_fd (h c)) = Some c \<Longrightarrow> events (h c) = 0 \<Longrightarrow>
      \<exists>h' p'. Channel_remove rem c (h, p) = Some (h', p') \<and> inv h' p'
        \<and> registered p' = (registered p)(ch_fd (h c) := None)
        \<and> same_but_index (h(c := (h c)\<lparr>addedToLoop := False\<rparr>)) h'
        \<and> (\<forall>d. d \<noteq> c \<and> registered p' (ch_fd (h d)) \<noteq> Some d \<longrightarrow> ch_index (h' d) = ch_index (h d))"
begin

lemma upd_watched:
  assumes "inv h p" "event_mask ev" "0 \<le> ch_fd (h c)" "registered p (ch_fd (h c)) = Some c"
  shows "\<exists>h' p'. set_events upd c ev (h, p) = Some (h', p') \<and> inv h' p' \<and> watched p' (ch_fd (h c)) = ev"
proof -
  obtain h' p' where *: "set_events upd c ev (h, p) = Some (h', p')" "inv h' p'"
    "registered p' = (registered p)(ch_fd (h c) \<mapsto> c)"
    "same_but_index (h(c := (h c)\<lparr>events := ev, addedToLoop := True\<rparr>)) h'"
    using upd_law [OF assms(1-3)] assms(4) by blast
  then have "watched p' (ch_fd (h c)) = ev"
    using watched_law [OF *(2), of "ch_fd (h c)"] same_but_index_fields(2) [OF *(4), of c] by simp
  with * show ?thesis by blast
qed

end

subsection \<open>The epoll backend is a poller\<close>

text \<open>
  The documented behaviour of \<^verbatim>\<open>epoll_ctl\<close>: adding a descriptor that is not in the interest list,
  modifying or deleting one that is, succeeds and changes the entry of that descriptor only.
\<close>

locale epoll_kernel =
  fixes ctl :: "'k epoll_ctl"
    and interest :: "'k \<Rightarrow> int \<Rightarrow> epoll_event option"
  assumes ctl_add: "interest k fd = None \<Longrightarrow>
      \<exists>k'. ctl EPOLL_CTL_ADD fd ev k = Some k' \<and> interest k' = (interest k)(fd \<mapsto> ev)"
    and ctl_mod: "interest k fd \<noteq> None \<Longrightarrow>
      \<exists>k'. ctl EPOLL_CTL_MOD fd ev k = Some k' \<and> interest k' = (interest k)(fd \<mapsto> ev)"
    and ctl_del: "interest k fd \<noteq> None \<Longrightarrow>
      \<exists>k'. ctl EPOLL_CTL_DEL fd ev k = Some k' \<and> interest k' = (interest k)(fd := None)"

definition ep_channel_ok :: "(int \<Rightarrow> epoll_event option) \<Rightarrow> channels \<Rightarrow> int \<Rightarrow> cid \<Rightarrow> bool" where
  "ep_channel_ok watch h fd c \<longleftrightarrow> ch_fd (h c) = fd
     \<and> (ch_index (h c) = kAdded \<and> watch fd = Some (events (h c), c)
        \<or> ch_index (h c) = kDeleted \<and> watch fd = None \<and> events (h c) = 0)"

definition ep_inv :: "('k \<Rightarrow> int \<Rightarrow> epoll_event option) \<Rightarrow> channels \<Rightarrow> 'k EPollPoller \<Rightarrow> bool" where
  "ep_inv interest h p \<longleftrightarrow>
     (\<forall>fd. case map_of (ep_channels p) fd of
        Some c \<Rightarrow> ep_channel_ok (interest (ep_kernel p)) h fd c
      | None \<Rightarrow> interest (ep_kernel p) fd = None)"

definition ep_watched :: "('k \<Rightarrow> int \<Rightarrow> epoll_event option) \<Rightarrow> 'k EPollPoller \<Rightarrow> int \<Rightarrow> events" where
  "ep_watched interest p fd = (case interest (ep_kernel p) fd of Some (ev, _) \<Rightarrow> ev | None \<Rightarrow> 0)"

abbreviation ep_registered :: "'k EPollPoller \<Rightarrow> int \<Rightarrow> cid option" where
  "ep_registered p \<equiv> map_of (ep_channels p)"

lemma ep_inv_Some: "ep_inv interest h p \<Longrightarrow> ep_registered p fd = Some c \<Longrightarrow>
    ep_channel_ok (interest (ep_kernel p)) h fd c"
  by (auto simp: ep_inv_def dest!: spec [where x = fd])

lemma ep_inv_None: "ep_inv interest h p \<Longrightarrow> ep_registered p fd = None \<Longrightarrow> interest (ep_kernel p) fd = None"
  by (auto simp: ep_inv_def dest!: spec [where x = fd])

text \<open>Only the entry of the descriptor that an operation touches has to be checked again.\<close>

lemma ep_inv_frame:
  assumes inv: "ep_inv interest h p"
    and fd: "ch_fd (h c) = fd"
    and h': "\<And>d. d \<noteq> c \<Longrightarrow> h' d = h d"
    and m: "ep_registered p' = (ep_registered p)(fd := r)"
    and k: "interest (ep_kernel p') = (interest (ep_kernel p))(fd := w)"
    and here: "case r of Some c' \<Rightarrow> ep_channel_ok (interest (ep_kernel p')) h' fd c' | None \<Rightarrow> w = None"
  shows "ep_inv interest h' p'"
  unfolding ep_inv_def
proof
  fix g
  show "case ep_registered p' g of Some c \<Rightarrow> ep_channel_ok (interest (ep_kernel p')) h' g c
    | None \<Rightarrow> interest (ep_kernel p') g = None"
  proof (cases "g = fd")
    case True
    then show ?thesis using here m k by (cases r) simp_all
  next
    case False
    show ?thesis
    proof (cases "ep_registered p g")
      case None
      then show ?thesis using False m k ep_inv_None [OF inv None] by simp
    next
      case (Some d)
      have "ep_channel_ok (interest (ep_kernel p)) h g d" by (rule ep_inv_Some [OF inv Some])
      moreover from this have "d \<noteq> c" using fd False by (auto simp: ep_channel_ok_def)
      ultimately show ?thesis using Some False m k h' by (simp add: ep_channel_ok_def)
    qed
  qed
qed

context epoll_kernel
begin

lemma ep_update_add:
  assumes "interest (ep_kernel p) (ch_fd (h c)) = None"
  shows "\<exists>k. EPollPoller_update ctl EPOLL_CTL_ADD c (h, p) = Some (h, p\<lparr>ep_kernel := k\<rparr>)
    \<and> interest k = (interest (ep_kernel p))(ch_fd (h c) \<mapsto> (events (h c), c))"
  using ctl_add [OF assms, of "(events (h c), c)"] by (auto simp: EPollPoller_update_def Let_def)

lemma ep_update_mod:
  assumes "interest (ep_kernel p) (ch_fd (h c)) \<noteq> None"
  shows "\<exists>k. EPollPoller_update ctl EPOLL_CTL_MOD c (h, p) = Some (h, p\<lparr>ep_kernel := k\<rparr>)
    \<and> interest k = (interest (ep_kernel p))(ch_fd (h c) \<mapsto> (events (h c), c))"
  using ctl_mod [OF assms, of "(events (h c), c)"] by (auto simp: EPollPoller_update_def Let_def)

lemma ep_update_del:
  assumes "interest (ep_kernel p) (ch_fd (h c)) \<noteq> None"
  shows "\<exists>k. EPollPoller_update ctl EPOLL_CTL_DEL c (h, p) = Some (h, p\<lparr>ep_kernel := k\<rparr>)
    \<and> interest k = (interest (ep_kernel p))(ch_fd (h c) := None)"
  using ctl_del [OF assms, of "(events (h c), c)"] by (auto simp: EPollPoller_update_def Let_def)

lemma ep_upd_new:
  assumes inv: "ep_inv interest h p" and reg: "ep_registered p (ch_fd (h c)) = None" "ch_index (h c) = -1"
  shows "\<exists>h' p'. set_events (EPollPoller_updateChannel ctl) c ev (h, p) = Some (h', p') \<and> ep_inv interest h' p'
    \<and> ep_registered p' = (ep_registered p)(ch_fd (h c) \<mapsto> c)
    \<and> same_but_index (h(c := (h c)\<lparr>events := ev, addedToLoop := True\<rparr>)) h'
    \<and> (\<forall>d. d \<noteq> c \<longrightarrow> h' d = h d)"
proof -
  let ?fd = "ch_fd (h c)"
  let ?h = "h(c := (h c)\<lparr>events := ev, addedToLoop := True, ch_index := kAdded\<rparr>)"
  let ?p = "p\<lparr>ep_channels := smap_put ?fd c (ep_channels p)\<rparr>"
  have "interest (ep_kernel ?p) (ch_fd (?h c)) = None" using ep_inv_None [OF inv reg(1)] by simp
  then obtain k where k: "EPollPoller_update ctl EPOLL_CTL_ADD c (?h, ?p) = Some (?h, ?p\<lparr>ep_kernel := k\<rparr>)"
    "interest k = (interest (ep_kernel p))(?fd \<mapsto> (ev, c))"
    using ep_update_add [of ?p ?h c] by auto
  then have "set_events (EPollPoller_updateChannel ctl) c ev (h, p) = Some (?h, ?p\<lparr>ep_kernel := k\<rparr>)"
    using reg by (simp add: set_events_def EPollPoller_updateChannel_def Let_def ep_index)
  moreover have "ep_inv interest ?h (?p\<lparr>ep_kernel := k\<rparr>)"
    by (rule ep_inv_frame [where c = c, OF inv refl, where r = "Some c" and w = "Some (ev, c)"])
      (simp_all add: k(2) ep_channel_ok_def)
  ultimately show ?thesis by (auto simp: same_but_index_def)
qed

lemma ep_upd_registered:
  assumes inv: "ep_inv interest h p" and reg: "ep_registered p (ch_fd (h c)) = Some c"
  shows "\<exists>h' p'. set_events (EPollPoller_updateChannel ctl) c ev (h, p) = Some (h', p') \<and> ep_inv interest h' p'
    \<and> ep_registered p' = (ep_registered p)(ch_fd (h c) \<mapsto> c)
    \<and> same_but_index (h(c := (h c)\<lparr>events := ev, addedToLoop := True\<rparr>)) h'
    \<and> (\<forall>d. d \<noteq> c \<longrightarrow> h' d = h d)"
proof -
  let ?fd = "ch_fd (h c)"
  let ?h = "h(c := (h c)\<lparr>events := ev, addedToLoop := True\<rparr>)"
  let ?h' = "\<lambda>i. ?h(c := (?h c)\<lparr>ch_index := i\<rparr>)"
  have reg': "ep_registered p = (ep_registered p)(?fd := Some c)" using reg by auto
  have ok: "ep_channel_ok (interest (ep_kernel p)) h ?fd c" by (rule ep_inv_Some [OF inv reg])
  have frame: "ep_inv interest (?h' i) (p\<lparr>ep_kernel := k\<rparr>)"
    if "interest k = (interest (ep_kernel p))(?fd := w)" "ep_channel_ok (interest k) (?h' i) ?fd c" for i k w
    by (rule ep_inv_frame [where c = c, OF inv refl, where r = "Some c" and w = w]) (use that reg' in simp_all)
  consider (deleted) "ch_index (h c) = kDeleted" "interest (ep_kernel p) ?fd = None"
    | (none) "ch_index (h c) = kAdded" "ev = 0" "interest (ep_kernel p) ?fd \<noteq> None"
    | (some) "ch_index (h c) = kAdded" "ev \<noteq> 0" "interest (ep_kernel p) ?fd \<noteq> None"
    using ok by (auto simp: ep_channel_ok_def)
  then show ?thesis
  proof cases
    case deleted
    then obtain k where k: "EPollPoller_update ctl EPOLL_CTL_ADD c (?h' kAdded, p) = Some (?h' kAdded, p\<lparr>ep_kernel := k\<rparr>)"
      "interest k = (interest (ep_kernel p))(?fd \<mapsto> (ev, c))"
      using ep_update_add [of p "?h' kAdded" c] by auto
    then have "set_events (EPollPoller_updateChannel ctl) c ev (h, p) = Some (?h' kAdded, p\<lparr>ep_kernel := k\<rparr>)"
      using deleted reg by (simp add: set_events_def EPollPoller_updateChannel_def Let_def ep_index)
    moreover have "ep_inv interest (?h' kAdded) (p\<lparr>ep_kernel := k\<rparr>)"
      by (rule frame [OF k(2)]) (simp add: ep_channel_ok_def k(2))
    ultimately show ?thesis using reg' by (auto simp: same_but_index_def)
  next
    case none
    then obtain k where k: "EPollPoller_update ctl EPOLL_CTL_DEL c (?h, p) = Some (?h, p\<lparr>ep_kernel := k\<rparr>)"
      "interest k = (interest (ep_kernel p))(?fd := None)"
      using ep_update_del [of p ?h c] by auto
    then have "set_events (EPollPoller_updateChannel ctl) c ev (h, p) = Some (?h' kDeleted, p\<lparr>ep_kernel := k\<rparr>)"
      using none reg by (simp add: set_events_def EPollPoller_updateChannel_def Let_def ep_index isNoneEvent_def event_consts)
    moreover have "ep_inv interest (?h' kDeleted) (p\<lparr>ep_kernel := k\<rparr>)"
      by (rule frame [OF k(2)]) (simp add: ep_channel_ok_def k(2) none)
    ultimately show ?thesis using reg' by (auto simp: same_but_index_def)
  next
    case some
    then obtain k where k: "EPollPoller_update ctl EPOLL_CTL_MOD c (?h, p) = Some (?h, p\<lparr>ep_kernel := k\<rparr>)"
      "interest k = (interest (ep_kernel p))(?fd \<mapsto> (ev, c))"
      using ep_update_mod [of p ?h c] by auto
    then have "set_events (EPollPoller_updateChannel ctl) c ev (h, p) = Some (?h, p\<lparr>ep_kernel := k\<rparr>)"
      using some reg by (simp add: set_events_def EPollPoller_updateChannel_def Let_def ep_index isNoneEvent_def event_consts)
    moreover have "?h = ?h' kAdded" using some(1) by (auto simp: fun_eq_iff)
    moreover have "ep_inv interest (?h' kAdded) (p\<lparr>ep_kernel := k\<rparr>)"
      by (rule frame [OF k(2)]) (simp add: ep_channel_ok_def k(2) some)
    ultimately show ?thesis using reg' by (auto simp: same_but_index_def)
  qed
qed

lemma ep_rem:
  assumes inv: "ep_inv interest h p" and reg: "ep_registered p (ch_fd (h c)) = Some c" "events (h c) = 0"
  shows "\<exists>h' p'. Channel_remove (EPollPoller_removeChannel ctl) c (h, p) = Some (h', p') \<and> ep_inv interest h' p'
    \<and> ep_registered p' = (ep_registered p)(ch_fd (h c) := None)
    \<and> same_but_index (h(c := (h c)\<lparr>addedToLoop := False\<rparr>)) h'
    \<and> (\<forall>d. d \<noteq> c \<longrightarrow> h' d = h d) \<and> ch_index (h' c) = kNew"
proof -
  let ?fd = "ch_fd (h c)"
  let ?h = "h(c := (h c)\<lparr>addedToLoop := False\<rparr>)"
  let ?h' = "h(c := (h c)\<lparr>addedToLoop := False, ch_index := kNew\<rparr>)"
  let ?p = "p\<lparr>ep_channels := smap_erase ?fd (ep_channels p)\<rparr>"
  have ok: "ep_channel_ok (interest (ep_kernel p)) h ?fd c" by (rule ep_inv_Some [OF inv reg(1)])
  have "\<exists>k. (if ch_index (h c) = kAdded then EPollPoller_update ctl EPOLL_CTL_DEL c (?h, ?p) else Some (?h, ?p))
      = Some (?h, ?p\<lparr>ep_kernel := k\<rparr>) \<and> interest k = (interest (ep_kernel p))(?fd := None)"
  proof (cases "ch_index (h c) = kAdded")
    case True
    then have "interest (ep_kernel ?p) (ch_fd (?h c)) \<noteq> None" using ok by (auto simp: ep_channel_ok_def ep_index)
    then show ?thesis using ep_update_del [of ?p ?h c] True by auto
  next
    case False
    then have "interest (ep_kernel p) ?fd = None" using ok by (auto simp: ep_channel_ok_def)
    then have "interest (ep_kernel p) = (interest (ep_kernel p))(?fd := None)" by (simp add: fun_upd_idem)
    moreover have "?p = ?p\<lparr>ep_kernel := ep_kernel p\<rparr>" by simp
    ultimately show ?thesis using False by metis
  qed
  then obtain k where k: "(if ch_index (h c) = kAdded then EPollPoller_update ctl EPOLL_CTL_DEL c (?h, ?p) else Some (?h, ?p))
      = Some (?h, ?p\<lparr>ep_kernel := k\<rparr>)" "interest k = (interest (ep_kernel p))(?fd := None)" by blast
  have "Channel_remove (EPollPoller_removeChannel ctl) c (h, p) = Some (?h', ?p\<lparr>ep_kernel := k\<rparr>)"
    using k(1) reg ok
    by (auto simp: Channel_remove_def EPollPoller_removeChannel_def Let_def isNoneEvent_def event_consts ep_channel_ok_def)
  moreover have "ep_inv interest ?h' (?p\<lparr>ep_kernel := k\<rparr>)"
    by (rule ep_inv_frame [where c = c, OF inv refl, where r = None and w = None]) (simp_all add: k(2))
  ultimately show ?thesis by (auto simp: same_but_index_def)
qed

end

sublocale epoll_kernel \<subseteq> ep: poller "ep_inv interest" ep_registered "ep_watched interest"
  "EPollPoller_updateChannel ctl" "EPollPoller_removeChannel ctl"
proof unfold_locales
  show "ch_fd (h c) = fd" if "ep_inv interest h p" "ep_registered p fd = Some c" for h p fd c
    using ep_inv_Some [OF that] by (simp add: ep_channel_ok_def)
  show "ep_watched interest p fd = (case ep_registered p fd of Some c \<Rightarrow> events (h c) | None \<Rightarrow> 0)"
    if "ep_inv interest h p" for h p fd
    using ep_inv_Some [OF that, of fd] ep_inv_None [OF that, of fd]
    by (cases "ep_registered p fd") (auto simp: ep_watched_def ep_channel_ok_def)
  show "\<exists>h' p'. set_events (EPollPoller_updateChannel ctl) c ev (h, p) = Some (h', p') \<and> ep_inv interest h' p'
      \<and> ep_registered p' = (ep_registered p)(ch_fd (h c) \<mapsto> c)
      \<and> same_but_index (h(c := (h c)\<lparr>events := ev, addedToLoop := True\<rparr>)) h'
      \<and> (\<forall>d. ep_registered p' (ch_fd (h d)) \<noteq> Some d \<longrightarrow> ch_index (h' d) = ch_index (h d))"
    if inv: "ep_inv interest h p" and reg: "ep_registered p (ch_fd (h c)) = Some c
      \<or> (ep_registered p (ch_fd (h c)) = None \<and> ch_index (h c) = -1 \<and> ev \<noteq> 0)" for h p ev c
  proof -
    obtain h' p' where 1: "set_events (EPollPoller_updateChannel ctl) c ev (h, p) = Some (h', p')" "ep_inv interest h' p'"
      "ep_registered p' = (ep_registered p)(ch_fd (h c) \<mapsto> c)"
      "same_but_index (h(c := (h c)\<lparr>events := ev, addedToLoop := True\<rparr>)) h'" "\<forall>d. d \<noteq> c \<longrightarrow> h' d = h d"
      using reg ep_upd_registered [OF inv, of c ev] ep_upd_new [OF inv, of c ev] by blast
    moreover have "ch_index (h' d) = ch_index (h d)" if "ep_registered p' (ch_fd (h d)) \<noteq> Some d" for d
      using that 1(3,5) by (cases "d = c") auto
    ultimately show ?thesis by blast
  qed
  show "\<exists>h' p'. Channel_remove (EPollPoller_removeChannel ctl) c (h, p) = Some (h', p') \<and> ep_inv interest h' p'
      \<and> ep_registered p' = (ep_registered p)(ch_fd (h c) := None)
      \<and> same_but_index (h(c := (h c)\<lparr>addedToLoop := False\<rparr>)) h'
      \<and> (\<forall>d. d \<noteq> c \<and> ep_registered p' (ch_fd (h d)) \<noteq> Some d \<longrightarrow> ch_index (h' d) = ch_index (h d))"
    if "ep_inv interest h p" "ep_registered p (ch_fd (h c)) = Some c" "events (h c) = 0" for h p c
    using ep_rem [OF that] by fastforce
qed

subsection \<open>The poll backend is a poller\<close>

definition slot_fd :: "pollfd \<Rightarrow> int" where
  "slot_fd pfd = (if pfd_fd pfd < 0 then - pfd_fd pfd - 1 else pfd_fd pfd)"

text \<open>The entry of a channel: a channel without events has its descriptor negated.\<close>

definition pfd_of :: "Channel \<Rightarrow> pollfd \<Rightarrow> bool" where
  "pfd_of ch pfd \<longleftrightarrow> pfd_events pfd = ucast (events ch)
     \<and> pfd_fd pfd = (if events ch = 0 then - ch_fd ch - 1 else ch_fd ch)"

definition pp_channel_ok :: "pollfd list \<Rightarrow> channels \<Rightarrow> int \<Rightarrow> cid \<Rightarrow> bool" where
  "pp_channel_ok fds h fd c \<longleftrightarrow> ch_fd (h c) = fd \<and> 0 \<le> fd \<and> event_mask (events (h c))
     \<and> 0 \<le> ch_index (h c) \<and> ch_index (h c) < int (length fds) \<and> pfd_of (h c) (fds ! nat (ch_index (h c)))"

definition pp_inv :: "channels \<Rightarrow> PollPoller \<Rightarrow> bool" where
  "pp_inv h p \<longleftrightarrow>
     (\<forall>fd c. map_of (pp_channels p) fd = Some c \<longrightarrow> pp_channel_ok (pp_pollfds p) h fd c)
     \<and> (\<forall>i < length (pp_pollfds p). \<exists>c. map_of (pp_channels p) (slot_fd (pp_pollfds p ! i)) = Some c
          \<and> ch_index (h c) = int i)"

text \<open>The kernel ignores entries with a negative descriptor.\<close>

definition pp_watched :: "PollPoller \<Rightarrow> int \<Rightarrow> events" where
  "pp_watched p fd =
     (case find (\<lambda>pfd. pfd_fd pfd = fd \<and> 0 \<le> fd) (pp_pollfds p) of
        Some pfd \<Rightarrow> scast (pfd_events pfd) | None \<Rightarrow> 0)"

abbreviation pp_registered :: "PollPoller \<Rightarrow> int \<Rightarrow> cid option" where
  "pp_registered p \<equiv> map_of (pp_channels p)"

lemma scast_ucast_mask: "event_mask ev \<Longrightarrow> scast (ucast ev :: 16 word) = ev"
  by (auto simp: event_mask_def)

lemma pp_inv_Some: "pp_inv h p \<Longrightarrow> pp_registered p fd = Some c \<Longrightarrow> pp_channel_ok (pp_pollfds p) h fd c"
  by (simp add: pp_inv_def)

lemma pp_inv_slot:
  assumes "pp_inv h p" "i < length (pp_pollfds p)"
  obtains c where "pp_registered p (slot_fd (pp_pollfds p ! i)) = Some c" "ch_index (h c) = int i"
  using assms by (auto simp: pp_inv_def)

lemma slot_fd_pfd_of: "pfd_of ch pfd \<Longrightarrow> 0 \<le> ch_fd ch \<Longrightarrow> slot_fd pfd = ch_fd ch"
  by (auto simp: pfd_of_def slot_fd_def)

text \<open>Two registered channels with the same index are the same channel.\<close>

lemma pp_index_inj:
  assumes "pp_inv h p" "pp_registered p f = Some c" "pp_registered p g = Some d" "ch_index (h c) = ch_index (h d)"
  shows "c = d"
  using pp_inv_Some [OF assms(1,2)] pp_inv_Some [OF assms(1,3)] assms(2-4)
  unfolding pp_channel_ok_def by (metis option.inject slot_fd_pfd_of)

lemma pp_watched_eq:
  assumes "pp_inv h p"
  shows "pp_watched p fd = (case pp_registered p fd of Some c \<Rightarrow> events (h c) | None \<Rightarrow> 0)"
proof (cases "find (\<lambda>pfd. pfd_fd pfd = fd \<and> 0 \<le> fd) (pp_pollfds p)")
  case None
  have "events (h c) = 0" if "pp_registered p fd = Some c" for c
  proof (rule ccontr)
    assume "events (h c) \<noteq> 0"
    then have "pfd_fd (pp_pollfds p ! nat (ch_index (h c))) = fd" "0 \<le> fd" "nat (ch_index (h c)) < length (pp_pollfds p)"
      using pp_inv_Some [OF assms that] by (auto simp: pp_channel_ok_def pfd_of_def)
    then show False using None unfolding find_None_iff by (metis nth_mem)
  qed
  then show ?thesis using None by (cases "pp_registered p fd") (simp_all add: pp_watched_def)
next
  case (Some pfd)
  then obtain i where i: "i < length (pp_pollfds p)" "pp_pollfds p ! i = pfd" "pfd_fd pfd = fd" "0 \<le> fd"
    unfolding find_Some_iff by blast
  have "slot_fd pfd = fd" using i(3,4) by (simp add: slot_fd_def)
  then obtain c where c: "pp_registered p fd = Some c" "ch_index (h c) = int i"
    using pp_inv_slot [OF assms i(1)] i(2) by metis
  have "pfd_events pfd = ucast (events (h c))" "event_mask (events (h c))"
    using pp_inv_Some [OF assms c(1)] i(2) c(2) by (simp_all add: pp_channel_ok_def pfd_of_def)
  then show ?thesis using Some c(1) by (simp add: pp_watched_def scast_ucast_mask)
qed

lemma pp_inv_no_slot:
  assumes "pp_inv h p" "i < length (pp_pollfds p)" "pp_registered p (ch_fd (h c)) = Some c" "ch_index (h c) \<noteq> int i"
  shows "slot_fd (pp_pollfds p ! i) \<noteq> ch_fd (h c)"
  using pp_inv_slot [OF assms(1,2)] assms(3,4) by (metis option.inject)

lemma pp_upd_new:
  assumes inv: "pp_inv h p" and reg: "pp_registered p (ch_fd (h c)) = None" "ch_index (h c) = -1"
    and ev: "event_mask ev" "ev \<noteq> 0" and fd: "0 \<le> ch_fd (h c)"
  shows "\<exists>h' p'. set_events PollPoller_updateChannel c ev (h, p) = Some (h', p') \<and> pp_inv h' p'
    \<and> pp_registered p' = (pp_registered p)(ch_fd (h c) \<mapsto> c)
    \<and> same_but_index (h(c := (h c)\<lparr>events := ev, addedToLoop := True\<rparr>)) h'
    \<and> (\<forall>d. d \<noteq> c \<longrightarrow> h' d = h d)"
proof -
  let ?fd = "ch_fd (h c)" and ?fds = "pp_pollfds p"
  let ?pfd = "\<lparr>pfd_fd = ?fd, pfd_events = ucast ev, pfd_revents = 0\<rparr>"
  let ?h = "h(c := (h c)\<lparr>events := ev, addedToLoop := True, ch_index := int (length ?fds)\<rparr>)"
  let ?p = "\<lparr>pp_channels = smap_put ?fd c (pp_channels p), pp_pollfds = ?fds @ [?pfd]\<rparr>"
  have other: "d \<noteq> c" if "pp_registered p g = Some d" for g d
    using pp_inv_Some [OF inv that] reg(1) that by (auto simp: pp_channel_ok_def)
  have "set_events PollPoller_updateChannel c ev (h, p) = Some (?h, ?p)"
    using reg by (simp add: set_events_def PollPoller_updateChannel_def Let_def)
  moreover have "pp_inv ?h ?p"
    unfolding pp_inv_def
  proof (intro conjI allI impI)
    fix g d assume g: "pp_registered ?p g = Some d"
    show "pp_channel_ok (pp_pollfds ?p) ?h g d"
    proof (cases "g = ?fd")
      case True
      then show ?thesis using g ev fd by (simp add: pp_channel_ok_def pfd_of_def)
    next
      case False
      then have d: "pp_registered p g = Some d" using g by simp
      show ?thesis
        using pp_inv_Some [OF inv d] other [OF d] by (auto simp: pp_channel_ok_def nth_append)
    qed
  next
    fix i assume i: "i < length (pp_pollfds ?p)"
    show "\<exists>d. pp_registered ?p (slot_fd (pp_pollfds ?p ! i)) = Some d \<and> ch_index (?h d) = int i"
    proof (cases "i < length ?fds")
      case True
      then obtain d where d: "pp_registered p (slot_fd (?fds ! i)) = Some d" "ch_index (h d) = int i"
        using pp_inv_slot [OF inv True] by blast
      then have "slot_fd (?fds ! i) \<noteq> ?fd" using reg(1) by auto
      then show ?thesis using True d other [OF d(1)] by (intro exI [of _ d]) (simp add: nth_append)
    next
      case False
      then have "i = length ?fds" using i by simp
      then show ?thesis using fd by (simp add: slot_fd_def)
    qed
  qed
  ultimately show ?thesis by (auto simp: same_but_index_def)
qed

lemma pp_upd_registered:
  assumes inv: "pp_inv h p" and reg: "pp_registered p (ch_fd (h c)) = Some c" and ev: "event_mask ev"
  shows "\<exists>h' p'. set_events PollPoller_updateChannel c ev (h, p) = Some (h', p') \<and> pp_inv h' p'
    \<and> pp_registered p' = (pp_registered p)(ch_fd (h c) \<mapsto> c)
    \<and> same_but_index (h(c := (h c)\<lparr>events := ev, addedToLoop := True\<rparr>)) h'
    \<and> (\<forall>d. d \<noteq> c \<longrightarrow> h' d = h d)"
proof -
  let ?fd = "ch_fd (h c)" and ?fds = "pp_pollfds p" and ?i = "nat (ch_index (h c))"
  let ?pfd = "\<lparr>pfd_fd = if ev = 0 then - ?fd - 1 else ?fd, pfd_events = ucast ev, pfd_revents = 0\<rparr>"
  let ?h = "h(c := (h c)\<lparr>events := ev, addedToLoop := True\<rparr>)"
  let ?p = "p\<lparr>pp_pollfds := ?fds[?i := ?pfd]\<rparr>"
  have ok: "0 \<le> ?fd" "0 \<le> ch_index (h c)" "ch_index (h c) < int (length ?fds)" "?i < length ?fds"
    "pfd_of (h c) (?fds ! ?i)"
    using pp_inv_Some [OF inv reg] by (auto simp: pp_channel_ok_def)
  have slot: "slot_fd ?pfd = ?fd" using ok(1) by (simp add: slot_fd_def)
  have "set_events PollPoller_updateChannel c ev (h, p) = Some (?h, ?p)"
    using reg ok by (simp add: set_events_def PollPoller_updateChannel_def Let_def pfd_of_def isNoneEvent_def event_consts)
  moreover have "pp_inv ?h ?p"
    unfolding pp_inv_def
  proof (intro conjI allI impI)
    fix g d assume g: "pp_registered ?p g = Some d"
    show "pp_channel_ok (pp_pollfds ?p) ?h g d"
    proof (cases "d = c")
      case True
      then show ?thesis using g ev ok pp_inv_Some [OF inv, of g d] by (simp add: pp_channel_ok_def pfd_of_def)
    next
      case False
      have d: "pp_registered p g = Some d" using g by simp
      have "ch_index (h d) \<noteq> ch_index (h c)" using pp_index_inj [OF inv d reg] False by blast
      then show ?thesis
        using pp_inv_Some [OF inv d] False ok(2) by (auto simp: pp_channel_ok_def nth_list_update)
    qed
  next
    fix i assume i: "i < length (pp_pollfds ?p)"
    then obtain d where d: "pp_registered p (slot_fd (?fds ! i)) = Some d" "ch_index (h d) = int i"
      using pp_inv_slot [OF inv, of i] by auto
    have "slot_fd (?fds[?i := ?pfd] ! i) = slot_fd (?fds ! i)"
      using ok(1,5) slot slot_fd_pfd_of [OF ok(5)] i by (cases "i = ?i") auto
    then show "\<exists>d. pp_registered ?p (slot_fd (pp_pollfds ?p ! i)) = Some d \<and> ch_index (?h d) = int i"
      using d by (intro exI [of _ d]) auto
  qed
  ultimately show ?thesis using reg by (auto simp: same_but_index_def)
qed

text \<open>Removing an entry: the last one takes its place.\<close>

definition swap_remove :: "nat \<Rightarrow> 'a list \<Rightarrow> 'a list" where
  "swap_remove i xs = (if i = length xs - 1 then butlast xs
     else butlast (xs[i := last xs, length xs - 1 := xs ! i]))"

lemma length_swap_remove [simp]: "length (swap_remove i xs) = length xs - 1"
  by (simp add: swap_remove_def)

lemma nth_swap_remove:
  assumes "i < length xs" "j < length xs - 1"
  shows "swap_remove i xs ! j = (if j = i then xs ! (length xs - 1) else xs ! j)"
proof -
  have "last xs = xs ! (length xs - 1)" using assms(1) by (intro last_conv_nth) auto
  then show ?thesis using assms by (auto simp: swap_remove_def nth_butlast nth_list_update)
qed

lemma pp_removeChannel_eq:
  assumes inv: "pp_inv h p" and reg: "pp_registered p (ch_fd (h c)) = Some c" and ev: "events (h c) = 0"
    and e: "e = the (pp_registered p (slot_fd (last (pp_pollfds p))))"
  defines "i \<equiv> nat (ch_index (h c))"
  defines "h' \<equiv> (if i = length (pp_pollfds p) - 1 then h else h(e := (h e)\<lparr>ch_index := int i\<rparr>))"
  shows "PollPoller_removeChannel c (h, p) =
    Some (h', \<lparr>pp_channels = smap_erase (ch_fd (h c)) (pp_channels p), pp_pollfds = swap_remove i (pp_pollfds p)\<rparr>)"
proof -
  let ?fd = "ch_fd (h c)" and ?fds = "pp_pollfds p" and ?n = "length (pp_pollfds p)"
  have ok: "0 \<le> ?fd" "0 \<le> ch_index (h c)" "ch_index (h c) < int ?n" "i < ?n" "int i = ch_index (h c)"
    "pfd_of (h c) (?fds ! i)"
    using pp_inv_Some [OF inv reg] by (auto simp: pp_channel_ok_def i_def)
  show ?thesis
  proof (cases "i = ?n - 1")
    case True
    then show ?thesis
      using reg ev ok by (simp add: PollPoller_removeChannel_def Let_def isNoneEvent_def event_consts
          pfd_of_def i_def [symmetric] h'_def swap_remove_def)
  next
    case False
    have ne: "?fds \<noteq> []" using ok(4) by auto
    have lst: "last ?fds = ?fds ! (?n - 1)" by (rule last_conv_nth [OF ne])
    have "ch_index (h c) \<noteq> int (?n - 1)" using False ok(4,5) by linarith
    then have "slot_fd (last ?fds) \<noteq> ?fd" using pp_inv_no_slot [OF inv _ reg, of "?n - 1"] ok(4) lst by simp
    moreover have "pp_registered p (slot_fd (last ?fds)) = Some e"
      using pp_inv_slot [OF inv, of "?n - 1"] ok(4) lst e by (metis diff_less length_greater_0_conv less_one ne option.sel)
    ultimately have "map_of (smap_erase ?fd (pp_channels p)) (slot_fd (last ?fds)) = Some e" by simp
    then show ?thesis
      using False reg ev ok
      by (simp add: PollPoller_removeChannel_def Let_def isNoneEvent_def event_consts pfd_of_def
          i_def [symmetric] h'_def swap_remove_def slot_fd_def)
  qed
qed

lemma pp_rem:
  assumes inv: "pp_inv h p" and reg: "pp_registered p (ch_fd (h c)) = Some c" and ev: "events (h c) = 0"
  shows "\<exists>h' p'. PollPoller_removeChannel c (h, p) = Some (h', p') \<and> pp_inv h' p'
    \<and> pp_registered p' = (pp_registered p)(ch_fd (h c) := None)
    \<and> same_but_index h h'
    \<and> (\<forall>d. pp_registered p' (ch_fd (h d)) \<noteq> Some d \<longrightarrow> h' d = h d)"
proof -
  let ?fd = "ch_fd (h c)" and ?fds = "pp_pollfds p" and ?n = "length (pp_pollfds p)"
  define i where "i = nat (ch_index (h c))"
  define e where "e = the (pp_registered p (slot_fd (last ?fds)))"
  define h' where "h' = (if i = ?n - 1 then h else h(e := (h e)\<lparr>ch_index := int i\<rparr>))"
  define p' where "p' = \<lparr>pp_channels = smap_erase ?fd (pp_channels p), pp_pollfds = swap_remove i ?fds\<rparr>"
  have run: "PollPoller_removeChannel c (h, p) = Some (h', p')"
    using pp_removeChannel_eq [OF inv reg ev e_def] by (simp add: i_def h'_def p'_def)
  have i: "i < ?n" "ch_index (h c) = int i"
    using pp_inv_Some [OF inv reg] by (auto simp: pp_channel_ok_def i_def)
  then have ne: "?fds \<noteq> []" by auto
  have e: "pp_registered p (slot_fd (?fds ! (?n - 1))) = Some e" "ch_index (h e) = int (?n - 1)"
  proof -
    have "?n - 1 < ?n" using i(1) by linarith
    then obtain d where "pp_registered p (slot_fd (?fds ! (?n - 1))) = Some d" "ch_index (h d) = int (?n - 1)"
      using pp_inv_slot [OF inv] by blast
    then show "pp_registered p (slot_fd (?fds ! (?n - 1))) = Some e" "ch_index (h e) = int (?n - 1)"
      by (simp_all add: e_def last_conv_nth [OF ne])
  qed
  have nn: "nat (int ?n - 1) = ?n - Suc 0" by linarith
  have sb: "same_but_index h h'" by (simp add: h'_def)
  note fields = same_but_index_fields [OF sb]
  have idx: "ch_index (h' d) = (if ch_index (h d) = int (?n - 1) then int i else ch_index (h d))"
    if "pp_registered p g = Some d" for g d
  proof (cases "d = e")
    case True
    then show ?thesis using e(2) by (simp add: h'_def)
  next
    case False
    then have "ch_index (h d) \<noteq> int (?n - 1)" using pp_index_inj [OF inv that e(1)] e(2) by auto
    then show ?thesis using False by (simp add: h'_def)
  qed
  have reg': "pp_registered p' g = Some d \<longleftrightarrow> pp_registered p g = Some d \<and> d \<noteq> c" for g d
    using reg pp_inv_Some [OF inv, of g d] by (auto simp: p'_def pp_channel_ok_def)
  have "pp_inv h' p'"
    unfolding pp_inv_def
  proof (intro conjI allI impI)
    fix g d assume "pp_registered p' g = Some d"
    then have d: "pp_registered p g = Some d" "d \<noteq> c" by (simp_all add: reg')
    have "ch_index (h d) \<noteq> int i" using pp_index_inj [OF inv d(1) reg] d(2) i(2) by auto
    then show "pp_channel_ok (pp_pollfds p') h' g d"
      using pp_inv_Some [OF inv d(1)] idx [OF d(1)] i
      by (cases "ch_index (h d) = int (?n - 1)")
        (auto simp: pp_channel_ok_def p'_def nth_swap_remove pfd_of_def fields nn)
  next
    fix j assume "j < length (pp_pollfds p')"
    then have j: "j < ?n - 1" by (simp add: p'_def)
    let ?j = "if j = i then ?n - 1 else j"
    have nth: "pp_pollfds p' ! j = ?fds ! ?j" using i(1) j by (simp add: p'_def nth_swap_remove)
    have "?j < ?n" using i(1) j by (simp, linarith)
    then obtain d where d: "pp_registered p (slot_fd (?fds ! ?j)) = Some d" "ch_index (h d) = int ?j"
      using pp_inv_slot [OF inv] by blast
    have "d \<noteq> c" using d(2) i j by (auto split: if_splits)
    then show "\<exists>d. pp_registered p' (slot_fd (pp_pollfds p' ! j)) = Some d \<and> ch_index (h' d) = int j"
      using d idx [OF d(1)] j nth by (intro exI [of _ d]) (auto simp: reg' split: if_splits)
  qed
  moreover have "h' d = h d" if "pp_registered p' (ch_fd (h d)) \<noteq> Some d" for d
    using that e(1) pp_inv_Some [OF inv e(1)] i by (auto simp: h'_def reg' pp_channel_ok_def e(2))
  ultimately show ?thesis
    using run sb by (auto simp: p'_def)
qed

lemma pp_inv_addedToLoop:
  assumes "pp_inv h p"
  shows "pp_inv (h(c := (h c)\<lparr>addedToLoop := b\<rparr>)) p"
proof -
  have "pp_channel_ok fds (h(c := (h c)\<lparr>addedToLoop := b\<rparr>)) g d = pp_channel_ok fds h g d" for fds g d
    by (simp add: pp_channel_ok_def pfd_of_def)
  moreover have "ch_index ((h(c := (h c)\<lparr>addedToLoop := b\<rparr>)) d) = ch_index (h d)" for d by simp
  ultimately show ?thesis using assms unfolding pp_inv_def by presburger
qed

interpretation pp: poller pp_inv pp_registered pp_watched PollPoller_updateChannel PollPoller_removeChannel
proof unfold_locales
  show "ch_fd (h c) = fd" if "pp_inv h p" "pp_registered p fd = Some c" for h p fd c
    using pp_inv_Some [OF that] by (simp add: pp_channel_ok_def)
  show "pp_watched p fd = (case pp_registered p fd of Some c \<Rightarrow> events (h c) | None \<Rightarrow> 0)"
    if "pp_inv h p" for h p fd
    by (rule pp_watched_eq [OF that])
  show "\<exists>h' p'. set_events PollPoller_updateChannel c ev (h, p) = Some (h', p') \<and> pp_inv h' p'
      \<and> pp_registered p' = (pp_registered p)(ch_fd (h c) \<mapsto> c)
      \<and> same_but_index (h(c := (h c)\<lparr>events := ev, addedToLoop := True\<rparr>)) h'
      \<and> (\<forall>d. pp_registered p' (ch_fd (h d)) \<noteq> Some d \<longrightarrow> ch_index (h' d) = ch_index (h d))"
    if inv: "pp_inv h p" and ev: "event_mask ev" and fd: "0 \<le> ch_fd (h c)"
      and reg: "pp_registered p (ch_fd (h c)) = Some c
        \<or> (pp_registered p (ch_fd (h c)) = None \<and> ch_index (h c) = -1 \<and> ev \<noteq> 0)" for h p ev c
  proof -
    obtain h' p' where 1: "set_events PollPoller_updateChannel c ev (h, p) = Some (h', p')" "pp_inv h' p'"
      "pp_registered p' = (pp_registered p)(ch_fd (h c) \<mapsto> c)"
      "same_but_index (h(c := (h c)\<lparr>events := ev, addedToLoop := True\<rparr>)) h'" "\<forall>d. d \<noteq> c \<longrightarrow> h' d = h d"
      using reg pp_upd_registered [OF inv _ ev, of c] pp_upd_new [OF inv _ _ ev _ fd] by blast
    moreover have "ch_index (h' d) = ch_index (h d)" if "pp_registered p' (ch_fd (h d)) \<noteq> Some d" for d
      using that 1(3,5) by (cases "d = c") auto
    ultimately show ?thesis by blast
  qed
  show "\<exists>h' p'. Channel_remove PollPoller_removeChannel c (h, p) = Some (h', p') \<and> pp_inv h' p'
      \<and> pp_registered p' = (pp_registered p)(ch_fd (h c) := None)
      \<and> same_but_index (h(c := (h c)\<lparr>addedToLoop := False\<rparr>)) h'
      \<and> (\<forall>d. d \<noteq> c \<and> pp_registered p' (ch_fd (h d)) \<noteq> Some d \<longrightarrow> ch_index (h' d) = ch_index (h d))"
    if inv: "pp_inv h p" and reg: "pp_registered p (ch_fd (h c)) = Some c" and ev: "events (h c) = 0" for h p c
  proof -
    let ?h = "h(c := (h c)\<lparr>addedToLoop := False\<rparr>)"
    have fd: "ch_fd (?h d) = ch_fd (h d)" for d by simp
    obtain h' p' where 1: "PollPoller_removeChannel c (?h, p) = Some (h', p')" "pp_inv h' p'"
      "pp_registered p' = (pp_registered p)(ch_fd (?h c) := None)" "same_but_index ?h h'"
      "\<forall>d. pp_registered p' (ch_fd (?h d)) \<noteq> Some d \<longrightarrow> h' d = ?h d"
      using pp_rem [OF pp_inv_addedToLoop [OF inv, where c = c and b = False], where c = c] reg ev by auto
    moreover have "Channel_remove PollPoller_removeChannel c (h, p) = Some (h', p')"
      using 1(1) ev by (simp add: Channel_remove_def isNoneEvent_def event_consts)
    moreover have "ch_index (h' d) = ch_index (h d)"
      if "d \<noteq> c \<and> pp_registered p' (ch_fd (h d)) \<noteq> Some d" for d
      using that 1(5) [unfolded fd] by simp
    ultimately show ?thesis unfolding fd by blast
  qed
qed

subsection \<open>Runs of channel operations\<close>

datatype channel_op =
    EnableReading cid | DisableReading cid | EnableWriting cid | DisableWriting cid
  | DisableAll cid | RemoveChannel cid

fun channel_step :: "'p poller_fun \<Rightarrow> 'p poller_fun \<Rightarrow> channel_op \<Rightarrow> channels \<times> 'p \<Rightarrow> (channels \<times> 'p) option" where
  "channel_step upd rem (EnableReading c) st = enableReading upd c st"
| "channel_step upd rem (DisableReading c) st = disableReading upd c st"
| "channel_step upd rem (EnableWriting c) st = enableWriting upd c st"
| "channel_step upd rem (DisableWriting c) st = disableWriting upd c st"
| "channel_step upd rem (DisableAll c) st = disableAll upd c st"
| "channel_step upd rem (RemoveChannel c) st = Channel_remove rem c st"

text \<open>
  The specification: for every descriptor the channel that is registered and its events, and the
  channels that were removed.  An operation is allowed on the registered channel of a descriptor; a
  channel that was never removed may be registered by enabling something on a free descriptor; a
  registered channel without events may be removed.
\<close>

type_synonym interest = "(int \<Rightarrow> epoll_event option) \<times> cid list"

definition interest_set :: "(cid \<Rightarrow> int) \<Rightarrow> cid \<Rightarrow> (events \<Rightarrow> events) \<Rightarrow> interest \<Rightarrow> interest option" where
  "interest_set fdof c f = (\<lambda>(a, gone).
     (case a (fdof c) of
        Some (ev, c') \<Rightarrow> (if c' = c then Some (a(fdof c \<mapsto> (f ev, c)), gone) else None)
      | None \<Rightarrow> (if c \<notin> set gone \<and> f 0 \<noteq> 0 then Some (a(fdof c \<mapsto> (f 0, c)), gone) else None)))"

fun interest_step :: "(cid \<Rightarrow> int) \<Rightarrow> channel_op \<Rightarrow> interest \<Rightarrow> interest option" where
  "interest_step fdof (EnableReading c) a = interest_set fdof c (\<lambda>ev. ev OR kReadEvent) a"
| "interest_step fdof (DisableReading c) a = interest_set fdof c (\<lambda>ev. ev AND NOT kReadEvent) a"
| "interest_step fdof (EnableWriting c) a = interest_set fdof c (\<lambda>ev. ev OR kWriteEvent) a"
| "interest_step fdof (DisableWriting c) a = interest_set fdof c (\<lambda>ev. ev AND NOT kWriteEvent) a"
| "interest_step fdof (DisableAll c) a = interest_set fdof c (\<lambda>ev. kNoneEvent) a"
| "interest_step fdof (RemoveChannel c) (a, gone) =
     (case a (fdof c) of
        Some (ev, c') \<Rightarrow> (if c' = c \<and> ev = 0 then Some (a(fdof c := None), c # gone) else None)
      | None \<Rightarrow> None)"

definition interest_rel ::
  "(channels \<Rightarrow> 'p \<Rightarrow> bool) \<Rightarrow> ('p \<Rightarrow> int \<Rightarrow> cid option) \<Rightarrow> (cid \<Rightarrow> int) \<Rightarrow> channels \<times> 'p \<Rightarrow> interest \<Rightarrow> bool" where
  "interest_rel poller_inv reg fdof = (\<lambda>(h, p) (a, gone).
     poller_inv h p \<and> (\<forall>c. ch_fd (h c) = fdof c)
     \<and> (\<forall>fd. reg p fd = map_option snd (a fd))
     \<and> (\<forall>fd c ev. a fd = Some (ev, c) \<longrightarrow> events (h c) = ev \<and> event_mask ev)
     \<and> (\<forall>c. reg p (fdof c) \<noteq> Some c \<longrightarrow>
          events (h c) = 0 \<and> (c \<notin> set gone \<longrightarrow> ch_index (h c) = -1)))"

context poller
begin

lemma interest_set_sim:
  assumes rel: "interest_rel inv registered fdof (h, p) (a, gone)" and fd: "0 \<le> fdof c"
    and f: "\<And>ev. event_mask ev \<Longrightarrow> event_mask (f ev)"
    and step: "interest_set fdof c f (a, gone) = Some t'"
  shows "\<exists>s'. set_events upd c (f (events (h c))) (h, p) = Some s' \<and> interest_rel inv registered fdof s' t'"
proof -
  let ?fd = "fdof c" and ?ev = "f (events (h c))"
  have r: "inv h p" "\<And>c. ch_fd (h c) = fdof c" "\<And>fd. registered p fd = map_option snd (a fd)"
    "\<And>fd c ev. a fd = Some (ev, c) \<Longrightarrow> events (h c) = ev \<and> event_mask ev"
    "\<And>c. registered p (fdof c) \<noteq> Some c \<Longrightarrow> events (h c) = 0 \<and> (c \<notin> set gone \<longrightarrow> ch_index (h c) = -1)"
    using rel by (auto simp: interest_rel_def)
  have pre: "(registered p ?fd = Some c \<or> (registered p ?fd = None \<and> ch_index (h c) = -1 \<and> ?ev \<noteq> 0))
      \<and> event_mask ?ev \<and> t' = (a(?fd \<mapsto> (?ev, c)), gone)"
  proof (cases "a ?fd")
    case None
    then show ?thesis using step r(3) [of ?fd] r(5) [of c] f [OF event_mask_ops(1)]
      by (auto simp: interest_set_def split: if_splits)
  next
    case (Some x)
    then obtain ev where x: "x = (ev, c)" using step by (cases x) (auto simp: interest_set_def split: if_splits)
    then show ?thesis using Some step r(3) [of ?fd] r(4) [of ?fd ev c] f [of ev]
      by (auto simp: interest_set_def)
  qed
  obtain h' p' where 1: "set_events upd c ?ev (h, p) = Some (h', p')" "inv h' p'"
    "registered p' = (registered p)(?fd \<mapsto> c)"
    "same_but_index (h(c := (h c)\<lparr>events := ?ev, addedToLoop := True\<rparr>)) h'"
    "\<And>d. registered p' (fdof d) \<noteq> Some d \<Longrightarrow> ch_index (h' d) = ch_index (h d)"
    using upd_law [OF r(1), of ?ev c] pre fd unfolding r(2) by blast
  note fields = same_but_index_fields [OF 1(4)]
  have "interest_rel inv registered fdof (h', p') (a(?fd \<mapsto> (?ev, c)), gone)"
    unfolding interest_rel_def prod.case
  proof (intro conjI allI impI)
    show "inv h' p'" by fact
    show "ch_fd (h' d) = fdof d" for d using fields(1) r(2) by simp
    show "registered p' g = map_option snd ((a(?fd \<mapsto> (?ev, c))) g)" for g using 1(3) r(3) by simp
    show "events (h' d) = ev" "event_mask ev" if d: "(a(?fd \<mapsto> (?ev, c))) g = Some (ev, d)" for g d ev
    proof -
      have "g = ?fd \<or> d \<noteq> c" using d registered_fd [OF r(1), of g c] r(2,3) by (auto split: if_splits)
      then show "events (h' d) = ev" "event_mask ev"
        using d fields(2) [of d] r(4) [of g ev d] pre by (auto split: if_splits)
    qed
    fix d assume d: "registered p' (fdof d) \<noteq> Some d"
    then have "d \<noteq> c" "registered p (fdof d) \<noteq> Some d"
      using 1(3) r(3) pre registered_fd [OF r(1), of ?fd d] r(2) by (auto split: if_splits)
    then show "events (h' d) = 0" "d \<notin> set gone \<Longrightarrow> ch_index (h' d) = -1"
      using r(5) [of d] fields(2) [of d] 1(5) [OF d] by auto
  qed
  then show ?thesis using 1(1) pre by blast
qed

lemma interest_remove_sim:
  assumes rel: "interest_rel inv registered fdof (h, p) (a, gone)"
    and step: "interest_step fdof (RemoveChannel c) (a, gone) = Some t'"
  shows "\<exists>s'. Channel_remove rem c (h, p) = Some s' \<and> interest_rel inv registered fdof s' t'"
proof -
  let ?fd = "fdof c"
  have r: "inv h p" "\<And>c. ch_fd (h c) = fdof c" "\<And>fd. registered p fd = map_option snd (a fd)"
    "\<And>fd c ev. a fd = Some (ev, c) \<Longrightarrow> events (h c) = ev \<and> event_mask ev"
    "\<And>c. registered p (fdof c) \<noteq> Some c \<Longrightarrow> events (h c) = 0 \<and> (c \<notin> set gone \<longrightarrow> ch_index (h c) = -1)"
    using rel by (auto simp: interest_rel_def)
  have a: "a ?fd = Some (0, c)" and t': "t' = (a(?fd := None), c # gone)"
    using step by (auto split: option.splits if_splits)
  obtain h' p' where 1: "Channel_remove rem c (h, p) = Some (h', p')" "inv h' p'"
    "registered p' = (registered p)(?fd := None)"
    "same_but_index (h(c := (h c)\<lparr>addedToLoop := False\<rparr>)) h'"
    "\<And>d. d \<noteq> c \<and> registered p' (fdof d) \<noteq> Some d \<Longrightarrow> ch_index (h' d) = ch_index (h d)"
    using rem_law [OF r(1), of c] r(3) [of ?fd] r(4) [OF a] a unfolding r(2) by auto
  note fields = same_but_index_fields [OF 1(4)]
  have "interest_rel inv registered fdof (h', p') (a(?fd := None), c # gone)"
    unfolding interest_rel_def prod.case
  proof (intro conjI allI impI)
    show "inv h' p'" by fact
    show "ch_fd (h' d) = fdof d" for d using fields(1) r(2) by simp
    show "registered p' g = map_option snd ((a(?fd := None)) g)" for g using 1(3) r(3) by simp
    show "events (h' d) = ev" "event_mask ev" if d: "(a(?fd := None)) g = Some (ev, d)" for g d ev
      using d fields(2) [of d] r(4) [of g ev d] by (auto split: if_splits)
    fix d assume d: "registered p' (fdof d) \<noteq> Some d"
    then have "d = c \<or> registered p (fdof d) \<noteq> Some d"
      using 1(3) r(3) a by (auto split: if_splits)
    then show "events (h' d) = 0" "d \<notin> set (c # gone) \<Longrightarrow> ch_index (h' d) = -1"
      using r(4) [OF a] r(5) [of d] fields(2) [of d] 1(5) [of d] d by auto
  qed
  then show ?thesis using 1(1) t' by blast
qed

lemma interest_step_sim:
  assumes "interest_rel inv registered fdof s t" "\<And>c. 0 \<le> fdof c" "interest_step fdof x t = Some t'"
  shows "\<exists>s'. channel_step upd rem x s = Some s' \<and> interest_rel inv registered fdof s' t'"
proof -
  obtain h p a gone where s: "s = (h, p)" "t = (a, gone)" by fastforce
  note sim = interest_set_sim [OF assms(1) [unfolded s] assms(2)]
  note step = assms(3) [unfolded s]
  show ?thesis
  proof (cases x)
    case (DisableAll c)
    have "event_mask kNoneEvent" by (simp add: event_mask_def event_consts)
    with sim [of "\<lambda>_. kNoneEvent" c t'] DisableAll step show ?thesis
      by (simp add: channel_ops_set_events s)
  next
    case (RemoveChannel c)
    then show ?thesis using interest_remove_sim [OF assms(1) [unfolded s], of c t'] step
      by (simp only: channel_step.simps s)
  qed (use step in \<open>auto simp: s channel_ops_set_events dest: sim [rotated] intro: event_mask_ops\<close>)
qed

lemma interest_run:
  assumes "interest_rel inv registered fdof s t" "\<And>c. 0 \<le> fdof c"
    and "run_ops (interest_step fdof) ops t = Some (a, gone)"
  shows "\<exists>h p. run_ops (channel_step upd rem) ops s = Some (h, p)
    \<and> (\<forall>fd. registered p fd = map_option snd (a fd))
    \<and> (\<forall>fd. watched p fd = (case a fd of Some (ev, _) \<Rightarrow> ev | None \<Rightarrow> 0))"
proof -
  obtain h p where 1: "run_ops (channel_step upd rem) ops s = Some (h, p)"
    "interest_rel inv registered fdof (h, p) (a, gone)"
    using run_ops_simulation [of "interest_rel inv registered fdof" "interest_step fdof" "channel_step upd rem",
      OF interest_step_sim [OF _ assms(2)] assms(1,3)] by fast
  then have r: "inv h p" "\<And>fd. registered p fd = map_option snd (a fd)"
    "\<And>fd c ev. a fd = Some (ev, c) \<Longrightarrow> events (h c) = ev" by (auto simp: interest_rel_def)
  have "watched p fd = (case a fd of Some (ev, _) \<Rightarrow> ev | None \<Rightarrow> 0)" for fd
    using watched_law [OF r(1), of fd] r(2) [of fd] r(3) [of fd] by (cases "a fd") auto
  then show ?thesis using 1(1) r(2) by blast
qed

end

context epoll_kernel
begin

lemma ep_interest_run:
  assumes "\<forall>fd. interest k fd = None" "\<And>c. 0 \<le> fdof c"
    and "run_ops (interest_step fdof) ops (Map.empty, []) = Some (a, gone)"
  shows "\<exists>h p. run_ops (channel_step (EPollPoller_updateChannel ctl) (EPollPoller_removeChannel ctl)) ops
      (\<lambda>c. Channel_new (fdof c), EPollPoller_new k) = Some (h, p)
    \<and> (\<forall>fd. ep_registered p fd = map_option snd (a fd))
    \<and> (\<forall>fd. ep_watched interest p fd = (case a fd of Some (ev, _) \<Rightarrow> ev | None \<Rightarrow> 0))"
proof (rule ep.interest_run [OF _ assms(2,3)])
  show "interest_rel (ep_inv interest) ep_registered fdof
      (\<lambda>c. Channel_new (fdof c), EPollPoller_new k) (Map.empty, [])"
    using assms(1) by (simp add: interest_rel_def ep_inv_def EPollPoller_new_def Channel_new_def)
qed

end

subsection \<open>The interest list of the kernel\<close>

text \<open>
  The interest list of epoll(7) as a map from descriptors to events: adding a descriptor twice gives
  \<^verbatim>\<open>EEXIST\<close>, modifying or deleting one that is not there gives \<^verbatim>\<open>ENOENT\<close>.
\<close>

fun epoll_ctl_list :: "(int, epoll_event) smap epoll_ctl" where
  "epoll_ctl_list EPOLL_CTL_ADD fd ev k = (if map_of k fd = None then Some (smap_put fd ev k) else None)"
| "epoll_ctl_list EPOLL_CTL_MOD fd ev k = (if map_of k fd \<noteq> None then Some (smap_put fd ev k) else None)"
| "epoll_ctl_list EPOLL_CTL_DEL fd ev k = (if map_of k fd \<noteq> None then Some (smap_erase fd k) else None)"

interpretation epl: epoll_kernel epoll_ctl_list map_of
  by unfold_locales auto

subsection \<open>Active channels\<close>

lemma EPollPoller_fill_ok:
  assumes "\<forall>c \<in> snd ` set evs. map_of m (ch_fd (h c)) = Some c" "distinct (map snd evs)"
  shows "\<exists>h'. EPollPoller_fill m evs (h, active) = Some (h', active @ map snd evs)
    \<and> (\<forall>ev c. (ev, c) \<in> set evs \<longrightarrow> h' c = (h c)\<lparr>revents := ev\<rparr>)
    \<and> (\<forall>c. c \<notin> snd ` set evs \<longrightarrow> h' c = h c)"
  using assms
proof (induction evs arbitrary: h active)
  case (Cons e evs)
  obtain ev c where e: "e = (ev, c)" by fastforce
  let ?h = "h(c := (h c)\<lparr>revents := ev\<rparr>)"
  have c: "c \<notin> snd ` set evs" "distinct (map snd evs)" "map_of m (ch_fd (h c)) = Some c"
    using Cons.prems e by auto
  have "\<forall>d \<in> snd ` set evs. map_of m (ch_fd (?h d)) = Some d" using Cons.prems(1) by auto
  then obtain h' where h': "EPollPoller_fill m evs (?h, active @ [c]) = Some (h', (active @ [c]) @ map snd evs)"
    "\<forall>w d. (w, d) \<in> set evs \<longrightarrow> h' d = (?h d)\<lparr>revents := w\<rparr>" "\<forall>d. d \<notin> snd ` set evs \<longrightarrow> h' d = ?h d"
    using Cons.IH [of ?h "active @ [c]"] c(2) by blast
  have "d \<noteq> c" if "(w, d) \<in> set evs" for w d using that c(1) by force
  then show ?case
    using h' e c by (intro exI [of _ h']) auto
qed simp

definition pollfd_ok :: "channel_map \<Rightarrow> channels \<Rightarrow> pollfd \<Rightarrow> bool" where
  "pollfd_ok m h pfd \<longleftrightarrow> (pfd_revents pfd \<noteq> 0 \<longrightarrow>
     0 < sint (pfd_revents pfd) \<and> (\<exists>c. map_of m (pfd_fd pfd) = Some c \<and> ch_fd (h c) = pfd_fd pfd))"

lemma pollfd_ok_revents: "pollfd_ok m (h(c := (h c)\<lparr>revents := r\<rparr>)) pfd = pollfd_ok m h pfd"
proof -
  have "ch_fd ((h(c := (h c)\<lparr>revents := r\<rparr>)) d) = ch_fd (h d)" for d by simp
  then show ?thesis unfolding pollfd_ok_def by presburger
qed

lemma PollPoller_fill_ok:
  assumes "\<forall>pfd \<in> set fds. pollfd_ok m h pfd"
    and "num = length (filter (\<lambda>pfd. pfd_revents pfd \<noteq> 0) fds)"
  shows "\<exists>h'. PollPoller_fillActiveChannels m fds num (h, active) =
      Some (h', active @ map (\<lambda>pfd. the (map_of m (pfd_fd pfd))) (filter (\<lambda>pfd. pfd_revents pfd \<noteq> 0) fds))
    \<and> (\<forall>c. events (h' c) = events (h c))"
  using assms
proof (induction fds arbitrary: h active num)
  case (Cons pfd fds)
  show ?case
  proof (cases "pfd_revents pfd = 0")
    case True
    then show ?thesis
      using Cons.IH [of h num active] Cons.prems by (cases num) auto
  next
    case False
    then obtain c where c: "0 < sint (pfd_revents pfd)" "map_of m (pfd_fd pfd) = Some c" "ch_fd (h c) = pfd_fd pfd"
      using Cons.prems(1) by (auto simp: pollfd_ok_def)
    let ?h = "h(c := (h c)\<lparr>revents := scast (pfd_revents pfd)\<rparr>)"
    have ok: "\<forall>pfd \<in> set fds. pollfd_ok m ?h pfd" unfolding pollfd_ok_revents using Cons.prems(1) by simp
    have num: "num - 1 = length (filter (\<lambda>pfd. pfd_revents pfd \<noteq> 0) fds)" "0 < num"
      using Cons.prems(2) False by auto
    obtain h' where h': "PollPoller_fillActiveChannels m fds (num - 1) (?h, active @ [c]) =
        Some (h', (active @ [c]) @ map (\<lambda>pfd. the (map_of m (pfd_fd pfd))) (filter (\<lambda>pfd. pfd_revents pfd \<noteq> 0) fds))"
      "\<forall>d. events (h' d) = events (?h d)"
      using Cons.IH [OF ok num(1)] by blast
    have "\<forall>d. events (h' d) = events (h d)" using h'(2) by auto
    then show ?thesis using c False num h'(1) by (intro exI [of _ h']) auto
  qed
qed simp

subsection \<open>Properties\<close>

text \<open>
  C5. Both pollers track the interest of the channels.  For every sequence of channel operations that
  the specification allows, on either backend and with a kernel that behaves as documented, no
  assertion fails; afterwards the registered channels are those of the specification, and the events
  that the kernel watches on each descriptor are the events of its channel.
\<close>

theorem Poller_tracks_interest:
  assumes "epoll_kernel ctl interest" "\<forall>fd. interest k fd = None" "\<forall>c. 0 \<le> fdof c"
    and "run_ops (interest_step fdof) ops (Map.empty, []) = Some (a, gone)"
  shows "(\<exists>h p. run_ops (channel_step (EPollPoller_updateChannel ctl) (EPollPoller_removeChannel ctl)) ops
            (\<lambda>c. Channel_new (fdof c), EPollPoller_new k) = Some (h, p)
          \<and> (\<forall>fd. map_of (ep_channels p) fd = map_option snd (a fd))
          \<and> (\<forall>fd. ep_watched interest p fd = (case a fd of Some (ev, _) \<Rightarrow> ev | None \<Rightarrow> 0)))
    \<and> (\<exists>h p. run_ops (channel_step PollPoller_updateChannel PollPoller_removeChannel) ops
            (\<lambda>c. Channel_new (fdof c), PollPoller_new) = Some (h, p)
          \<and> (\<forall>fd. map_of (pp_channels p) fd = map_option snd (a fd))
          \<and> (\<forall>fd. pp_watched p fd = (case a fd of Some (ev, _) \<Rightarrow> ev | None \<Rightarrow> 0)))"
proof
  have fd: "0 \<le> fdof c" for c using assms(3) by simp
  show "\<exists>h p. run_ops (channel_step (EPollPoller_updateChannel ctl) (EPollPoller_removeChannel ctl)) ops
            (\<lambda>c. Channel_new (fdof c), EPollPoller_new k) = Some (h, p)
          \<and> (\<forall>fd. map_of (ep_channels p) fd = map_option snd (a fd))
          \<and> (\<forall>fd. ep_watched interest p fd = (case a fd of Some (ev, _) \<Rightarrow> ev | None \<Rightarrow> 0))"
    by (rule epoll_kernel.ep_interest_run [OF assms(1,2) fd assms(4)])
  have "interest_rel pp_inv pp_registered fdof (\<lambda>c. Channel_new (fdof c), PollPoller_new) (Map.empty, [])"
    by (simp add: interest_rel_def pp_inv_def PollPoller_new_def Channel_new_def)
  then show "\<exists>h p. run_ops (channel_step PollPoller_updateChannel PollPoller_removeChannel) ops
            (\<lambda>c. Channel_new (fdof c), PollPoller_new) = Some (h, p)
          \<and> (\<forall>fd. map_of (pp_channels p) fd = map_option snd (a fd))
          \<and> (\<forall>fd. pp_watched p fd = (case a fd of Some (ev, _) \<Rightarrow> ev | None \<Rightarrow> 0))"
    by (rule pp.interest_run [OF _ fd assms(4)])
qed

theorem Poller_tracks_interest_witness:
  "\<exists>h p. run_ops (channel_step (EPollPoller_updateChannel epoll_ctl_list) (EPollPoller_removeChannel epoll_ctl_list))
       [EnableReading 0, EnableReading 1, EnableWriting 0, DisableReading 0, DisableAll 1, RemoveChannel 1]
       (\<lambda>c. Channel_new (int c + 5), EPollPoller_new []) = Some (h, p)
     \<and> map_of (ep_channels p) 5 = Some 0 \<and> ep_watched map_of p 5 = 4 \<and> map_of (ep_channels p) 6 = None"
proof -
  let ?ops = "[EnableReading 0, EnableReading 1, EnableWriting 0, DisableReading 0, DisableAll 1, RemoveChannel 1]"
  have run: "run_ops (interest_step (\<lambda>c. int c + 5)) ?ops (Map.empty, []) = Some ([5 \<mapsto> (4, 0)], [1])"
    by (simp add: interest_set_def event_consts fun_eq_iff)
  have "epoll_kernel epoll_ctl_list map_of" by unfold_locales
  from Poller_tracks_interest [OF this _ _ run, of "[]"] show ?thesis by force
qed


text \<open>
  Dispatch is exact.  When \<^verbatim>\<open>epoll_wait\<close> reports distinct entries of the interest list, within the
  size of the array, \<open>poll\<close> passes its assertions, the active channels are the reported ones in order,
  each with the reported events, no other channel changes, and the array has room for more next time.
\<close>

lemma EPollPoller_poll_exact:
  assumes "ep_inv interest h p" "distinct (map snd evs)" "length evs \<le> ep_events_size p" "0 < ep_events_size p"
    and "\<forall>c \<in> snd ` set evs. \<exists>fd ev. interest (ep_kernel p) fd = Some (ev, c)"
  shows "\<exists>h' p'. EPollPoller_poll (Inr evs) (h, [], p) = Some (h', map snd evs, p')
    \<and> (\<forall>ev c. (ev, c) \<in> set evs \<longrightarrow> h' c = (h c)\<lparr>revents := ev\<rparr>)
    \<and> (\<forall>c. c \<notin> snd ` set evs \<longrightarrow> h' c = h c)
    \<and> ep_inv interest h' p' \<and> length evs < ep_events_size p'"
proof -
  have reg: "map_of (ep_channels p) (ch_fd (h c)) = Some c" if c: "c \<in> snd ` set evs" for c
  proof -
    obtain fd ev where fd: "interest (ep_kernel p) fd = Some (ev, c)" using assms(5) c by blast
    then obtain d where d: "ep_registered p fd = Some d" using ep_inv_None [OF assms(1), of fd] by fastforce
    then show ?thesis using ep_inv_Some [OF assms(1) d] fd by (auto simp: ep_channel_ok_def)
  qed
  then obtain h' where h': "EPollPoller_fill (ep_channels p) evs (h, []) = Some (h', map snd evs)"
    "\<forall>ev c. (ev, c) \<in> set evs \<longrightarrow> h' c = (h c)\<lparr>revents := ev\<rparr>" "\<forall>c. c \<notin> snd ` set evs \<longrightarrow> h' c = h c"
    using EPollPoller_fill_ok [of evs "ep_channels p" h "[]"] assms(2) by auto
  have same: "ch_fd (h' c) = ch_fd (h c) \<and> ch_index (h' c) = ch_index (h c) \<and> events (h' c) = events (h c)" for c
    using h'(2,3) by (cases "c \<in> snd ` set evs") auto
  have inv: "ep_inv interest h' q" if "ep_channels q = ep_channels p" "ep_kernel q = ep_kernel p" for q
    using assms(1) unfolding ep_inv_def ep_channel_ok_def
    by (simp add: that same cong: option.case_cong)
  show ?thesis
  proof (cases "evs = []")
    case True
    then show ?thesis using assms(1,4) by (simp add: EPollPoller_poll_def)
  next
    case False
    let ?p = "if length evs = ep_events_size p then p\<lparr>ep_events_size := ep_events_size p * 2\<rparr> else p"
    have "EPollPoller_poll (Inr evs) (h, [], p) = Some (h', map snd evs, ?p)"
      using False assms(3) h'(1) by (simp add: EPollPoller_poll_def EPollPoller_fillActiveChannels_def)
    moreover have "length evs < ep_events_size ?p" using assms(3,4) by auto
    moreover have "ep_inv interest h' ?p" by (rule inv) simp_all
    ultimately show ?thesis using h'(2,3) by blast
  qed
qed

end
