(* ===== verification/Net_TimerQueue.thy ===== *)
theory Net_TimerQueue
  imports Base_Timestamp
begin

section \<open>The timer queue\<close>

text \<open>
  \<^verbatim>\<open>muduo/net/TimerQueue.cc\<close>, \<^verbatim>\<open>Timer.cc\<close> and \<^verbatim>\<open>TimerId.h\<close>: the timers of an event loop, driven by one
  timerfd.  Timers are heap objects that the queue owns through raw pointers, so the model has a heap
  from addresses to timers; using or deleting a pointer that is not in the heap is \<open>None\<close>.

  The two \<^verbatim>\<open>std::set\<close>s are strictly ascending lists.  \<^verbatim>\<open>operator new\<close> is a parameter \<open>alloc\<close>, whose
  documented behaviour is to return an address that is not in use.  The callback of a timer is a list
  of calls of \<^verbatim>\<open>addTimer\<close> and \<^verbatim>\<open>cancel\<close>, chosen by a parameter \<open>cb\<close> that knows the timer's sequence
  number; they run in the thread of the loop, so \<^verbatim>\<open>runInLoop\<close> performs them at once.  Every clock
  reading is an argument.  An interval is given by \<^verbatim>\<open>interval > 0.0\<close> and by its conversion to
  microseconds.  The field \<open>runs\<close> is a history of the callbacks that were called, \<open>alarm\<close> the moment for
  which the timerfd is armed.
\<close>

type_synonym addr = nat

record Timer =
  expiration :: Timestamp
  interval :: int
  repeat :: bool
  sequence :: int

type_synonym TimerId = "addr \<times> int"
type_synonym timer_entry = "Timestamp \<times> addr"

record TimerQueue =
  timers :: "timer_entry list"
  activeTimers :: "TimerId list"
  callingExpiredTimers :: bool
  cancelingTimers :: "TimerId list"
  theap :: "(addr, Timer) smap"
  numCreated :: int
  alarm :: "Timestamp option"
  runs :: "int list"

definition TimerQueue_new :: TimerQueue where
  "TimerQueue_new =
     \<lparr>timers = [], activeTimers = [], callingExpiredTimers = False, cancelingTimers = [],
      theap = [], numCreated = 0, alarm = None, runs = []\<rparr>"

text \<open>\<^verbatim>\<open>std::set::insert\<close>, with the flag whether the element is new, and \<^verbatim>\<open>std::set::erase\<close> with the count.\<close>

definition set_insert :: "'a::linorder \<Rightarrow> 'a list \<Rightarrow> 'a list \<times> bool" where
  "set_insert x xs = (if x \<in> set xs then (xs, False) else (insort x xs, True))"

definition set_erase :: "'a \<Rightarrow> 'a list \<Rightarrow> 'a list \<times> nat" where
  "set_erase x xs = (remove1 x xs, if x \<in> set xs then 1 else 0)"

subsection \<open>Timers and the timerfd\<close>

definition Timer_new :: "Timestamp \<Rightarrow> int \<Rightarrow> bool \<Rightarrow> int \<Rightarrow> Timer" where
  "Timer_new when us rep seq = \<lparr>expiration = when, interval = us, repeat = rep, sequence = seq\<rparr>"

definition Timer_restart :: "Timestamp \<Rightarrow> Timer \<Rightarrow> Timer" where
  "Timer_restart now t =
     (if repeat t then t\<lparr>expiration := addTime now (interval t)\<rparr>
      else t\<lparr>expiration := Timestamp_invalid\<rparr>)"

text \<open>The seconds and nanoseconds of a \<^verbatim>\<open>timespec\<close>.\<close>

definition howMuchTimeFromNow :: "Timestamp \<Rightarrow> Timestamp \<Rightarrow> int \<times> int" where
  "howMuchTimeFromNow now when =
     (let microseconds = microSecondsSinceEpoch when - microSecondsSinceEpoch now;
          microseconds = (if microseconds < 100 then 100 else microseconds)
      in (microseconds sdiv kMicroSecondsPerSecond, microseconds smod kMicroSecondsPerSecond * 1000))"

text \<open>\<^verbatim>\<open>timerfd_settime\<close> arms the timer for a moment relative to the present.\<close>

definition resetTimerfd :: "Timestamp \<Rightarrow> Timestamp \<Rightarrow> TimerQueue \<Rightarrow> TimerQueue" where
  "resetTimerfd now when q =
     (let (tv_sec, tv_nsec) = howMuchTimeFromNow now when
      in q\<lparr>alarm := Some (addTime now (tv_sec * kMicroSecondsPerSecond + tv_nsec div 1000))\<rparr>)"

subsection \<open>The queue\<close>

definition TimerQueue_insert :: "addr \<Rightarrow> TimerQueue \<Rightarrow> (bool \<times> TimerQueue) option" where
  "TimerQueue_insert p q = do {
     cassert (length (timers q) = length (activeTimers q));
     timer \<leftarrow> map_of (theap q) p;
     let when = expiration timer;
     let earliestChanged = (timers q = [] \<or> when < fst (hd (timers q)));
     let (ts, new1) = set_insert (when, p) (timers q);
     cassert new1;
     let (as, new2) = set_insert (p, sequence timer) (activeTimers q);
     cassert new2;
     cassert (length ts = length as);
     Some (earliestChanged, q\<lparr>timers := ts, activeTimers := as\<rparr>)
   }"

definition addTimerInLoop :: "Timestamp \<Rightarrow> addr \<Rightarrow> TimerQueue \<Rightarrow> TimerQueue option" where
  "addTimerInLoop now p q = do {
     (earliestChanged, q) \<leftarrow> TimerQueue_insert p q;
     timer \<leftarrow> map_of (theap q) p;
     Some (if earliestChanged then resetTimerfd now (expiration timer) q else q)
   }"

definition addTimer :: "((addr, Timer) smap \<Rightarrow> addr) \<Rightarrow> Timestamp \<Rightarrow> Timestamp \<Rightarrow> int \<Rightarrow> bool \<Rightarrow> TimerQueue
    \<Rightarrow> (TimerId \<times> TimerQueue) option" where
  "addTimer alloc now when us rep q =
     (let p = alloc (theap q);
          seq = numCreated q + 1;
          q = q\<lparr>theap := smap_put p (Timer_new when us rep seq) (theap q), numCreated := seq\<rparr>
      in do { q \<leftarrow> addTimerInLoop now p q; Some ((p, seq), q) })"

definition delete_timer :: "addr \<Rightarrow> TimerQueue \<Rightarrow> TimerQueue option" where
  "delete_timer p q = do {
     cassert (map_of (theap q) p \<noteq> None);
     Some (q\<lparr>theap := smap_erase p (theap q)\<rparr>)
   }"

definition cancelInLoop :: "TimerId \<Rightarrow> TimerQueue \<Rightarrow> TimerQueue option" where
  "cancelInLoop timer q = do {
     cassert (length (timers q) = length (activeTimers q));
     q \<leftarrow> (if timer \<in> set (activeTimers q)
       then do {
         t \<leftarrow> map_of (theap q) (fst timer);
         let (ts, n) = set_erase (expiration t, fst timer) (timers q);
         cassert (n = 1);
         q \<leftarrow> delete_timer (fst timer) (q\<lparr>timers := ts\<rparr>);
         Some (q\<lparr>activeTimers := fst (set_erase timer (activeTimers q))\<rparr>)
       }
       else Some (if callingExpiredTimers q
                  then q\<lparr>cancelingTimers := fst (set_insert timer (cancelingTimers q))\<rparr> else q));
     cassert (length (timers q) = length (activeTimers q));
     Some q
   }"

text \<open>The sentry's pointer \<^verbatim>\<open>UINTPTR_MAX\<close> is above the address of every object.\<close>

definition before_sentry :: "Timestamp \<Rightarrow> timer_entry \<Rightarrow> bool" where
  "before_sentry now e \<longleftrightarrow> fst e \<le> now"

fun erase_expired :: "timer_entry list \<Rightarrow> TimerQueue \<Rightarrow> TimerQueue option" where
  "erase_expired [] q = Some q"
| "erase_expired (it # expired) q = do {
     t \<leftarrow> map_of (theap q) (snd it);
     let (as, n) = set_erase (snd it, sequence t) (activeTimers q);
     cassert (n = 1);
     erase_expired expired (q\<lparr>activeTimers := as\<rparr>)
   }"

definition getExpired :: "Timestamp \<Rightarrow> TimerQueue \<Rightarrow> (timer_entry list \<times> TimerQueue) option" where
  "getExpired now q = do {
     cassert (length (timers q) = length (activeTimers q));
     let expired = takeWhile (before_sentry now) (timers q);
     let rest = dropWhile (before_sentry now) (timers q);
     cassert (rest = [] \<or> now < fst (hd rest));
     q \<leftarrow> erase_expired expired (q\<lparr>timers := rest\<rparr>);
     cassert (length (timers q) = length (activeTimers q));
     Some (expired, q)
   }"

text \<open>The first loop of \<^verbatim>\<open>reset\<close>.\<close>

fun reinsert :: "Timestamp \<Rightarrow> timer_entry list \<Rightarrow> TimerQueue \<Rightarrow> TimerQueue option" where
  "reinsert now [] q = Some q"
| "reinsert now (it # expired) q = do {
     t \<leftarrow> map_of (theap q) (snd it);
     q \<leftarrow> (if repeat t \<and> (snd it, sequence t) \<notin> set (cancelingTimers q)
           then do {
             (_, q) \<leftarrow> TimerQueue_insert (snd it)
                        (q\<lparr>theap := smap_put (snd it) (Timer_restart now t) (theap q)\<rparr>);
             Some q
           }
           else delete_timer (snd it) q);
     reinsert now expired q
   }"

definition TimerQueue_reset :: "Timestamp \<Rightarrow> timer_entry list \<Rightarrow> Timestamp \<Rightarrow> TimerQueue \<Rightarrow> TimerQueue option" where
  "TimerQueue_reset now2 expired now q = do {
     q \<leftarrow> reinsert now expired q;
     nextExpire \<leftarrow> (if timers q \<noteq> []
       then do { t \<leftarrow> map_of (theap q) (snd (hd (timers q))); Some (expiration t) }
       else Some Timestamp_invalid);
     Some (if Timestamp_valid nextExpire then resetTimerfd now2 nextExpire q else q)
   }"

subsection \<open>Callbacks\<close>

datatype timer_op = AddTimer Timestamp int bool | CancelTimer TimerId

text \<open>The first component is the clock when the call happens.\<close>

fun timer_op_step :: "((addr, Timer) smap \<Rightarrow> addr) \<Rightarrow> Timestamp \<times> timer_op \<Rightarrow> TimerQueue \<Rightarrow> TimerQueue option" where
  "timer_op_step alloc (now, AddTimer when us rep) q = map_option snd (addTimer alloc now when us rep q)"
| "timer_op_step alloc (now, CancelTimer timerId) q = cancelInLoop timerId q"

type_synonym timer_callbacks = "int \<Rightarrow> (Timestamp \<times> timer_op) list"

definition Timer_run ::
  "((addr, Timer) smap \<Rightarrow> addr) \<Rightarrow> timer_callbacks \<Rightarrow> timer_entry \<Rightarrow> TimerQueue \<Rightarrow> TimerQueue option" where
  "Timer_run alloc cb it q = do {
     t \<leftarrow> map_of (theap q) (snd it);
     run_ops (timer_op_step alloc) (cb (sequence t)) (q\<lparr>runs := runs q @ [sequence t]\<rparr>)
   }"

text \<open>The timerfd is disarmed when it has expired.\<close>

definition TimerQueue_handleRead ::
  "((addr, Timer) smap \<Rightarrow> addr) \<Rightarrow> timer_callbacks \<Rightarrow> Timestamp \<Rightarrow> Timestamp \<Rightarrow> TimerQueue \<Rightarrow> TimerQueue option" where
  "TimerQueue_handleRead alloc cb now now2 q = do {
     (expired, q) \<leftarrow> getExpired now (q\<lparr>alarm := None\<rparr>);
     let q = q\<lparr>callingExpiredTimers := True, cancelingTimers := []\<rparr>;
     q \<leftarrow> run_ops (Timer_run alloc cb) expired q;
     let q = q\<lparr>callingExpiredTimers := False\<rparr>;
     TimerQueue_reset now2 expired now q
   }"

text \<open>The destructor deletes the timers.\<close>

definition TimerQueue_dtor :: "TimerQueue \<Rightarrow> TimerQueue option" where
  "TimerQueue_dtor q = run_ops (\<lambda>e. delete_timer (snd e)) (timers q) q"

subsection \<open>The invariant\<close>

text \<open>
  The heap holds exactly the scheduled timers and the timers \<open>E\<close> that \<^verbatim>\<open>handleRead\<close> has taken out of
  the queue; both sets describe the scheduled ones; sequence numbers are unique.
\<close>

abbreviation timer_at :: "TimerQueue \<Rightarrow> addr \<Rightarrow> Timer option" where
  "timer_at q \<equiv> map_of (theap q)"

definition scheduled :: "addr set \<Rightarrow> TimerQueue \<Rightarrow> addr set" where
  "scheduled E q = dom (timer_at q) - E"

definition entry_of :: "TimerQueue \<Rightarrow> addr \<Rightarrow> timer_entry" where
  "entry_of q p = (expiration (the (timer_at q p)), p)"

definition id_of :: "TimerQueue \<Rightarrow> addr \<Rightarrow> TimerId" where
  "id_of q p = (p, sequence (the (timer_at q p)))"

definition TQ_inv :: "addr set \<Rightarrow> TimerQueue \<Rightarrow> bool" where
  "TQ_inv E q \<longleftrightarrow> E \<subseteq> dom (timer_at q)
     \<and> sorted_wrt (<) (timers q) \<and> set (timers q) = entry_of q ` scheduled E q
     \<and> sorted_wrt (<) (activeTimers q) \<and> set (activeTimers q) = id_of q ` scheduled E q
     \<and> (\<forall>p t. timer_at q p = Some t \<longrightarrow> sequence t \<le> numCreated q)
     \<and> (\<forall>p t p' t'. timer_at q p = Some t \<longrightarrow> timer_at q p' = Some t' \<longrightarrow> sequence t = sequence t' \<longrightarrow> p = p')"

lemma set_insert_ok:
  assumes "sorted_wrt (<) xs" "x \<notin> set xs"
  obtains ys where "set_insert x xs = (ys, True)" "sorted_wrt (<) ys" "set ys = insert x (set xs)"
proof
  show "set_insert x xs = (insort x xs, True)" using assms(2) by (simp add: set_insert_def)
  show "sorted_wrt (<) (insort x xs)" "set (insort x xs) = insert x (set xs)"
    using assms by (simp_all add: strict_sorted_iff sorted_insort distinct_insort set_insort_key)
qed

lemma set_erase_ok:
  assumes "sorted_wrt (<) (xs :: 'a::linorder list)" "x \<in> set xs"
  obtains ys where "set_erase x xs = (ys, 1)" "sorted_wrt (<) ys" "set ys = set xs - {x}"
proof
  show "set_erase x xs = (remove1 x xs, 1)" using assms(2) by (simp add: set_erase_def)
  show "sorted_wrt (<) (remove1 x xs)" "set (remove1 x xs) = set xs - {x}"
    using assms(1) by (simp_all add: strict_sorted_iff sorted_remove1)
qed

lemma TQ_new [simp]: "TQ_inv {} TimerQueue_new"
  by (simp add: TQ_inv_def TimerQueue_new_def scheduled_def)

lemma sorted_set_length:
  assumes "sorted_wrt (<) (xs :: 'a::linorder list)" "sorted_wrt (<) (ys :: 'b::linorder list)"
    and "set xs = f ` A" "set ys = g ` A" "inj_on f A" "inj_on g A"
  shows "length xs = length ys"
proof -
  have "length xs = card (set xs)" "length ys = card (set ys)"
    using assms(1,2) by (simp_all add: strict_sorted_iff distinct_card)
  then show ?thesis using assms(3-6) by (simp add: card_image)
qed

lemma TQ_length:
  assumes "TQ_inv E q"
  shows "length (timers q) = length (activeTimers q)"
proof -
  have "inj_on (entry_of q) A" "inj_on (id_of q) A" for A
    by (auto simp: inj_on_def entry_of_def id_of_def)
  then show ?thesis
    using sorted_set_length [of "timers q" "activeTimers q" "entry_of q" "scheduled E q" "id_of q"] assms
    by (simp add: TQ_inv_def)
qed

lemma TQ_timers: "TQ_inv E q \<Longrightarrow>
    (w, p) \<in> set (timers q) \<longleftrightarrow> (\<exists>t. timer_at q p = Some t \<and> expiration t = w \<and> p \<notin> E)"
  by (auto simp: TQ_inv_def scheduled_def entry_of_def image_iff)

lemma TQ_active: "TQ_inv E q \<Longrightarrow>
    (p, s) \<in> set (activeTimers q) \<longleftrightarrow> (\<exists>t. timer_at q p = Some t \<and> sequence t = s \<and> p \<notin> E)"
  by (auto simp: TQ_inv_def scheduled_def id_of_def image_iff)

text \<open>The fields that the invariant does not read.\<close>

lemma TQ_inv_frame [simp]:
  "TQ_inv E (q\<lparr>alarm := a\<rparr>) = TQ_inv E q" "TQ_inv E (q\<lparr>runs := r\<rparr>) = TQ_inv E q"
  "TQ_inv E (q\<lparr>callingExpiredTimers := c\<rparr>) = TQ_inv E q"
  "TQ_inv E (q\<lparr>cancelingTimers := x\<rparr>) = TQ_inv E q"
  by (simp_all add: TQ_inv_def scheduled_def entry_of_def [abs_def] id_of_def [abs_def])

lemma resetTimerfd_frame [simp]:
  "timers (resetTimerfd now w q) = timers q" "activeTimers (resetTimerfd now w q) = activeTimers q"
  "theap (resetTimerfd now w q) = theap q" "runs (resetTimerfd now w q) = runs q"
  "numCreated (resetTimerfd now w q) = numCreated q"
  "callingExpiredTimers (resetTimerfd now w q) = callingExpiredTimers q"
  "cancelingTimers (resetTimerfd now w q) = cancelingTimers q"
  "TQ_inv E (resetTimerfd now w q) = TQ_inv E q"
  by (simp_all add: resetTimerfd_def split: prod.splits)

subsection \<open>Every operation keeps the invariant\<close>

definition tq_frame :: "TimerQueue \<Rightarrow> TimerQueue \<Rightarrow> bool" where
  "tq_frame q q' \<longleftrightarrow> runs q' = runs q \<and> callingExpiredTimers q' = callingExpiredTimers q"

lemma tq_frame_refl [simp]: "tq_frame q q"
  by (simp add: tq_frame_def)

lemma tq_frame_trans: "tq_frame q q1 \<Longrightarrow> tq_frame q1 q2 \<Longrightarrow> tq_frame q q2"
  by (simp add: tq_frame_def)

lemma TimerQueue_insert_ok:
  assumes inv: "TQ_inv E q" and p: "p \<in> E"
  obtains b q' where "TimerQueue_insert p q = Some (b, q')" "TQ_inv (E - {p}) q'"
    "theap q' = theap q" "numCreated q' = numCreated q" "cancelingTimers q' = cancelingTimers q"
    "alarm q' = alarm q" "tq_frame q q'" "b \<longleftrightarrow> timers q = [] \<or> expiration (the (timer_at q p)) < fst (hd (timers q))"
proof -
  obtain t where t: "timer_at q p = Some t" using inv p by (auto simp: TQ_inv_def)
  have "(expiration t, p) \<notin> set (timers q)" "(p, sequence t) \<notin> set (activeTimers q)"
    using TQ_timers [OF inv] TQ_active [OF inv] p by auto
  moreover have "sorted_wrt (<) (timers q)" "sorted_wrt (<) (activeTimers q)" using inv by (auto simp: TQ_inv_def)
  ultimately obtain ts as where
    ts: "set_insert (expiration t, p) (timers q) = (ts, True)" "sorted_wrt (<) ts"
      "set ts = insert (expiration t, p) (set (timers q))" and
    as: "set_insert (p, sequence t) (activeTimers q) = (as, True)" "sorted_wrt (<) as"
      "set as = insert (p, sequence t) (set (activeTimers q))"
    by (metis set_insert_ok)
  let ?q = "q\<lparr>timers := ts, activeTimers := as\<rparr>"
  have "scheduled (E - {p}) ?q = insert p (scheduled E q)" using t by (auto simp: scheduled_def)
  moreover have "entry_of ?q = entry_of q" "id_of ?q = id_of q"
    by (auto simp: entry_of_def id_of_def fun_eq_iff)
  ultimately have inv': "TQ_inv (E - {p}) ?q"
    using inv ts as t by (auto simp: TQ_inv_def entry_of_def id_of_def)
  have "TimerQueue_insert p q = Some (timers q = [] \<or> expiration t < fst (hd (timers q)), ?q)"
    using TQ_length [OF inv] TQ_length [OF inv'] ts(1) as(1) t
    by (simp add: TimerQueue_insert_def Let_def)
  then show ?thesis
    using inv' t by (intro that [of "timers q = [] \<or> expiration t < fst (hd (timers q))" ?q]) (auto simp: tq_frame_def)
qed

lemma delete_timer_ok:
  assumes inv: "TQ_inv E q" and p: "p \<in> E"
  obtains q' where "delete_timer p q = Some q'" "TQ_inv (E - {p}) q'"
    "theap q' = smap_erase p (theap q)" "numCreated q' = numCreated q" "cancelingTimers q' = cancelingTimers q"
    "alarm q' = alarm q" "tq_frame q q'"
proof -
  let ?q = "q\<lparr>theap := smap_erase p (theap q)\<rparr>"
  have dom: "p \<in> dom (timer_at q)" using inv p by (auto simp: TQ_inv_def)
  have "scheduled (E - {p}) ?q = scheduled E q" using p by (auto simp: scheduled_def split: if_splits)
  moreover have "entry_of ?q x = entry_of q x" "id_of ?q x = id_of q x" if "x \<in> scheduled E q" for x
    using that p by (auto simp: entry_of_def id_of_def scheduled_def)
  ultimately have "TQ_inv (E - {p}) ?q"
    using inv by (auto simp: TQ_inv_def cong: image_cong split: if_splits)
  then show ?thesis using dom by (intro that [of ?q]) (auto simp: delete_timer_def tq_frame_def)
qed

lemma addTimer_ok:
  assumes inv: "TQ_inv E q" and alloc: "\<And>h. map_of h (alloc h) = None"
  obtains p q' where "addTimer alloc now w us rep q = Some ((p, numCreated q + 1), q')" "TQ_inv E q'"
    "timer_at q p = None" "timer_at q' = (timer_at q)(p \<mapsto> Timer_new w us rep (numCreated q + 1))"
    "numCreated q' = numCreated q + 1" "tq_frame q q'" "cancelingTimers q' = cancelingTimers q"
    "alarm q' = (if timers q = [] \<or> w < fst (hd (timers q)) then alarm (resetTimerfd now w q) else alarm q)"
proof -
  let ?p = "alloc (theap q)" and ?s = "numCreated q + 1"
  let ?t = "Timer_new w us rep ?s"
  let ?q = "q\<lparr>theap := smap_put ?p ?t (theap q), numCreated := ?s\<rparr>"
  have new: "timer_at q ?p = None" by (rule alloc)
  then have pE: "?p \<notin> E" using inv by (auto simp: TQ_inv_def)
  have "scheduled (insert ?p E) ?q = scheduled E q" using new by (auto simp: scheduled_def split: if_splits)
  moreover have "entry_of ?q x = entry_of q x" "id_of ?q x = id_of q x" if "x \<in> scheduled E q" for x
    using that new by (auto simp: entry_of_def id_of_def scheduled_def)
  moreover have "\<And>p t. timer_at q p = Some t \<Longrightarrow> sequence t \<le> numCreated q" using inv by (simp add: TQ_inv_def)
  ultimately have inv': "TQ_inv (insert ?p E) ?q"
    using inv unfolding TQ_inv_def
    by (auto simp: Timer_new_def cong: image_cong split: if_splits) fastforce+
  obtain b q' where q': "TimerQueue_insert ?p ?q = Some (b, q')" "TQ_inv (insert ?p E - {?p}) q'"
    "theap q' = theap ?q" "numCreated q' = numCreated ?q" "cancelingTimers q' = cancelingTimers ?q"
    "alarm q' = alarm ?q" "tq_frame ?q q'" "b \<longleftrightarrow> timers ?q = [] \<or> expiration (the (timer_at ?q ?p)) < fst (hd (timers ?q))"
    by (rule TimerQueue_insert_ok [OF inv', of ?p]) auto
  have E: "insert ?p E - {?p} = E" using pE by auto
  let ?q' = "if b then resetTimerfd now w q' else q'"
  have "addTimer alloc now w us rep q = Some ((?p, ?s), ?q')"
    using q'(1,3) by (simp add: addTimer_def addTimerInLoop_def Let_def Timer_new_def)
  then show ?thesis
    using q' new unfolding E
    by (intro that [of ?p ?q']) (auto simp: tq_frame_def Timer_new_def resetTimerfd_def Let_def split: prod.splits)
qed

lemma cancelInLoop_active:
  assumes inv: "TQ_inv E q" and a: "(p, s) \<in> set (activeTimers q)"
  obtains q' where "cancelInLoop (p, s) q = Some q'" "TQ_inv E q'"
    "timer_at q' = (timer_at q)(p := None)" "numCreated q' = numCreated q" "cancelingTimers q' = cancelingTimers q"
    "alarm q' = alarm q" "tq_frame q q'" "set (timers q') \<subseteq> set (timers q)" "p \<notin> E"
proof -
  obtain t where t: "timer_at q p = Some t" "sequence t = s" "p \<notin> E" using TQ_active [OF inv] a by blast
  then have w: "(expiration t, p) \<in> set (timers q)" using TQ_timers [OF inv] by blast
  have srt: "sorted_wrt (<) (timers q)" "sorted_wrt (<) (activeTimers q)" using inv by (auto simp: TQ_inv_def)
  obtain ts where ts: "set_erase (expiration t, p) (timers q) = (ts, 1)" "sorted_wrt (<) ts"
    "set ts = set (timers q) - {(expiration t, p)}" by (rule set_erase_ok [OF srt(1) w])
  obtain as where as: "set_erase (p, s) (activeTimers q) = (as, 1)" "sorted_wrt (<) as"
    "set as = set (activeTimers q) - {(p, s)}" by (rule set_erase_ok [OF srt(2) a])
  let ?q = "q\<lparr>timers := ts, theap := smap_erase p (theap q), activeTimers := as\<rparr>"
  have sch: "scheduled E ?q = scheduled E q - {p}" by (auto simp: scheduled_def split: if_splits)
  have same: "entry_of ?q x = entry_of q x" "id_of ?q x = id_of q x" if "x \<in> scheduled E q - {p}" for x
    using that by (auto simp: entry_of_def id_of_def)
  have inj: "inj (entry_of q)" "inj (id_of q)" by (auto simp: inj_def entry_of_def id_of_def)
  have here: "entry_of q p = (expiration t, p)" "id_of q p = (p, s)" using t by (simp_all add: entry_of_def id_of_def)
  have im: "entry_of ?q ` (scheduled E q - {p}) = entry_of q ` scheduled E q - {(expiration t, p)}"
    "id_of ?q ` (scheduled E q - {p}) = id_of q ` scheduled E q - {(p, s)}"
  proof -
    have "entry_of ?q ` (scheduled E q - {p}) = entry_of q ` (scheduled E q - {p})"
      "id_of ?q ` (scheduled E q - {p}) = id_of q ` (scheduled E q - {p})"
      by (rule image_cong, rule refl, erule same)+
    then show "entry_of ?q ` (scheduled E q - {p}) = entry_of q ` scheduled E q - {(expiration t, p)}"
      "id_of ?q ` (scheduled E q - {p}) = id_of q ` scheduled E q - {(p, s)}"
      by (simp_all add: image_set_diff inj here)
  qed
  have "set (timers q) = entry_of q ` scheduled E q" "set (activeTimers q) = id_of q ` scheduled E q"
    using inv by (simp_all add: TQ_inv_def)
  then have "set ts = entry_of ?q ` scheduled E ?q" "set as = id_of ?q ` scheduled E ?q"
    unfolding ts(3) as(3) sch im by simp_all
  moreover have "E \<subseteq> dom (timer_at ?q)" using inv t(3) by (auto simp: TQ_inv_def)
  ultimately have inv': "TQ_inv E ?q"
    using inv ts(2) as(2) unfolding TQ_inv_def by (simp split: if_splits) blast
  have "cancelInLoop (p, s) q = Some ?q"
    using a t(1) ts(1) as(1) TQ_length [OF inv] TQ_length [OF inv']
    by (simp add: cancelInLoop_def delete_timer_def Let_def)
  then show ?thesis using inv' ts(3) t(3) by (intro that [of ?q]) (auto simp: tq_frame_def)
qed

lemma cancelInLoop_inactive:
  assumes "TQ_inv E q" "x \<notin> set (activeTimers q)"
  shows "cancelInLoop x q = Some (if callingExpiredTimers q
    then q\<lparr>cancelingTimers := fst (set_insert x (cancelingTimers q))\<rparr> else q)"
  using assms(2) TQ_length [OF assms(1)] by (simp add: cancelInLoop_def)

subsection \<open>Taking out the expired timers\<close>

lemma erase_expired_ok:
  assumes "sorted_wrt (<) (activeTimers q)" "distinct (map snd xs)"
    and "\<forall>p \<in> snd ` set xs. timer_at q p \<noteq> None \<and> id_of q p \<in> set (activeTimers q)"
  obtains as where "erase_expired xs q = Some (q\<lparr>activeTimers := as\<rparr>)" "sorted_wrt (<) as"
    "set as = set (activeTimers q) - id_of q ` snd ` set xs"
proof -
  have "\<exists>as. erase_expired xs q = Some (q\<lparr>activeTimers := as\<rparr>) \<and> sorted_wrt (<) as
      \<and> set as = set (activeTimers q) - id_of q ` snd ` set xs"
    using assms
  proof (induction xs arbitrary: q)
    case Nil
    then show ?case by (intro exI [of _ "activeTimers q"]) simp
  next
    case (Cons e xs)
    obtain t where t: "timer_at q (snd e) = Some t" using Cons.prems(3) by auto
    then have id: "id_of q (snd e) = (snd e, sequence t)" by (simp add: id_of_def)
    obtain as where as: "set_erase (snd e, sequence t) (activeTimers q) = (as, 1)" "sorted_wrt (<) as"
      "set as = set (activeTimers q) - {id_of q (snd e)}"
    proof (rule set_erase_ok [OF Cons.prems(1)])
      show "(snd e, sequence t) \<in> set (activeTimers q)" using Cons.prems(3) id by auto
    qed (simp add: id)
    let ?q = "q\<lparr>activeTimers := as\<rparr>"
    have same: "id_of ?q = id_of q" by (auto simp: id_of_def fun_eq_iff)
    have nd: "snd e \<notin> snd ` set xs" "distinct (map snd xs)" using Cons.prems(2) by simp_all
    have act: "\<forall>p \<in> snd ` set xs. timer_at ?q p \<noteq> None \<and> id_of ?q p \<in> set (activeTimers ?q)"
      unfolding same
    proof
      fix p assume p: "p \<in> snd ` set xs"
      then have "p \<noteq> snd e" using nd(1) by blast
      then have "id_of q p \<noteq> id_of q (snd e)" by (simp add: id_of_def)
      then show "timer_at ?q p \<noteq> None \<and> id_of q p \<in> set (activeTimers ?q)"
        using Cons.prems(3) p as(3) by auto
    qed
    obtain bs where bs: "erase_expired xs ?q = Some (?q\<lparr>activeTimers := bs\<rparr>)" "sorted_wrt (<) bs"
      "set bs = set as - id_of q ` snd ` set xs"
      using Cons.IH [OF _ nd(2) act] as(2) unfolding same by auto
    moreover have "set bs = set (activeTimers q) - id_of q ` snd ` set (e # xs)"
      unfolding bs(3) as(3) by auto
    ultimately show ?case using t as(1) by (intro exI [of _ bs]) (simp add: Let_def)
  qed
  then show ?thesis using that by blast
qed

lemma expired_filter:
  assumes "sorted_wrt (<) (xs :: timer_entry list)"
  shows "takeWhile (before_sentry now) xs = filter (\<lambda>e. fst e \<le> now) xs"
    and "dropWhile (before_sentry now) xs = filter (\<lambda>e. \<not> fst e \<le> now) xs"
proof -
  have "takeWhile (before_sentry now) xs = filter (\<lambda>e. fst e \<le> now) xs
    \<and> dropWhile (before_sentry now) xs = filter (\<lambda>e. \<not> fst e \<le> now) xs"
    using assms
  proof (induction xs)
    case (Cons x xs)
    have "\<not> fst y \<le> now" if "\<not> fst x \<le> now" "y \<in> set xs" for y
      using Cons.prems that by (force simp: less_prod_def')
    then show ?case
      using Cons by (cases "fst x \<le> now") (auto simp: before_sentry_def filter_empty_conv filter_id_conv)
  qed simp
  then show "takeWhile (before_sentry now) xs = filter (\<lambda>e. fst e \<le> now) xs"
    "dropWhile (before_sentry now) xs = filter (\<lambda>e. \<not> fst e \<le> now) xs" by blast+
qed

lemma getExpired_ok:
  fixes now :: Timestamp
  assumes inv: "TQ_inv {} q"
  defines "xs \<equiv> filter (\<lambda>e. fst e \<le> now) (timers q)"
  obtains q' where "getExpired now q = Some (xs, q')" "TQ_inv (snd ` set xs) q'" "distinct (map snd xs)"
    "theap q' = theap q" "numCreated q' = numCreated q" "tq_frame q q'"
    "timers q' = filter (\<lambda>e. now < fst e) (timers q)"
proof -
  let ?E = "snd ` set xs" and ?rest = "filter (\<lambda>e. now < fst e) (timers q)"
  have srt: "sorted_wrt (<) (timers q)" "sorted_wrt (<) (activeTimers q)"
    and sets: "set (timers q) = entry_of q ` dom (timer_at q)" "set (activeTimers q) = id_of q ` dom (timer_at q)"
    using inv by (simp_all add: TQ_inv_def scheduled_def)
  have e: "entry_of q (snd x) = x \<and> snd x \<in> dom (timer_at q)" if "x \<in> set xs" for x
  proof -
    have "x \<in> entry_of q ` dom (timer_at q)" using that sets(1) by (auto simp: xs_def)
    then show ?thesis by (auto simp: entry_of_def)
  qed
  have "(\<lambda>x. entry_of q (snd x)) ` set xs = (\<lambda>x. x) ` set xs" by (rule image_cong) (simp_all add: e)
  then have xs: "set xs = entry_of q ` ?E" "?E \<subseteq> dom (timer_at q)" using e by (auto simp: image_image)
  have dist: "distinct (map snd xs)"
    unfolding distinct_map
  proof
    show "distinct xs" using srt(1) by (simp add: xs_def strict_sorted_iff)
    show "inj_on snd (set xs)" using e by (metis inj_onI)
  qed
  let ?q = "q\<lparr>timers := ?rest\<rparr>"
  have same: "id_of ?q = id_of q" "entry_of ?q = entry_of q" by (auto simp: id_of_def entry_of_def fun_eq_iff)
  have "\<forall>p \<in> ?E. timer_at ?q p \<noteq> None \<and> id_of ?q p \<in> set (activeTimers ?q)"
  proof
    fix p assume "p \<in> ?E"
    then have "p \<in> dom (timer_at q)" using xs(2) by blast
    then show "timer_at ?q p \<noteq> None \<and> id_of ?q p \<in> set (activeTimers ?q)"
      unfolding same by (simp add: sets(2) domIff)
  qed
  then obtain as where as: "erase_expired xs ?q = Some (?q\<lparr>activeTimers := as\<rparr>)" "sorted_wrt (<) as"
    "set as = set (activeTimers ?q) - id_of ?q ` ?E"
    using erase_expired_ok [of ?q xs] srt(2) dist by auto
  let ?q' = "?q\<lparr>activeTimers := as\<rparr>"
  have same': "id_of ?q' = id_of q" "entry_of ?q' = entry_of q" by (auto simp: id_of_def entry_of_def fun_eq_iff)
  have inj: "inj (entry_of q)" "inj (id_of q)" by (auto simp: inj_def entry_of_def id_of_def)
  have "set ?rest = set (timers q) - set xs" by (auto simp: xs_def)
  then have "set ?rest = entry_of q ` (dom (timer_at q) - ?E)" "set as = id_of q ` (dom (timer_at q) - ?E)"
    using sets xs(1) as(3) unfolding same image_set_diff [OF inj(1)] image_set_diff [OF inj(2)] by auto
  moreover have "sorted_wrt (<) ?rest" using srt(1) by (rule sorted_wrt_filter)
  ultimately have inv': "TQ_inv ?E ?q'"
    using inv xs(2) as(2) unfolding TQ_inv_def same' by (simp add: scheduled_def)
  have "dropWhile (before_sentry now) (timers q) = ?rest" "takeWhile (before_sentry now) (timers q) = xs"
    by (simp_all add: expired_filter [OF srt(1)] xs_def not_le)
  moreover have "?rest = [] \<or> now < fst (hd ?rest)"
    using hd_in_set [of ?rest] by (cases "?rest = []") auto
  ultimately have "getExpired now q = Some (xs, ?q')"
    using as(1) TQ_length [OF inv] TQ_length [OF inv'] by (simp add: getExpired_def)
  then show ?thesis using inv' dist by (intro that [of ?q']) (simp_all add: tq_frame_def)
qed

subsection \<open>Callbacks\<close>

text \<open>
  What any calls of the interface do to the queue: timers that are taken out stay as they are, and a
  timer found later is either new or has the sequence number it had.
\<close>

definition tq_evolve :: "addr set \<Rightarrow> TimerQueue \<Rightarrow> TimerQueue \<Rightarrow> bool" where
  "tq_evolve E q q' \<longleftrightarrow> (\<forall>p \<in> E. timer_at q' p = timer_at q p) \<and> numCreated q \<le> numCreated q'
     \<and> (\<forall>p t. timer_at q' p = Some t \<longrightarrow>
          numCreated q < sequence t \<or> (\<exists>t0. timer_at q p = Some t0 \<and> sequence t0 = sequence t))"

lemma tq_evolve_refl [simp]: "tq_evolve E q q"
  by (simp add: tq_evolve_def)

lemma tq_evolve_trans:
  assumes 1: "tq_evolve E q q1" and 2: "tq_evolve E q1 q2"
  shows "tq_evolve E q q2"
proof -
  have "numCreated q < sequence t \<or> (\<exists>t0. timer_at q p = Some t0 \<and> sequence t0 = sequence t)"
    if t: "timer_at q2 p = Some t" for p t
  proof -
    from 2 t consider "numCreated q1 < sequence t"
      | t1 where "timer_at q1 p = Some t1" "sequence t1 = sequence t"
      unfolding tq_evolve_def by blast
    then show ?thesis
    proof cases
      case 1
      then show ?thesis using \<open>tq_evolve E q q1\<close> by (simp add: tq_evolve_def)
    next
      case (2 t1)
      then show ?thesis using \<open>tq_evolve E q q1\<close> unfolding tq_evolve_def by metis
    qed
  qed
  then show ?thesis using 1 2 by (simp add: tq_evolve_def)
qed

lemma timer_op_ok:
  assumes inv: "TQ_inv E q" and alloc: "\<And>h. map_of h (alloc h) = None"
  shows "\<exists>q'. timer_op_step alloc x q = Some q' \<and> TQ_inv E q' \<and> tq_frame q q' \<and> tq_evolve E q q'"
proof (cases x)
  case (Pair now op)
  show ?thesis
  proof (cases op)
    case (AddTimer w us rep)
    obtain p q' where 1: "addTimer alloc now w us rep q = Some ((p, numCreated q + 1), q')" "TQ_inv E q'"
      "timer_at q p = None" "timer_at q' = (timer_at q)(p \<mapsto> Timer_new w us rep (numCreated q + 1))"
      "numCreated q' = numCreated q + 1" "tq_frame q q'"
      by (rule addTimer_ok [OF inv alloc])
    moreover have "p \<notin> E" using inv 1(3) by (auto simp: TQ_inv_def)
    ultimately show ?thesis using Pair AddTimer by (auto simp: tq_evolve_def Timer_new_def)
  next
    case (CancelTimer i)
    show ?thesis
    proof (cases "i \<in> set (activeTimers q)")
      case True
      obtain q' where "cancelInLoop (fst i, snd i) q = Some q'" "TQ_inv E q'" "timer_at q' = (timer_at q)(fst i := None)"
        "numCreated q' = numCreated q" "tq_frame q q'" "fst i \<notin> E"
        by (rule cancelInLoop_active [OF inv, of "fst i" "snd i"]) (use True in auto)
      then show ?thesis using Pair CancelTimer by (auto simp: tq_evolve_def)
    next
      case False
      then show ?thesis using Pair CancelTimer inv by (simp add: cancelInLoop_inactive [OF inv] tq_frame_def tq_evolve_def)
    qed
  qed
qed

lemma timer_ops_ok:
  assumes "TQ_inv E q" "\<And>h. map_of h (alloc h) = None"
  shows "\<exists>q'. run_ops (timer_op_step alloc) xs q = Some q' \<and> TQ_inv E q' \<and> tq_frame q q' \<and> tq_evolve E q q'"
proof (rule run_ops_total [where I = "TQ_inv E" and R = "\<lambda>q q'. tq_frame q q' \<and> tq_evolve E q q'"])
  show "\<exists>q'. timer_op_step alloc x q = Some q' \<and> TQ_inv E q' \<and> tq_frame q q' \<and> tq_evolve E q q'"
    if "TQ_inv E q" for x q by (rule timer_op_ok [OF that assms(2)])
  show "tq_frame q q2 \<and> tq_evolve E q q2"
    if "tq_frame q q1 \<and> tq_evolve E q q1" "tq_frame q1 q2 \<and> tq_evolve E q1 q2" for q q1 q2
    using that tq_frame_trans tq_evolve_trans by blast
qed (use assms(1) in simp_all)

lemma Timer_runs_ok:
  assumes "TQ_inv E q" "\<And>h. map_of h (alloc h) = None" "snd ` set xs \<subseteq> E"
  shows "\<exists>q'. run_ops (Timer_run alloc cb) xs q = Some q' \<and> TQ_inv E q' \<and> tq_evolve E q q'
    \<and> callingExpiredTimers q' = callingExpiredTimers q
    \<and> runs q' = runs q @ map (\<lambda>e. sequence (the (timer_at q (snd e)))) xs"
  using assms(1,3)
proof (induction xs arbitrary: q)
  case (Cons e xs)
  obtain t where t: "timer_at q (snd e) = Some t" using Cons.prems by (auto simp: TQ_inv_def)
  let ?q = "q\<lparr>runs := runs q @ [sequence t]\<rparr>"
  obtain q1 where q1: "run_ops (timer_op_step alloc) (cb (sequence t)) ?q = Some q1" "TQ_inv E q1"
    "tq_frame ?q q1" "tq_evolve E ?q q1"
    using timer_ops_ok [OF _ assms(2), of E ?q "cb (sequence t)"] Cons.prems(1) by auto
  have ev: "tq_evolve E q q1" using q1(4) by (simp add: tq_evolve_def)
  obtain q2 where q2: "run_ops (Timer_run alloc cb) xs q1 = Some q2" "TQ_inv E q2" "tq_evolve E q1 q2"
    "callingExpiredTimers q2 = callingExpiredTimers q1"
    "runs q2 = runs q1 @ map (\<lambda>e. sequence (the (timer_at q1 (snd e)))) xs"
    using Cons.IH [OF q1(2)] Cons.prems(2) by auto
  have "timer_at q1 (snd e) = timer_at q (snd e)" if "e \<in> set xs" for e
    using ev Cons.prems(2) that by (auto simp: tq_evolve_def)
  then have "map (\<lambda>e. sequence (the (timer_at q1 (snd e)))) xs = map (\<lambda>e. sequence (the (timer_at q (snd e)))) xs"
    by simp
  moreover have "Timer_run alloc cb e q = Some q1" using t q1(1) by (simp add: Timer_run_def)
  ultimately show ?case
    using t q1(3) q2 tq_evolve_trans [OF ev q2(3)] by (intro exI [of _ q2]) (simp add: tq_frame_def)
qed simp

subsection \<open>Rescheduling\<close>

lemma TQ_inv_update:
  assumes inv: "TQ_inv E q" and p: "p \<in> E" "timer_at q p = Some t" "sequence t' = sequence t"
  shows "TQ_inv E (q\<lparr>theap := smap_put p t' (theap q)\<rparr>)"
proof -
  let ?q = "q\<lparr>theap := smap_put p t' (theap q)\<rparr>"
  have "scheduled E ?q = scheduled E q" using p by (auto simp: scheduled_def split: if_splits)
  moreover have "entry_of ?q x = entry_of q x" "id_of ?q x = id_of q x" if "x \<in> scheduled E q" for x
    using that p by (auto simp: entry_of_def id_of_def scheduled_def)
  ultimately show ?thesis
    using inv p unfolding TQ_inv_def by (auto cong: image_cong split: if_splits)
qed

text \<open>What becomes of an expired timer: it starts again, unless it is not periodic or was cancelled.\<close>

definition after_expiry :: "Timestamp \<Rightarrow> TimerId list \<Rightarrow> addr \<Rightarrow> Timer \<Rightarrow> Timer option" where
  "after_expiry now cancelled p t =
     (if repeat t \<and> (p, sequence t) \<notin> set cancelled
      then Some (t\<lparr>expiration := addTime now (interval t)\<rparr>) else None)"

lemma reinsert_ok:
  assumes "TQ_inv E q" "snd ` set xs \<subseteq> E" "distinct (map snd xs)"
  shows "\<exists>q'. reinsert now xs q = Some q' \<and> TQ_inv (E - snd ` set xs) q' \<and> tq_frame q q'
    \<and> numCreated q' = numCreated q \<and> cancelingTimers q' = cancelingTimers q \<and> alarm q' = alarm q
    \<and> (\<forall>p. timer_at q' p = (if p \<in> snd ` set xs
         then after_expiry now (cancelingTimers q) p (the (timer_at q p)) else timer_at q p))"
  using assms
proof (induction xs arbitrary: E q)
  case (Cons e xs)
  let ?p = "snd e"
  obtain t where t: "timer_at q ?p = Some t" using Cons.prems by (auto simp: TQ_inv_def)
  have p: "?p \<in> E" "?p \<notin> snd ` set xs" "distinct (map snd xs)" using Cons.prems(2,3) by simp_all
  then have sub: "snd ` set xs \<subseteq> E - {?p}" using Cons.prems(2) by (simp add: subset_Diff_insert)
  define again where "again \<longleftrightarrow> repeat t \<and> (?p, sequence t) \<notin> set (cancelingTimers q)"
  have "\<exists>q1. (if again then do { (_, q) \<leftarrow> TimerQueue_insert ?p (q\<lparr>theap := smap_put ?p (Timer_restart now t) (theap q)\<rparr>); Some q }
        else delete_timer ?p q) = Some q1 \<and> TQ_inv (E - {?p}) q1 \<and> tq_frame q q1
      \<and> numCreated q1 = numCreated q \<and> cancelingTimers q1 = cancelingTimers q \<and> alarm q1 = alarm q
      \<and> timer_at q1 = (timer_at q)(?p := after_expiry now (cancelingTimers q) ?p t)"
  proof (cases again)
    case True
    let ?q = "q\<lparr>theap := smap_put ?p (Timer_restart now t) (theap q)\<rparr>"
    have "TQ_inv E ?q" by (rule TQ_inv_update [OF Cons.prems(1) p(1) t]) (simp add: Timer_restart_def)
    then obtain b q1 where "TimerQueue_insert ?p ?q = Some (b, q1)" "TQ_inv (E - {?p}) q1" "theap q1 = theap ?q"
      "numCreated q1 = numCreated ?q" "cancelingTimers q1 = cancelingTimers ?q" "alarm q1 = alarm ?q" "tq_frame ?q q1"
      using TimerQueue_insert_ok [OF _ p(1)] by metis
    then show ?thesis
      using True by (auto simp: again_def after_expiry_def Timer_restart_def tq_frame_def)
  next
    case False
    obtain q1 where "delete_timer ?p q = Some q1" "TQ_inv (E - {?p}) q1" "theap q1 = smap_erase ?p (theap q)"
      "numCreated q1 = numCreated q" "cancelingTimers q1 = cancelingTimers q" "alarm q1 = alarm q" "tq_frame q q1"
      by (rule delete_timer_ok [OF Cons.prems(1) p(1)])
    then show ?thesis using False by (auto simp: again_def after_expiry_def)
  qed
  then obtain q1 where q1: "(if again then do { (_, q) \<leftarrow> TimerQueue_insert ?p (q\<lparr>theap := smap_put ?p (Timer_restart now t) (theap q)\<rparr>); Some q }
        else delete_timer ?p q) = Some q1" "TQ_inv (E - {?p}) q1" "tq_frame q q1"
      "numCreated q1 = numCreated q" "cancelingTimers q1 = cancelingTimers q" "alarm q1 = alarm q"
      "timer_at q1 = (timer_at q)(?p := after_expiry now (cancelingTimers q) ?p t)" by blast
  obtain q2 where q2: "reinsert now xs q1 = Some q2" "TQ_inv (E - {?p} - snd ` set xs) q2" "tq_frame q1 q2"
    "numCreated q2 = numCreated q1" "cancelingTimers q2 = cancelingTimers q1" "alarm q2 = alarm q1"
    "\<forall>p. timer_at q2 p = (if p \<in> snd ` set xs
         then after_expiry now (cancelingTimers q1) p (the (timer_at q1 p)) else timer_at q1 p)"
    using Cons.IH [OF q1(2) sub p(3)] by blast
  have "reinsert now (e # xs) q = Some q2" using t q1(1) q2(1) by (simp add: again_def)
  moreover have "E - {?p} - snd ` set xs = E - snd ` set (e # xs)" by auto
  ultimately show ?case
    using q2 q1 t p(2) tq_frame_trans [OF q1(3) q2(3)] by (intro exI [of _ q2]) auto
qed simp

subsection \<open>The whole handler\<close>

lemma alarm_resetTimerfd:
  "alarm (resetTimerfd now w q) = Some (max w (addTime now 100))"
proof -
  define us where "us = (let d = microSecondsSinceEpoch w - microSecondsSinceEpoch now in if d < 100 then 100 else d)"
  have us: "0 \<le> us" "addTime now us = max w (addTime now 100)"
    by (cases w; cases now; auto simp: us_def Let_def addTime_def max_def less_eq_Timestamp_def)+
  have "us div 1000000 * 1000000 + us mod 1000000 * 1000 div 1000 = us" by simp
  then show ?thesis
    using us unfolding resetTimerfd_def howMuchTimeFromNow_def Let_def us_def [unfolded Let_def, symmetric]
    by (simp add: kMicroSecondsPerSecond_def)
qed

lemma TQ_hd:
  assumes "TQ_inv E q" "timers q \<noteq> []"
  shows "timer_at q (snd (hd (timers q))) \<noteq> None"
    and "expiration (the (timer_at q (snd (hd (timers q))))) = fst (hd (timers q))"
    and "\<And>e. e \<in> set (timers q) \<Longrightarrow> fst (hd (timers q)) \<le> fst e"
proof -
  have "(fst (hd (timers q)), snd (hd (timers q))) \<in> set (timers q)" using assms(2) by simp
  then obtain t where "timer_at q (snd (hd (timers q))) = Some t" "expiration t = fst (hd (timers q))"
    using TQ_timers [OF assms(1)] by blast
  then show "timer_at q (snd (hd (timers q))) \<noteq> None"
    "expiration (the (timer_at q (snd (hd (timers q))))) = fst (hd (timers q))" by simp_all
  have "sorted (timers q)" using assms(1) by (simp add: TQ_inv_def strict_sorted_iff)
  then have "hd (timers q) \<le> e" if "e \<in> set (timers q)" for e
    using that assms(2) by (cases "timers q") auto
  then show "fst (hd (timers q)) \<le> fst e" if "e \<in> set (timers q)" for e
    using that by (fastforce simp: less_eq_prod_def)
qed

lemma TimerQueue_reset_ok:
  assumes "TQ_inv (snd ` set xs) q" "distinct (map snd xs)"
  shows "\<exists>q'. TimerQueue_reset now2 xs now q = Some q' \<and> TQ_inv {} q' \<and> tq_frame q q'
    \<and> numCreated q' = numCreated q \<and> cancelingTimers q' = cancelingTimers q
    \<and> (\<forall>p. timer_at q' p = (if p \<in> snd ` set xs
         then after_expiry now (cancelingTimers q) p (the (timer_at q p)) else timer_at q p))
    \<and> (timers q' \<noteq> [] \<and> Timestamp_valid (fst (hd (timers q'))) \<longrightarrow>
         alarm q' = Some (max (fst (hd (timers q'))) (addTime now2 100)))"
proof -
  obtain q1 where q1: "reinsert now xs q = Some q1" "TQ_inv {} q1" "tq_frame q q1" "numCreated q1 = numCreated q"
    "cancelingTimers q1 = cancelingTimers q"
    "\<forall>p. timer_at q1 p = (if p \<in> snd ` set xs
         then after_expiry now (cancelingTimers q) p (the (timer_at q p)) else timer_at q p)"
    using reinsert_ok [OF assms(1) subset_refl assms(2), of now] by auto
  let ?next = "if timers q1 \<noteq> [] then fst (hd (timers q1)) else Timestamp_invalid"
  let ?q = "if Timestamp_valid ?next then resetTimerfd now2 ?next q1 else q1"
  have "TimerQueue_reset now2 xs now q = Some ?q"
  proof (cases "timers q1 = []")
    case False
    then obtain t where "timer_at q1 (snd (hd (timers q1))) = Some t" "expiration t = fst (hd (timers q1))"
      using TQ_hd(1,2) [OF q1(2)] by auto
    then show ?thesis using False q1(1) by (simp add: TimerQueue_reset_def)
  qed (use q1(1) in \<open>simp add: TimerQueue_reset_def\<close>)
  then show ?thesis
    using q1(2-6) by (intro exI [of _ ?q]) (auto simp: tq_frame_def alarm_resetTimerfd)
qed

lemma handleRead_ok:
  fixes now :: Timestamp and q :: TimerQueue
  assumes inv: "TQ_inv {} q" and alloc: "\<And>h. map_of h (alloc h) = None"
  defines "xs \<equiv> filter (\<lambda>e. fst e \<le> now) (timers q)"
  shows "\<exists>q'. TimerQueue_handleRead alloc cb now now2 q = Some q' \<and> TQ_inv {} q'
    \<and> runs q' = runs q @ map (\<lambda>e. sequence (the (timer_at q (snd e)))) xs
    \<and> \<not> callingExpiredTimers q' \<and> tq_evolve {} q q'
    \<and> (\<forall>p \<in> snd ` set xs. timer_at q' p = after_expiry now (cancelingTimers q') p (the (timer_at q p)))
    \<and> (timers q' \<noteq> [] \<and> Timestamp_valid (fst (hd (timers q'))) \<longrightarrow>
         alarm q' = Some (max (fst (hd (timers q'))) (addTime now2 100)))"
proof -
  let ?E = "snd ` set xs"
  obtain q1 where q1: "getExpired now (q\<lparr>alarm := None\<rparr>) = Some (xs, q1)" "TQ_inv ?E q1" "distinct (map snd xs)"
    "theap q1 = theap q" "numCreated q1 = numCreated q" "tq_frame q q1"
    using getExpired_ok [of "q\<lparr>alarm := None\<rparr>" now] inv by (auto simp: xs_def tq_frame_def)
  let ?q1 = "q1\<lparr>callingExpiredTimers := True, cancelingTimers := []\<rparr>"
  obtain q2 where q2: "run_ops (Timer_run alloc cb) xs ?q1 = Some q2" "TQ_inv ?E q2" "tq_evolve ?E ?q1 q2"
    "runs q2 = runs ?q1 @ map (\<lambda>e. sequence (the (timer_at ?q1 (snd e)))) xs"
    using Timer_runs_ok [OF _ alloc, of ?E ?q1 xs cb] q1(2) by auto
  let ?q2 = "q2\<lparr>callingExpiredTimers := False\<rparr>"
  obtain q3 where q3: "TimerQueue_reset now2 xs now ?q2 = Some q3" "TQ_inv {} q3" "tq_frame ?q2 q3"
    "numCreated q3 = numCreated ?q2" "cancelingTimers q3 = cancelingTimers ?q2"
    "\<forall>p. timer_at q3 p = (if p \<in> ?E then after_expiry now (cancelingTimers ?q2) p (the (timer_at ?q2 p)) else timer_at ?q2 p)"
    "timers q3 \<noteq> [] \<and> Timestamp_valid (fst (hd (timers q3))) \<longrightarrow>
         alarm q3 = Some (max (fst (hd (timers q3))) (addTime now2 100))"
    using TimerQueue_reset_ok [of xs ?q2 now2 now] q2(2) q1(3) by auto
  have E: "timer_at q2 p = timer_at q p" if "p \<in> ?E" for p
    using q2(3) that q1(4) by (auto simp: tq_evolve_def)
  have ev: "tq_evolve {} q q3"
    unfolding tq_evolve_def
  proof (intro conjI allI impI ballI)
    show "numCreated q \<le> numCreated q3" using q2(3) q1(5) q3(4) by (simp add: tq_evolve_def)
    fix p t assume t: "timer_at q3 p = Some t"
    then obtain t2 where "timer_at q2 p = Some t2" "sequence t2 = sequence t"
    proof (cases "p \<in> ?E")
      case True
      then have "timer_at q p \<noteq> None" using q1(2,4) by (auto simp: TQ_inv_def)
      then show ?thesis using True t q3(6) that by (auto simp: after_expiry_def E split: if_splits)
    qed (use q3(6) in auto)
    then show "numCreated q < sequence t \<or> (\<exists>t0. timer_at q p = Some t0 \<and> sequence t0 = sequence t)"
      using q2(3) q1(4,5) by (auto simp: tq_evolve_def) metis
  qed simp
  have "TimerQueue_handleRead alloc cb now now2 q = Some q3"
    using q1(1) q2(1) q3(1) by (simp add: TimerQueue_handleRead_def Let_def)
  then show ?thesis
    using q3 q2(4) q1(4,6) ev E by (intro exI [of _ q3]) (auto simp: tq_frame_def)
qed

subsection \<open>Runs of the queue\<close>

text \<open>
  What a loop does with its queue: calls of \<^verbatim>\<open>addTimer\<close> and \<^verbatim>\<open>cancel\<close>, and the timerfd becoming readable.
\<close>

datatype tq_event =
  Call Timestamp timer_op
| Expire Timestamp Timestamp timer_callbacks

fun tq_step :: "((addr, Timer) smap \<Rightarrow> addr) \<Rightarrow> tq_event \<Rightarrow> TimerQueue \<Rightarrow> TimerQueue option" where
  "tq_step alloc (Call now op) q = timer_op_step alloc (now, op) q"
| "tq_step alloc (Expire now now2 cb) q = TimerQueue_handleRead alloc cb now now2 q"

text \<open>A timer that is not scheduled does not come back, and does not run.\<close>

definition tq_forget :: "TimerQueue \<Rightarrow> TimerQueue \<Rightarrow> bool" where
  "tq_forget q q' \<longleftrightarrow> tq_evolve {} q q' \<and> (\<exists>rs. runs q' = runs q @ rs
     \<and> (\<forall>s \<in> set rs. numCreated q < s \<or> s \<in> sequence ` ran (timer_at q)))"

lemma tq_forget_trans:
  assumes 1: "tq_forget q q1" and 2: "tq_forget q1 q2"
  shows "tq_forget q q2"
proof -
  have ev: "numCreated q \<le> numCreated q1" "\<And>p t. timer_at q1 p = Some t \<Longrightarrow>
      numCreated q < sequence t \<or> (\<exists>t0. timer_at q p = Some t0 \<and> sequence t0 = sequence t)"
    using 1 by (simp_all add: tq_forget_def tq_evolve_def)
  have "numCreated q < s \<or> s \<in> sequence ` ran (timer_at q)"
    if "numCreated q1 < s \<or> s \<in> sequence ` ran (timer_at q1)" for s
    using that
  proof
    assume "s \<in> sequence ` ran (timer_at q1)"
    then obtain p t where "timer_at q1 p = Some t" "sequence t = s" by (auto simp: ran_def)
    then show ?thesis using ev(2) [of p t] by (metis ranI imageI)
  qed (use ev(1) in simp)
  then show ?thesis
    using 1 2 tq_evolve_trans [of "{}" q q1 q2] unfolding tq_forget_def by (auto simp: ball_Un)
qed

lemma tq_step_ok:
  assumes inv: "TQ_inv {} q" "\<not> callingExpiredTimers q" and alloc: "\<And>h. map_of h (alloc h) = None"
  shows "\<exists>q'. tq_step alloc x q = Some q' \<and> (TQ_inv {} q' \<and> \<not> callingExpiredTimers q') \<and> tq_forget q q'"
proof (cases x)
  case (Call now op)
  then show ?thesis using timer_op_ok [OF inv(1) alloc, of "(now, op)"] inv(2)
    by (auto simp: tq_forget_def tq_frame_def)
next
  case (Expire now now2 cb)
  let ?xs = "filter (\<lambda>e. fst e \<le> now) (timers q)"
  obtain q' where q': "TimerQueue_handleRead alloc cb now now2 q = Some q'" "TQ_inv {} q'"
    "runs q' = runs q @ map (\<lambda>e. sequence (the (timer_at q (snd e)))) ?xs"
    "\<not> callingExpiredTimers q'" "tq_evolve {} q q'"
    using handleRead_ok [OF inv(1) alloc, of cb now now2] by blast
  have "sequence (the (timer_at q (snd e))) \<in> sequence ` ran (timer_at q)" if "e \<in> set ?xs" for e
    using that TQ_timers [OF inv(1), of "fst e" "snd e"] by (auto simp: ran_def)
  then show ?thesis using Expire q' by (auto simp: tq_forget_def)
qed

lemma tq_run_ok:
  assumes "TQ_inv {} q" "\<not> callingExpiredTimers q" "\<And>h. map_of h (alloc h) = None"
  shows "\<exists>q'. run_ops (tq_step alloc) xs q = Some q' \<and> (TQ_inv {} q' \<and> \<not> callingExpiredTimers q') \<and> tq_forget q q'"
proof (rule run_ops_total [where I = "\<lambda>q. TQ_inv {} q \<and> \<not> callingExpiredTimers q" and R = tq_forget])
  show "\<exists>q'. tq_step alloc x q = Some q' \<and> (TQ_inv {} q' \<and> \<not> callingExpiredTimers q') \<and> tq_forget q q'"
    if "TQ_inv {} q \<and> \<not> callingExpiredTimers q" for x q
    using that by (intro tq_step_ok assms(3)) auto
  show "tq_forget q q2" if "tq_forget q q1" "tq_forget q1 q2" for q q1 q2
    using that by (rule tq_forget_trans)
qed (use assms(1,2) in \<open>simp_all add: tq_forget_def\<close>)

subsection \<open>The alarm\<close>

text \<open>Timers whose moment is after the epoch and whose interval is not negative.\<close>

definition timer_ok :: "Timer \<Rightarrow> bool" where
  "timer_ok t \<longleftrightarrow> Timestamp_valid (expiration t) \<and> 0 \<le> interval t"

fun timer_op_ok :: "Timestamp \<times> timer_op \<Rightarrow> bool" where
  "timer_op_ok (now, AddTimer w us rep) \<longleftrightarrow> Timestamp_valid w \<and> 0 \<le> us"
| "timer_op_ok (now, CancelTimer i) \<longleftrightarrow> True"

definition all_timers_ok :: "TimerQueue \<Rightarrow> bool" where
  "all_timers_ok q \<longleftrightarrow> (\<forall>p t. timer_at q p = Some t \<longrightarrow> timer_ok t)"

lemma timer_op_timers_ok:
  assumes inv: "TQ_inv E q" and alloc: "\<And>h. map_of h (alloc h) = None"
    and ok: "all_timers_ok q" "timer_op_ok x" and s: "timer_op_step alloc x q = Some q'"
  shows "all_timers_ok q'"
proof (cases x)
  case (Pair now op)
  show ?thesis
  proof (cases op)
    case (AddTimer w us rep)
    obtain p q1 where "addTimer alloc now w us rep q = Some ((p, numCreated q + 1), q1)"
      "timer_at q1 = (timer_at q)(p \<mapsto> Timer_new w us rep (numCreated q + 1))"
      by (rule addTimer_ok [OF inv alloc])
    then show ?thesis using Pair AddTimer ok s by (auto simp: all_timers_ok_def Timer_new_def timer_ok_def)
  next
    case (CancelTimer i)
    show ?thesis
    proof (cases "i \<in> set (activeTimers q)")
      case True
      obtain q1 where "cancelInLoop (fst i, snd i) q = Some q1" "timer_at q1 = (timer_at q)(fst i := None)"
        by (rule cancelInLoop_active [OF inv, of "fst i" "snd i"]) (use True in auto)
      then show ?thesis using Pair CancelTimer ok s by (auto simp: all_timers_ok_def split: if_splits)
    next
      case False
      then show ?thesis using Pair CancelTimer ok s
        by (auto simp: cancelInLoop_inactive [OF inv] all_timers_ok_def split: if_splits)
    qed
  qed
qed

lemma Timer_runs_timers_ok:
  assumes inv: "TQ_inv E q" and alloc: "\<And>h. map_of h (alloc h) = None" and E: "snd ` set xs \<subseteq> E"
    and ok: "all_timers_ok q" "\<forall>s. \<forall>x \<in> set (cb s). timer_op_ok x"
    and run: "run_ops (Timer_run alloc cb) xs q = Some q'"
  shows "all_timers_ok q'"
proof -
  have ops: "TQ_inv E q2 \<and> all_timers_ok q2"
    if "run_ops (timer_op_step alloc) ys q1 = Some q2" "TQ_inv E q1" "all_timers_ok q1"
      "\<forall>x \<in> set ys. timer_op_ok x" for ys q1 q2
  proof (rule run_ops_invariant_on [OF _ _ that(1), where I = "\<lambda>q. TQ_inv E q \<and> all_timers_ok q"])
    fix x s s' assume x: "x \<in> set ys" and s: "TQ_inv E s \<and> all_timers_ok s" "timer_op_step alloc x s = Some s'"
    have "\<exists>q'. timer_op_step alloc x s = Some q' \<and> TQ_inv E q' \<and> tq_frame s q' \<and> tq_evolve E s q'"
      by (rule timer_op_ok [OF _ alloc]) (use s in simp)
    moreover have "all_timers_ok s'"
      by (rule timer_op_timers_ok [OF _ alloc _ _ s(2)]) (use s(1) that(4) x in auto)
    ultimately show "TQ_inv E s' \<and> all_timers_ok s'" using s(2) by simp
  qed (use that in simp)
  have "TQ_inv E q' \<and> all_timers_ok q'"
  proof (rule run_ops_invariant_on [OF _ _ run, where I = "\<lambda>q. TQ_inv E q \<and> all_timers_ok q"])
    fix e s s' assume s: "TQ_inv E s \<and> all_timers_ok s" "Timer_run alloc cb e s = Some s'"
    from s(2) obtain t :: Timer where t: "run_ops (timer_op_step alloc) (cb (sequence t)) (s\<lparr>runs := runs s @ [sequence t]\<rparr>) = Some s'"
      unfolding Timer_run_def bind_eq_Some by blast
    show "TQ_inv E s' \<and> all_timers_ok s'" by (rule ops [OF t]) (use ok(2) s(1) in \<open>auto simp: all_timers_ok_def\<close>)
  qed (use inv ok in simp)
  then show ?thesis ..
qed

lemma handleRead_timers_ok:
  fixes now :: Timestamp and q :: TimerQueue
  assumes inv: "TQ_inv {} q" and alloc: "\<And>h. map_of h (alloc h) = None"
    and ok: "all_timers_ok q" "\<forall>s. \<forall>x \<in> set (cb s). timer_op_ok x" "Timestamp_valid now"
    and run: "TimerQueue_handleRead alloc cb now now2 q = Some q'"
  shows "all_timers_ok q'"
proof -
  let ?xs = "filter (\<lambda>e. fst e \<le> now) (timers q)"
  let ?E = "snd ` set ?xs"
  obtain q1 where q1: "getExpired now (q\<lparr>alarm := None\<rparr>) = Some (?xs, q1)" "TQ_inv ?E q1" "distinct (map snd ?xs)"
    "theap q1 = theap q"
    using getExpired_ok [of "q\<lparr>alarm := None\<rparr>" now] inv by auto
  let ?q1 = "q1\<lparr>callingExpiredTimers := True, cancelingTimers := []\<rparr>"
  obtain q2 where q2: "run_ops (Timer_run alloc cb) ?xs ?q1 = Some q2" "TQ_inv ?E q2"
    using Timer_runs_ok [OF _ alloc, of ?E ?q1 ?xs cb] q1(2) by auto
  have ok2: "all_timers_ok q2"
    by (rule Timer_runs_timers_ok [OF _ alloc _ _ ok(2) q2(1)])
      (use q1 ok(1) in \<open>auto simp: all_timers_ok_def\<close>)
  let ?q2 = "q2\<lparr>callingExpiredTimers := False\<rparr>"
  obtain q3 where q3: "TimerQueue_reset now2 ?xs now ?q2 = Some q3"
    "\<forall>p. timer_at q3 p = (if p \<in> ?E then after_expiry now (cancelingTimers ?q2) p (the (timer_at ?q2 p)) else timer_at ?q2 p)"
    using TimerQueue_reset_ok [of ?xs ?q2 now2 now] q2(2) q1(3) by auto
  have q': "q' = q3" using run q1(1) q2(1) q3(1) by (simp add: TimerQueue_handleRead_def Let_def)
  have again: "timer_ok t'" if "after_expiry now c p t = Some t'" "timer_ok t" for c p t t'
    using that ok(3) by (cases now) (auto simp: after_expiry_def timer_ok_def addTime_def Timestamp_valid_def split: if_splits)
  have "timer_ok t" if t: "timer_at q3 p = Some t" for p t
  proof (cases "p \<in> ?E")
    case True
    then obtain t2 where "timer_at q2 p = Some t2" using q2(2) by (auto simp: TQ_inv_def)
    then show ?thesis using t True q3(2) ok2 again by (auto simp: all_timers_ok_def)
  qed (use t q3(2) ok2 in \<open>auto simp: all_timers_ok_def\<close>)
  then show ?thesis by (simp add: all_timers_ok_def q')
qed

text \<open>
  The timerfd is armed whenever a timer waits, for a moment not later than the earliest expiration or
  100 microseconds after the clock \<open>c\<close>.
\<close>

definition tq_armed :: "Timestamp \<Rightarrow> TimerQueue \<Rightarrow> bool" where
  "tq_armed c q \<longleftrightarrow> timers q \<noteq> [] \<longrightarrow>
     (\<exists>a. alarm q = Some a \<and> a \<le> max (fst (hd (timers q))) (addTime c 100))"

fun tq_event_ok :: "tq_event \<Rightarrow> bool" where
  "tq_event_ok (Call now op) \<longleftrightarrow> timer_op_ok (now, op)"
| "tq_event_ok (Expire now now2 cb) \<longleftrightarrow> Timestamp_valid now \<and> (\<forall>s. \<forall>x \<in> set (cb s). timer_op_ok x)"

fun tq_clock :: "tq_event \<Rightarrow> Timestamp" where
  "tq_clock (Call now op) = now"
| "tq_clock (Expire now now2 cb) = now2"

lemma hd_timers_subset:
  assumes "TQ_inv E q" "TQ_inv E' q'" "set (timers q') \<subseteq> set (timers q)" "timers q' \<noteq> []"
  shows "timers q \<noteq> []" "fst (hd (timers q)) \<le> fst (hd (timers q'))"
proof -
  show ne: "timers q \<noteq> []" using assms(3,4) by (cases "timers q'") auto
  have "hd (timers q') \<in> set (timers q)" using assms(3,4) by auto
  then show "fst (hd (timers q)) \<le> fst (hd (timers q'))" by (rule TQ_hd(3) [OF assms(1) ne])
qed

lemma tq_armed_later:
  assumes "tq_armed c q" "c \<le> c'" "alarm q' = alarm q"
    and "timers q' \<noteq> [] \<Longrightarrow> timers q \<noteq> [] \<and> fst (hd (timers q)) \<le> fst (hd (timers q'))"
  shows "tq_armed c' q'"
  unfolding tq_armed_def
proof
  assume "timers q' \<noteq> []"
  with assms(4) have h: "timers q \<noteq> []" "fst (hd (timers q)) \<le> fst (hd (timers q'))" by auto
  then obtain a where "alarm q = Some a" "a \<le> max (fst (hd (timers q))) (addTime c 100)"
    using assms(1) by (auto simp: tq_armed_def)
  then show "\<exists>a. alarm q' = Some a \<and> a \<le> max (fst (hd (timers q'))) (addTime c' 100)"
    using assms(3) h(2) addTime_mono [OF assms(2), of 100] by (auto simp: le_max_iff_disj)
qed

lemma addTimer_armed:
  assumes inv: "TQ_inv {} q" and alloc: "\<And>h. map_of h (alloc h) = None" and arm: "tq_armed c q" "c \<le> now"
    and s: "addTimer alloc now w us rep q = Some (i, q')"
  shows "tq_armed now q'"
proof -
  obtain p where q': "TQ_inv {} q'" "timer_at q p = None"
    "timer_at q' = (timer_at q)(p \<mapsto> Timer_new w us rep (numCreated q + 1))"
    "alarm q' = (if timers q = [] \<or> w < fst (hd (timers q)) then alarm (resetTimerfd now w q) else alarm q)"
    using addTimer_ok [OF inv alloc, of now w us rep] s by (metis option.inject prod.inject)
  have entries: "e \<in> set (timers q') \<longleftrightarrow> e = (w, p) \<or> e \<in> set (timers q)" for e
    using q'(2) by (cases e) (auto simp: TQ_timers [OF q'(1)] TQ_timers [OF inv] q'(3) Timer_new_def split: if_splits)
  then have ne: "timers q' \<noteq> []" by (metis empty_iff empty_set)
  then have hd': "hd (timers q') = (w, p) \<or> hd (timers q') \<in> set (timers q)" using entries [of "hd (timers q')"] by simp
  have hdle: "fst (hd (timers q')) \<le> w" using TQ_hd(3) [OF q'(1) ne] entries [of "(w, p)"] by fastforce
  show ?thesis
  proof (cases "timers q = [] \<or> w < fst (hd (timers q))")
    case True
    have "w \<le> fst (hd (timers q'))"
      using hd' True TQ_hd(3) [OF inv, of "hd (timers q')"] by (cases "timers q = []") auto
    then show ?thesis using True q'(4) hdle by (auto simp: tq_armed_def alarm_resetTimerfd max_def)
  next
    case False
    then have "fst (hd (timers q)) \<le> fst (hd (timers q'))" using hd' TQ_hd(3) [OF inv, of "hd (timers q')"] by auto
    then show ?thesis using False q'(4) by (intro tq_armed_later [OF arm]) auto
  qed
qed

lemma tq_step_armed:
  assumes inv: "TQ_inv {} q" "\<not> callingExpiredTimers q" "all_timers_ok q"
    and alloc: "\<And>h. map_of h (alloc h) = None"
    and arm: "tq_armed c q" "c \<le> tq_clock x" and ok: "tq_event_ok x" and s: "tq_step alloc x q = Some q'"
  shows "TQ_inv {} q' \<and> \<not> callingExpiredTimers q' \<and> all_timers_ok q' \<and> tq_armed (tq_clock x) q'"
proof -
  have i: "TQ_inv {} q'" "\<not> callingExpiredTimers q'"
    using tq_step_ok [OF inv(1,2) alloc, of x] s by auto
  have "all_timers_ok q' \<and> tq_armed (tq_clock x) q'"
  proof (cases x)
    case (Call now op)
    then have "all_timers_ok q'" using timer_op_timers_ok [OF inv(1) alloc inv(3)] ok s by simp
    moreover have "tq_armed now q'"
    proof (cases op)
      case (AddTimer w us rep)
      then show ?thesis using Call s arm by (auto intro: addTimer_armed [OF inv(1) alloc])
    next
      case (CancelTimer i)
      then have c: "cancelInLoop i q = Some q'" using Call s by simp
      have "alarm q' = alarm q \<and> set (timers q') \<subseteq> set (timers q)"
      proof (cases "i \<in> set (activeTimers q)")
        case True
        then have "(fst i, snd i) \<in> set (activeTimers q)" by simp
        from cancelInLoop_active [OF inv(1) this] show ?thesis using c by (metis option.inject prod.collapse)
      qed (use c cancelInLoop_inactive [OF inv(1), of i] in \<open>auto split: if_splits\<close>)
      then show ?thesis using arm Call hd_timers_subset [OF inv(1) i(1)] by (intro tq_armed_later [OF arm(1)]) auto
    qed
    ultimately show ?thesis using Call by simp
  next
    case (Expire now now2 cb)
    have "\<forall>s. \<forall>x \<in> set (cb s). timer_op_ok x" "Timestamp_valid now"
      "TimerQueue_handleRead alloc cb now now2 q = Some q'" using Expire ok s by auto
    then have ok': "all_timers_ok q'" by (rule handleRead_timers_ok [OF inv(1) alloc inv(3)])
    have "timers q' \<noteq> [] \<and> Timestamp_valid (fst (hd (timers q'))) \<longrightarrow>
         alarm q' = Some (max (fst (hd (timers q'))) (addTime now2 100))"
      using handleRead_ok [OF inv(1) alloc, of cb now now2] Expire s by auto
    moreover have "Timestamp_valid (fst (hd (timers q')))" if ne: "timers q' \<noteq> []"
      using TQ_hd(1,2) [OF i(1) ne] ok' unfolding all_timers_ok_def timer_ok_def by (metis option.collapse)
    ultimately show ?thesis using Expire ok' by (auto simp: tq_armed_def)
  qed
  then show ?thesis using i by simp
qed

lemma tq_run_armed:
  assumes "\<And>h. map_of h (alloc h) = None"
    and "TQ_inv {} q" "\<not> callingExpiredTimers q" "all_timers_ok q" "tq_armed c q"
    and "sorted (c # map tq_clock xs)" "list_all tq_event_ok xs"
    and "run_ops (tq_step alloc) xs q = Some q'"
  shows "tq_armed (last (c # map tq_clock xs)) q'"
  using assms(2-)
proof (induction xs arbitrary: q c)
  case (Cons x xs)
  obtain q1 where q1: "tq_step alloc x q = Some q1" "run_ops (tq_step alloc) xs q1 = Some q'"
    using Cons.prems(7) by auto
  have "TQ_inv {} q1 \<and> \<not> callingExpiredTimers q1 \<and> all_timers_ok q1 \<and> tq_armed (tq_clock x) q1"
    using Cons.prems by (intro tq_step_armed [OF Cons.prems(1-3) assms(1) Cons.prems(4) _ _ q1(1)]) auto
  then have "tq_armed (last (tq_clock x # map tq_clock xs)) q'"
    using Cons.prems by (intro Cons.IH [OF _ _ _ _ _ _ q1(2)]) auto
  then show ?case by simp
qed simp

lemma cancel_gone:
  assumes inv: "TQ_inv {} q" "\<not> callingExpiredTimers q"
    and there: "\<And>p' t. timer_at q p' = Some t \<Longrightarrow> sequence t = s \<Longrightarrow> p' = p"
    and c: "cancelInLoop (p, s) q = Some q'"
  shows "TQ_inv {} q' \<and> \<not> callingExpiredTimers q' \<and> s \<notin> sequence ` ran (timer_at q') \<and> numCreated q' = numCreated q"
proof (cases "(p, s) \<in> set (activeTimers q)")
  case True
  obtain q1 where "cancelInLoop (p, s) q = Some q1" "TQ_inv {} q1" "timer_at q1 = (timer_at q)(p := None)"
    "numCreated q1 = numCreated q" "tq_frame q q1"
    by (rule cancelInLoop_active [OF inv(1) True])
  then show ?thesis using c inv(2) there by (auto simp: tq_frame_def ran_def split: if_splits)
next
  case False
  then have "q' = q" using cancelInLoop_inactive [OF inv(1)] c inv(2) by simp
  moreover have "timer_at q p \<noteq> Some t" if "sequence t = s" for t
    using False TQ_active [OF inv(1)] that by auto
  ultimately show ?thesis using inv there by (auto simp: ran_def)
qed

subsection \<open>Properties\<close>


text \<open>An allocator that returns an address above all that are in use.\<close>

definition bump_alloc :: "(addr, 'a) smap \<Rightarrow> addr" where
  "bump_alloc h = Suc (sum_list (map fst h))"

lemma bump_alloc_fresh: "map_of h (bump_alloc h) = None"
proof -
  have "p < bump_alloc h" if "p \<in> set (map fst h)" for p
    using member_le_sum_list [OF that] by (simp add: bump_alloc_def)
  then show ?thesis by (auto simp: map_of_eq_None_iff)
qed


text \<open>
  C8. What happens when the timerfd fires: exactly the timers that are due run, once each, in the order
  of their expiration; each of them then starts again after its interval if it is periodic and was not
  cancelled meanwhile, and is deleted otherwise.
\<close>

theorem TimerQueue_handleRead_exact:
  fixes now :: Timestamp
  assumes "\<And>h. map_of h (alloc h) = None" "run_ops (tq_step alloc) evs TimerQueue_new = Some q"
  defines "due \<equiv> filter (\<lambda>e. fst e \<le> now) (timers q)"
  shows "\<exists>q'. TimerQueue_handleRead alloc cb now now2 q = Some q'
    \<and> runs q' = runs q @ map (\<lambda>e. sequence (the (map_of (theap q) (snd e)))) due
    \<and> (\<forall>e \<in> set due. map_of (theap q') (snd e) =
         after_expiry now (cancelingTimers q') (snd e) (the (map_of (theap q) (snd e))))"
proof -
  have "TQ_inv {} q" using tq_run_ok [OF TQ_new _ assms(1), of evs] assms(2) by (auto simp: TimerQueue_new_def)
  from handleRead_ok [OF this assms(1), of cb now now2] show ?thesis by (auto simp: due_def)
qed

theorem TimerQueue_handleRead_exact_witness:
  "\<exists>q q'. run_ops (tq_step bump_alloc)
      [Call (Timestamp 10) (AddTimer (Timestamp 500) 1000 True),
       Call (Timestamp 20) (AddTimer (Timestamp 400) 0 False)] TimerQueue_new = Some q
    \<and> TimerQueue_handleRead bump_alloc (\<lambda>s. []) (Timestamp 600) (Timestamp 601) q = Some q'
    \<and> runs q' = [2, 1] \<and> map_of (theap q') 2 = None
    \<and> map_of (theap q') 1 = Some \<lparr>expiration = Timestamp 1600, interval = 1000, repeat = True, sequence = 1\<rparr>"
proof -
  let ?evs = "[Call (Timestamp 10) (AddTimer (Timestamp 500) 1000 True),
       Call (Timestamp 20) (AddTimer (Timestamp 400) 0 False)]"
  let ?q = "\<lparr>timers = [(Timestamp 400, 2), (Timestamp 500, 1)], activeTimers = [(1, 1), (2, 2)],
     callingExpiredTimers = False, cancelingTimers = [],
     theap = [(1, Timer_new (Timestamp 500) 1000 True 1), (2, Timer_new (Timestamp 400) 0 False 2)],
     numCreated = 2, alarm = Some (Timestamp 400), runs = []\<rparr>"
  have q: "run_ops (tq_step bump_alloc) ?evs TimerQueue_new = Some ?q" by code_simp
  have c: "cancelingTimers (the (TimerQueue_handleRead bump_alloc (\<lambda>s. []) (Timestamp 600) (Timestamp 601) ?q)) = []"
    by code_simp
  from TimerQueue_handleRead_exact [OF bump_alloc_fresh q, of "\<lambda>s. []" "Timestamp 600" "Timestamp 601"]
  obtain q' where q': "TimerQueue_handleRead bump_alloc (\<lambda>s. []) (Timestamp 600) (Timestamp 601) ?q = Some q'"
    "runs q' = [2, 1]" "map_of (theap q') 2 = None"
    "map_of (theap q') 1 = after_expiry (Timestamp 600) (cancelingTimers q') 1 (Timer_new (Timestamp 500) 1000 True 1)"
    by (auto simp: Timer_new_def after_expiry_def less_eq_Timestamp_def)
  moreover have "cancelingTimers q' = []" using c q'(1) by simp
  ultimately show ?thesis
    unfolding q by (auto simp: Timer_new_def after_expiry_def addTime_def)
qed

text \<open>
  C9. A cancelled timer is gone: after \<^verbatim>\<open>cancel\<close> of the id that \<^verbatim>\<open>addTimer\<close> returned, called outside of a
  timer callback, no later event of the queue runs that timer, whatever else happens before and after.
\<close>

theorem TimerQueue_cancel_final:
  assumes alloc: "\<And>h. map_of h (alloc h) = None"
    and "run_ops (tq_step alloc) evs0 TimerQueue_new = Some q0"
    and add: "addTimer alloc now w us rep q0 = Some (timerId, q1)"
    and "run_ops (tq_step alloc) evs1 q1 = Some q2"
    and cancel: "cancelInLoop timerId q2 = Some q3"
    and "run_ops (tq_step alloc) evs2 q3 = Some q4"
  shows "\<exists>rs. runs q4 = runs q3 @ rs \<and> snd timerId \<notin> set rs"
proof -
  have q0: "TQ_inv {} q0" "\<not> callingExpiredTimers q0"
    using tq_run_ok [OF TQ_new _ alloc, of evs0] assms(2) by (auto simp: TimerQueue_new_def)
  obtain p where q1: "timerId = (p, numCreated q0 + 1)" "TQ_inv {} q1" "tq_frame q0 q1"
    "timer_at q1 p = Some (Timer_new w us rep (numCreated q0 + 1))" "numCreated q1 = numCreated q0 + 1"
    using add by (rule_tac addTimer_ok [OF q0(1) alloc, of now w us rep]) auto
  then have "\<not> callingExpiredTimers q1" using q0(2) by (simp add: tq_frame_def)
  then have q2: "TQ_inv {} q2" "\<not> callingExpiredTimers q2" "tq_forget q1 q2"
    using tq_run_ok [OF q1(2) _ alloc, of evs1] assms(4) by auto
  define s where "s = numCreated q0 + 1"
  have there: "p' = p" if t: "timer_at q2 p' = Some t" "sequence t = s" for p' t
  proof -
    have "numCreated q1 < s \<or> (\<exists>t0. timer_at q1 p' = Some t0 \<and> sequence t0 = s)"
      using q2(3) t by (auto simp: tq_forget_def tq_evolve_def)
    then obtain t0 where "timer_at q1 p' = Some t0" "sequence t0 = s" using q1(5) by (auto simp: s_def)
    then show ?thesis using q1(2,4) by (auto simp: TQ_inv_def Timer_new_def s_def)
  qed
  have q3: "TQ_inv {} q3 \<and> \<not> callingExpiredTimers q3 \<and> s \<notin> sequence ` ran (timer_at q3) \<and> s \<le> numCreated q3"
  proof -
    have "TQ_inv {} q3 \<and> \<not> callingExpiredTimers q3 \<and> s \<notin> sequence ` ran (timer_at q3) \<and> numCreated q3 = numCreated q2"
      by (rule cancel_gone [OF q2(1,2), of s p]) (use there cancel q1(1) in \<open>auto simp: s_def\<close>)
    then show ?thesis using q1(5) q2(3) by (auto simp: tq_forget_def tq_evolve_def s_def)
  qed
  then have "tq_forget q3 q4" using tq_run_ok [OF _ _ alloc, of q3 evs2] assms(6) by auto
  then obtain rs where rs: "runs q4 = runs q3 @ rs"
    "\<forall>s \<in> set rs. numCreated q3 < s \<or> s \<in> sequence ` ran (timer_at q3)" by (auto simp: tq_forget_def)
  then have "s \<notin> set rs" using q3 by fastforce
  then show ?thesis using rs(1) q1(1) by (simp add: s_def)
qed

theorem TimerQueue_cancel_final_witness:
  "\<exists>q1 q3 q4 rs. addTimer bump_alloc (Timestamp 10) (Timestamp 500) 1000 True TimerQueue_new = Some ((1, 1), q1)
    \<and> cancelInLoop (1, 1) q1 = Some q3
    \<and> run_ops (tq_step bump_alloc) [Expire (Timestamp 600) (Timestamp 601) (\<lambda>s. [])] q3 = Some q4
    \<and> runs q4 = runs q3 @ rs \<and> 1 \<notin> set rs"
proof -
  let ?q1 = "TimerQueue_new\<lparr>timers := [(Timestamp 500, 1)], activeTimers := [(1, 1)],
     theap := [(1, Timer_new (Timestamp 500) 1000 True 1)], numCreated := 1, alarm := Some (Timestamp 500)\<rparr>"
  let ?q3 = "TimerQueue_new\<lparr>numCreated := 1, alarm := Some (Timestamp 500)\<rparr>"
  have 1: "run_ops (tq_step bump_alloc) [] TimerQueue_new = Some TimerQueue_new"
    "addTimer bump_alloc (Timestamp 10) (Timestamp 500) 1000 True TimerQueue_new = Some ((1, 1), ?q1)"
    "run_ops (tq_step bump_alloc) [] ?q1 = Some ?q1" "cancelInLoop (1, 1) ?q1 = Some ?q3"
    "run_ops (tq_step bump_alloc) [Expire (Timestamp 600) (Timestamp 601) (\<lambda>s. [])] ?q3
      = Some (?q3\<lparr>alarm := None\<rparr>)"
    by code_simp+
  from TimerQueue_cancel_final [OF bump_alloc_fresh 1] 1 show ?thesis by fastforce
qed

text \<open>
  C10. No timer is forgotten: while the clock does not go backwards, the timerfd is armed whenever a timer
  waits, for the earliest expiration or, when that is nearer than that, 100 microseconds after
  the last event.
\<close>

theorem TimerQueue_alarm:
  assumes "\<And>h. map_of h (alloc h) = None" "sorted (map tq_clock (evs @ [ev]))" "list_all tq_event_ok (evs @ [ev])"
    and "run_ops (tq_step alloc) (evs @ [ev]) TimerQueue_new = Some q" "timers q \<noteq> []"
  shows "\<exists>a. alarm q = Some a \<and> a \<le> max (fst (hd (timers q))) (addTime (tq_clock ev) 100)"
proof -
  let ?c = "hd (map tq_clock (evs @ [ev]))"
  have "sorted (?c # map tq_clock (evs @ [ev]))" using assms(2) by (cases evs) auto
  then have "tq_armed (last (?c # map tq_clock (evs @ [ev]))) q"
    using assms(3,4) by (intro tq_run_armed [OF assms(1) TQ_new])
      (auto simp: TimerQueue_new_def all_timers_ok_def tq_armed_def)
  then show ?thesis using assms(5) by (simp add: tq_armed_def)
qed

theorem TimerQueue_alarm_witness:
  "\<exists>q a. run_ops (tq_step bump_alloc) ([Call (Timestamp 10) (AddTimer (Timestamp 500) 1000 True)] @
       [Expire (Timestamp 600) (Timestamp 601) (\<lambda>s. [])]) TimerQueue_new = Some q
    \<and> timers q = [(Timestamp 1600, 1)] \<and> alarm q = Some a \<and> a \<le> Timestamp 1600"
proof -
  let ?q = "TimerQueue_new\<lparr>timers := [(Timestamp 1600, 1)], activeTimers := [(1, 1)],
     theap := [(1, Timer_new (Timestamp 1600) 1000 True 1)], numCreated := 1, runs := [1], alarm := Some (Timestamp 1600)\<rparr>"
  let ?add = "Call (Timestamp 10) (AddTimer (Timestamp 500) 1000 True)"
  let ?expire = "Expire (Timestamp 600) (Timestamp 601) (\<lambda>s. [])"
  have q: "run_ops (tq_step bump_alloc) ([?add] @ [?expire]) TimerQueue_new = Some ?q" by code_simp
  have "sorted (map tq_clock ([?add] @ [?expire]))" "list_all tq_event_ok ([?add] @ [?expire])" "timers ?q \<noteq> []"
    by (simp_all add: Timestamp_valid_def less_eq_Timestamp_def)
  from TimerQueue_alarm [OF bump_alloc_fresh this(1,2) q this(3)] q show ?thesis
    by (auto simp: addTime_def max_def less_eq_Timestamp_def split: if_splits)
qed

end
