(* ===== verification/Net_EventLoop.thy ===== *)
theory Net_EventLoop
  imports Net_Poller Net_TimerQueue
begin

section \<open>The event loop\<close>

text \<open>
  \<^verbatim>\<open>muduo/net/EventLoop.h\<close> and \<^verbatim>\<open>EventLoop.cc\<close>.  The loop belongs to one thread; other threads hand it work
  through \<^verbatim>\<open>queueInLoop\<close> and wake it through an eventfd.  The first part of the theory gives each function,
  cut where another thread can act in between; the second composes the pieces to the steps of a system
  of one loop thread and any number of other threads.

  A functor is an identity; what it does is a parameter \<open>body\<close>, a list of calls of the loop's interface,
  and what the event handlers of the channels do is a parameter \<open>handler\<close> of the same kind.
\<close>

type_synonym tid = nat
type_synonym fid = nat

record EventLoop =
  looping :: bool
  el_quit :: bool
  el_eventHandling :: bool
  callingPendingFunctors :: bool
  iteration :: int
  threadId :: tid
  wakeupCount :: nat
  activeChannels :: "cid list"
  currentActiveChannel :: "cid option"
  pendingFunctors :: "fid list"

text \<open>
  The constructor, with the map \<^verbatim>\<open>t_loopInThisThread\<close> of the loops of all threads; the second loop of a
  thread is a fatal error.
\<close>

definition EventLoop_new :: "tid \<Rightarrow> 'l \<Rightarrow> (tid \<rightharpoonup> 'l) \<Rightarrow> (EventLoop \<times> (tid \<rightharpoonup> 'l)) option" where
  "EventLoop_new tid this t_loopInThisThread = do {
     cassert (t_loopInThisThread tid = None);
     Some (\<lparr>looping = False, el_quit = False, el_eventHandling = False, callingPendingFunctors = False,
            iteration = 0, threadId = tid, wakeupCount = 0, activeChannels = [],
            currentActiveChannel = None, pendingFunctors = []\<rparr>, t_loopInThisThread(tid \<mapsto> this))
   }"

definition isInLoopThread :: "tid \<Rightarrow> EventLoop \<Rightarrow> bool" where
  "isInLoopThread tid l \<longleftrightarrow> threadId l = tid"

definition assertInLoopThread :: "tid \<Rightarrow> EventLoop \<Rightarrow> unit option" where
  "assertInLoopThread tid l = (if \<not> isInLoopThread tid l then None else Some ())"

subsection \<open>Waking up\<close>

text \<open>
  An eventfd is a 64-bit counter: writing adds, unless the counter would leave its range, and reading
  takes the whole counter, unless it is zero; \<open>None\<close> is the error \<^verbatim>\<open>EAGAIN\<close>.
\<close>

definition eventfd_write :: "nat \<Rightarrow> nat \<Rightarrow> nat option" where
  "eventfd_write v n = (if n + v < 2 ^ 64 - 1 then Some (n + v) else None)"

definition eventfd_read :: "nat \<Rightarrow> nat option" where
  "eventfd_read n = (if n = 0 then None else Some 0)"

text \<open>Both errors are only logged.\<close>

definition wakeup :: "EventLoop \<Rightarrow> EventLoop" where
  "wakeup l = (case eventfd_write 1 (wakeupCount l) of
      Some n \<Rightarrow> l\<lparr>wakeupCount := n\<rparr>
    | None \<Rightarrow> l)"

definition EventLoop_handleRead :: "EventLoop \<Rightarrow> EventLoop" where
  "EventLoop_handleRead l = (case eventfd_read (wakeupCount l) of
      Some n \<Rightarrow> l\<lparr>wakeupCount := n\<rparr>
    | None \<Rightarrow> l)"

lemma wakeup_pos: "0 < wakeupCount (wakeup l)"
  by (simp add: wakeup_def eventfd_write_def)

lemma wakeup_frame [simp]:
  "looping (wakeup l) = looping l" "el_quit (wakeup l) = el_quit l" "threadId (wakeup l) = threadId l"
  "el_eventHandling (wakeup l) = el_eventHandling l"
  "callingPendingFunctors (wakeup l) = callingPendingFunctors l" "pendingFunctors (wakeup l) = pendingFunctors l"
  by (simp_all add: wakeup_def split: option.splits)

lemma EventLoop_handleRead_frame [simp]:
  "looping (EventLoop_handleRead l) = looping l" "el_quit (EventLoop_handleRead l) = el_quit l"
  "el_eventHandling (EventLoop_handleRead l) = el_eventHandling l"
  "threadId (EventLoop_handleRead l) = threadId l" "wakeupCount (EventLoop_handleRead l) = 0"
  "callingPendingFunctors (EventLoop_handleRead l) = callingPendingFunctors l"
  "pendingFunctors (EventLoop_handleRead l) = pendingFunctors l"
  by (simp_all add: EventLoop_handleRead_def eventfd_read_def split: option.splits)

subsection \<open>Calls from any thread\<close>

text \<open>\<^verbatim>\<open>queueInLoop\<close> in two halves: the locked insertion, and the wake-up.\<close>

definition queueInLoop_push :: "fid \<Rightarrow> EventLoop \<Rightarrow> EventLoop" where
  "queueInLoop_push cb l = l\<lparr>pendingFunctors := pendingFunctors l @ [cb]\<rparr>"

definition queueInLoop_wakeup :: "tid \<Rightarrow> EventLoop \<Rightarrow> EventLoop" where
  "queueInLoop_wakeup tid l =
     (if \<not> isInLoopThread tid l \<or> callingPendingFunctors l then wakeup l else l)"

definition quit_set :: "EventLoop \<Rightarrow> EventLoop" where
  "quit_set l = l\<lparr>el_quit := True\<rparr>"

definition quit_wakeup :: "tid \<Rightarrow> EventLoop \<Rightarrow> EventLoop" where
  "quit_wakeup tid l = (if \<not> isInLoopThread tid l then wakeup l else l)"

definition queueSize :: "EventLoop \<Rightarrow> nat" where
  "queueSize l = length (pendingFunctors l)"

subsection \<open>Timers\<close>

text \<open>The delay and the interval are in microseconds, with the flag \<^verbatim>\<open>interval > 0.0\<close>.\<close>

definition runAt :: "((addr, Timer) smap \<Rightarrow> addr) \<Rightarrow> Timestamp \<Rightarrow> Timestamp \<Rightarrow> TimerQueue \<Rightarrow> (TimerId \<times> TimerQueue) option" where
  "runAt alloc now time q = addTimer alloc now time 0 False q"

definition runAfter :: "((addr, Timer) smap \<Rightarrow> addr) \<Rightarrow> Timestamp \<Rightarrow> Timestamp \<Rightarrow> int \<Rightarrow> TimerQueue \<Rightarrow> (TimerId \<times> TimerQueue) option" where
  "runAfter alloc now now2 delay q = (let time = addTime now delay in runAt alloc now2 time q)"

definition runEvery :: "((addr, Timer) smap \<Rightarrow> addr) \<Rightarrow> Timestamp \<Rightarrow> Timestamp \<Rightarrow> int \<Rightarrow> bool \<Rightarrow> TimerQueue
    \<Rightarrow> (TimerId \<times> TimerQueue) option" where
  "runEvery alloc now now2 us rep q = (let time = addTime now us in addTimer alloc now2 time us rep q)"

subsection \<open>Channels\<close>

definition EventLoop_updateChannel :: "'p poller_fun \<Rightarrow> tid \<Rightarrow> EventLoop \<Rightarrow> 'p poller_fun" where
  "EventLoop_updateChannel poller_updateChannel tid l c st = do {
     assertInLoopThread tid l;
     poller_updateChannel c st
   }"

definition EventLoop_removeChannel :: "'p poller_fun \<Rightarrow> tid \<Rightarrow> EventLoop \<Rightarrow> 'p poller_fun" where
  "EventLoop_removeChannel poller_removeChannel tid l c st = do {
     assertInLoopThread tid l;
     (if el_eventHandling l
      then cassert (currentActiveChannel l = Some c \<or> c \<notin> set (activeChannels l))
      else Some ());
     poller_removeChannel c st
   }"

definition EventLoop_hasChannel :: "(cid \<Rightarrow> bool) \<Rightarrow> tid \<Rightarrow> EventLoop \<Rightarrow> cid \<Rightarrow> bool option" where
  "EventLoop_hasChannel poller_hasChannel tid l c = do {
     assertInLoopThread tid l;
     Some (poller_hasChannel c)
   }"

subsection \<open>The loop\<close>

definition loop_start :: "tid \<Rightarrow> EventLoop \<Rightarrow> EventLoop option" where
  "loop_start tid l = do {
     cassert (\<not> looping l);
     assertInLoopThread tid l;
     Some (l\<lparr>looping := True, el_quit := False\<rparr>)
   }"

definition loop_before_poll :: "EventLoop \<Rightarrow> EventLoop" where
  "loop_before_poll l = l\<lparr>activeChannels := []\<rparr>"

definition loop_after_poll :: "cid list \<Rightarrow> EventLoop \<Rightarrow> EventLoop" where
  "loop_after_poll active l =
     l\<lparr>activeChannels := active, iteration := iteration l + 1, el_eventHandling := True\<rparr>"

definition loop_next_channel :: "cid \<Rightarrow> EventLoop \<Rightarrow> EventLoop" where
  "loop_next_channel c l = l\<lparr>currentActiveChannel := Some c\<rparr>"

definition loop_handled :: "EventLoop \<Rightarrow> EventLoop" where
  "loop_handled l = l\<lparr>currentActiveChannel := None, el_eventHandling := False\<rparr>"

definition loop_stop :: "EventLoop \<Rightarrow> EventLoop" where
  "loop_stop l = l\<lparr>looping := False\<rparr>"

definition doPendingFunctors_start :: "EventLoop \<Rightarrow> EventLoop" where
  "doPendingFunctors_start l = l\<lparr>callingPendingFunctors := True\<rparr>"

definition doPendingFunctors_swap :: "EventLoop \<Rightarrow> fid list \<times> EventLoop" where
  "doPendingFunctors_swap l = (pendingFunctors l, l\<lparr>pendingFunctors := []\<rparr>)"

definition doPendingFunctors_end :: "EventLoop \<Rightarrow> EventLoop" where
  "doPendingFunctors_end l = l\<lparr>callingPendingFunctors := False\<rparr>"

lemmas loop_defs = loop_start_def loop_before_poll_def loop_after_poll_def loop_next_channel_def
  loop_handled_def loop_stop_def doPendingFunctors_start_def doPendingFunctors_swap_def
  doPendingFunctors_end_def queueInLoop_push_def quit_set_def assertInLoopThread_def isInLoopThread_def

section \<open>The loop and its threads\<close>

text \<open>
  A thread that is inside of calls of the loop's interface has a stack of what is left to do.  \<^verbatim>\<open>loop()\<close>
  is at one of the places \<open>loop_pc\<close>: not running, before the test of \<^verbatim>\<open>quit_\<close>, in \<^verbatim>\<open>poll\<close>, handling the
  rest of the active channels, before the swap in \<^verbatim>\<open>doPendingFunctors\<close>, or running the rest of the
  functors.  The histories \<open>queued\<close> and \<open>ran\<close> record the functors that were queued and those of them that
  were started; \<open>early\<close> is set while a functor waits that the loop's own thread queued outside of \<^verbatim>\<open>loop()\<close>.
\<close>

datatype loop_call = QueueInLoop fid | RunInLoop fid | Quit

datatype instr = Do loop_call | QueueWakeup | QuitWakeup | ReadWakeup

datatype loop_pc = Idle | While | Poll | Handle "cid list" | Swap | Functors "fid list"

record system =
  sl :: EventLoop
  pc :: loop_pc
  stack :: "instr list"
  others :: "tid \<Rightarrow> instr list"
  queued :: "fid list"
  ran :: "fid list"
  early :: bool

fun instr_step :: "(fid \<Rightarrow> loop_call list) \<Rightarrow> tid \<Rightarrow> instr \<Rightarrow> EventLoop \<Rightarrow> instr list \<times> EventLoop" where
  "instr_step body tid (Do (QueueInLoop f)) l = ([QueueWakeup], queueInLoop_push f l)"
| "instr_step body tid (Do (RunInLoop f)) l =
     (if isInLoopThread tid l then (map Do (body f), l) else ([Do (QueueInLoop f)], l))"
| "instr_step body tid (Do Quit) l = ([QuitWakeup], quit_set l)"
| "instr_step body tid QueueWakeup l = ([], queueInLoop_wakeup tid l)"
| "instr_step body tid QuitWakeup l = ([], quit_wakeup tid l)"
| "instr_step body tid ReadWakeup l = ([], EventLoop_handleRead l)"

fun pushes :: "instr \<Rightarrow> fid list" where
  "pushes (Do (QueueInLoop f)) = [f]"
| "pushes _ = []"

text \<open>\<open>wake\<close> is the wake-up channel, whose handler is \<^verbatim>\<open>handleRead\<close>.\<close>

definition handler_of :: "(cid \<Rightarrow> loop_call list) \<Rightarrow> cid \<Rightarrow> cid \<Rightarrow> instr list" where
  "handler_of handler wake c = (if c = wake then [ReadWakeup] else map Do (handler c))"

text \<open>
  The rules: the pieces of \<^verbatim>\<open>loop()\<close> and \<^verbatim>\<open>doPendingFunctors()\<close> in their order, the calls that callbacks
  make, and the calls of other threads.  The kernel reports the wake-up channel when its eventfd is
  readable, and only then.
\<close>

inductive sys_step :: "(fid \<Rightarrow> loop_call list) \<Rightarrow> (cid \<Rightarrow> loop_call list) \<Rightarrow> cid \<Rightarrow> system \<Rightarrow> system \<Rightarrow> bool"
  for body handler wake where
  start: "pc s = Idle \<Longrightarrow> stack s = [] \<Longrightarrow> loop_start (threadId (sl s)) (sl s) = Some l \<Longrightarrow>
    sys_step body handler wake s (s\<lparr>sl := l, pc := While\<rparr>)"
| stop: "pc s = While \<Longrightarrow> el_quit (sl s) \<Longrightarrow>
    sys_step body handler wake s (s\<lparr>sl := loop_stop (sl s), pc := Idle\<rparr>)"
| again: "pc s = While \<Longrightarrow> \<not> el_quit (sl s) \<Longrightarrow>
    sys_step body handler wake s (s\<lparr>sl := loop_before_poll (sl s), pc := Poll\<rparr>)"
| polled: "pc s = Poll \<Longrightarrow> wake \<in> set active \<longleftrightarrow> 0 < wakeupCount (sl s) \<Longrightarrow>
    sys_step body handler wake s (s\<lparr>sl := loop_after_poll active (sl s), pc := Handle active\<rparr>)"
| handle: "pc s = Handle (c # cs) \<Longrightarrow> stack s = [] \<Longrightarrow>
    sys_step body handler wake s (s\<lparr>sl := loop_next_channel c (sl s), pc := Handle cs,
      stack := handler_of handler wake c\<rparr>)"
| handled: "pc s = Handle [] \<Longrightarrow> stack s = [] \<Longrightarrow>
    sys_step body handler wake s (s\<lparr>sl := doPendingFunctors_start (loop_handled (sl s)), pc := Swap\<rparr>)"
| swap: "pc s = Swap \<Longrightarrow> doPendingFunctors_swap (sl s) = (fs, l) \<Longrightarrow>
    sys_step body handler wake s (s\<lparr>sl := l, pc := Functors fs, early := False\<rparr>)"
| run_functor: "pc s = Functors (f # fs) \<Longrightarrow> stack s = [] \<Longrightarrow>
    sys_step body handler wake s (s\<lparr>pc := Functors fs, stack := map Do (body f), ran := ran s @ [f]\<rparr>)"
| functors_end: "pc s = Functors [] \<Longrightarrow> stack s = [] \<Longrightarrow>
    sys_step body handler wake s (s\<lparr>sl := doPendingFunctors_end (sl s), pc := While\<rparr>)"
| callback: "stack s = i # is \<Longrightarrow> instr_step body (threadId (sl s)) i (sl s) = (js, l) \<Longrightarrow>
    sys_step body handler wake s (s\<lparr>sl := l, stack := js @ is, queued := queued s @ pushes i,
      early := early s \<or> (pc s = Idle \<and> pushes i \<noteq> [])\<rparr>)"
| outside: "pc s = Idle \<Longrightarrow> stack s = [] \<Longrightarrow> sys_step body handler wake s (s\<lparr>stack := [Do call]\<rparr>)"
| other_call: "t \<noteq> threadId (sl s) \<Longrightarrow> others s t = [] \<Longrightarrow>
    sys_step body handler wake s (s\<lparr>others := (others s)(t := [Do call])\<rparr>)"
| other: "t \<noteq> threadId (sl s) \<Longrightarrow> others s t = i # is \<Longrightarrow> instr_step body t i (sl s) = (js, l) \<Longrightarrow>
    sys_step body handler wake s (s\<lparr>sl := l, others := (others s)(t := js @ is), queued := queued s @ pushes i\<rparr>)"

definition sys_new :: "tid \<Rightarrow> EventLoop \<Rightarrow> system" where
  "sys_new tid l = \<lparr>sl = l, pc = Idle, stack = [], others = (\<lambda>_. []), queued = [], ran = [], early = False\<rparr>"

abbreviation reachable_from :: "(fid \<Rightarrow> loop_call list) \<Rightarrow> (cid \<Rightarrow> loop_call list) \<Rightarrow> cid \<Rightarrow> system \<Rightarrow> system \<Rightarrow> bool" where
  "reachable_from body handler wake \<equiv> (sys_step body handler wake)\<^sup>*\<^sup>*"

subsection \<open>Invariants\<close>

fun running :: "loop_pc \<Rightarrow> fid list" where
  "running (Functors fs) = fs"
| "running _ = []"

fun in_handle :: "loop_pc \<Rightarrow> bool" where
  "in_handle (Handle _) = True"
| "in_handle _ = False"

fun in_functors :: "loop_pc \<Rightarrow> bool" where
  "in_functors (Functors _) = True"
| "in_functors _ = False"

definition waking :: "instr \<Rightarrow> system \<Rightarrow> bool" where
  "waking i s \<longleftrightarrow> 0 < wakeupCount (sl s) \<or> (\<exists>t. t \<noteq> threadId (sl s) \<and> i \<in> set (others s t))"

definition sys_flags :: "system \<Rightarrow> bool" where
  "sys_flags s \<longleftrightarrow>
     (callingPendingFunctors (sl s) \<longleftrightarrow> pc s = Swap \<or> in_functors (pc s))
     \<and> (el_eventHandling (sl s) \<longleftrightarrow> in_handle (pc s))
     \<and> (looping (sl s) \<longleftrightarrow> pc s \<noteq> Idle)
     \<and> (stack s \<noteq> [] \<longrightarrow> pc s = Idle \<or> in_handle (pc s) \<or> in_functors (pc s))
     \<and> (ReadWakeup \<in> set (stack s) \<longrightarrow> in_handle (pc s))
     \<and> (\<forall>t. ReadWakeup \<notin> set (others s t))"

text \<open>Whoever waits is seen: a functor in the list, or a request to quit, keeps the loop from blocking.\<close>

definition sys_awake :: "system \<Rightarrow> bool" where
  "sys_awake s \<longleftrightarrow>
     (pendingFunctors (sl s) \<noteq> [] \<and> \<not> early s \<longrightarrow> in_handle (pc s) \<or> pc s = Swap
         \<or> waking QueueWakeup s \<or> (in_functors (pc s) \<and> QueueWakeup \<in> set (stack s)))
     \<and> (el_quit (sl s) \<and> pc s = Poll \<longrightarrow> waking QuitWakeup s)"

definition sys_fifo :: "system \<Rightarrow> bool" where
  "sys_fifo s \<longleftrightarrow> queued s = ran s @ running (pc s) @ pendingFunctors (sl s)"

lemma sys_new_ok:
  assumes "EventLoop_new tid this m = Some (l, m')"
  shows "sys_flags (sys_new tid l) \<and> sys_awake (sys_new tid l) \<and> sys_fifo (sys_new tid l)"
  using assms by (auto simp: sys_flags_def sys_awake_def sys_fifo_def sys_new_def EventLoop_new_def)

lemma instr_step_frame:
  assumes "instr_step body t i l = (js, l')"
  shows "threadId l' = threadId l" "looping l' = looping l"
    "callingPendingFunctors l' = callingPendingFunctors l" "el_eventHandling l' = el_eventHandling l"
    "pendingFunctors l' = pendingFunctors l @ pushes i"
    "i \<noteq> ReadWakeup \<Longrightarrow> wakeupCount l \<le> wakeupCount l'" "ReadWakeup \<notin> set js"
    "pushes i \<noteq> [] \<Longrightarrow> QueueWakeup \<in> set js" "el_quit l' \<Longrightarrow> el_quit l \<or> QuitWakeup \<in> set js"
    "i = QueueWakeup \<Longrightarrow> threadId l \<noteq> t \<or> callingPendingFunctors l \<Longrightarrow> 0 < wakeupCount l'"
    "i = QuitWakeup \<Longrightarrow> threadId l \<noteq> t \<Longrightarrow> 0 < wakeupCount l'"
  using assms
  by (cases i rule: pushes.cases;
      auto simp: loop_defs queueInLoop_wakeup_def quit_wakeup_def wakeup_pos wakeup_def eventfd_write_def
        split: if_splits option.splits)+

lemma waking_other:
  assumes "t \<noteq> threadId (sl s)" "others s t = i # is" "instr_step body t i (sl s) = (js, l)"
    and "ReadWakeup \<notin> set (others s t)" "w = QueueWakeup \<or> w = QuitWakeup" "waking w s"
  shows "waking w (s\<lparr>sl := l, others := (others s)(t := js @ is), queued := q\<rparr>)"
proof -
  note f = instr_step_frame [OF assms(3)]
  have "i \<noteq> ReadWakeup" using assms(2,4) by auto
  then have mono: "wakeupCount (sl s) \<le> wakeupCount l" by (rule f(6))
  from assms(6) consider "0 < wakeupCount (sl s)" | t' where "t' \<noteq> threadId (sl s)" "w \<in> set (others s t')"
    by (auto simp: waking_def)
  then show ?thesis
  proof cases
    case 1
    then show ?thesis using mono by (simp add: waking_def)
  next
    case (2 t')
    have "0 < wakeupCount l \<or> w \<in> set is" if "t' = t"
      using that 2(2) assms(1,2,5) f(10,11) by auto
    then show ?thesis using 2 assms(1) f(1) by (cases "t' = t") (auto simp: waking_def)
  qed
qed

lemma sys_step_flags:
  assumes "sys_step body handler wake s s'" "sys_flags s"
  shows "sys_flags s'"
  using assms
proof (cases rule: sys_step.cases)
  case (callback i "is" js l)
  then show ?thesis using assms(2) instr_step_frame(2-4,7) [OF callback(3)] by (auto simp: sys_flags_def)
next
  case (other t i "is" js l)
  have "ReadWakeup \<notin> set (others s t)" using assms(2) by (simp add: sys_flags_def)
  then show ?thesis using assms(2) other instr_step_frame(2-4,7) [OF other(4)] by (auto simp: sys_flags_def)
qed (auto simp: sys_flags_def loop_defs handler_of_def)

lemma sys_step_fifo:
  assumes "sys_step body handler wake s s'" "sys_fifo s"
  shows "sys_fifo s'"
  using assms
proof (cases rule: sys_step.cases)
  case (callback i "is" js l)
  then show ?thesis using assms(2) instr_step_frame(5) [OF callback(3)] by (simp add: sys_fifo_def)
next
  case (other t i "is" js l)
  then show ?thesis using assms(2) instr_step_frame(5) [OF other(4)] by (simp add: sys_fifo_def)
qed (auto simp: sys_fifo_def loop_defs)

lemma sys_step_awake:
  assumes "sys_step body handler wake s s'" "sys_awake s" "sys_flags s"
  shows "sys_awake s'"
  using assms(1)
proof (cases rule: sys_step.cases)
  case (callback i "is" js l)
  note f = instr_step_frame [OF callback(3)]
  have pc: "pc s = Idle \<or> in_handle (pc s) \<or> in_functors (pc s)" and r: "i \<noteq> ReadWakeup \<or> in_handle (pc s)"
    and c: "callingPendingFunctors (sl s) \<longleftrightarrow> pc s = Swap \<or> in_functors (pc s)"
    using assms(3) callback(2) by (auto simp: sys_flags_def)
  have mono: "waking w (s\<lparr>sl := l, stack := x, queued := y, early := z\<rparr>)" if "waking w s" "\<not> in_handle (pc s)" for w x y z
    using that f(1,6) r by (auto simp: waking_def)
  have q: "i = QueueWakeup \<Longrightarrow> in_functors (pc s) \<Longrightarrow> 0 < wakeupCount l" using f(10) c by simp
  show ?thesis
  proof (cases "in_handle (pc s)")
    case True
    then have "pc s \<noteq> Poll" by auto
    then show ?thesis using True unfolding callback(1) sys_awake_def by simp
  next
    case False
    then show ?thesis
      using pc assms(2) mono q f(5,8) callback(2) unfolding callback(1) sys_awake_def
      by (auto simp: waking_def [of _ "_\<lparr>sl := _, stack := _, queued := _, early := _\<rparr>"])
  qed
next
  case (other t i "is" js l)
  note f = instr_step_frame [OF other(4)]
  have w: "waking w s'" if "waking w s" "w = QueueWakeup \<or> w = QuitWakeup" for w
    unfolding other(1) using that assms(3) by (intro waking_other [OF other(2-4)]) (auto simp: sys_flags_def)
  have new: "w \<in> set js \<Longrightarrow> waking w s'" for w
    unfolding other(1) waking_def using other(2) f(1) by auto
  have "waking QueueWakeup s'" if "pushes i \<noteq> []" using new f(8) that by blast
  moreover have "waking QuitWakeup s'" if "el_quit l" "\<not> el_quit (sl s)" using new f(9) that by blast
  ultimately show ?thesis
    using w assms(2) f(5) unfolding sys_awake_def by (cases "pushes i = []") (auto simp: other(1))
next
  case (other_call t call)
  have keep: "w \<in> set (others s' t')" if "w \<in> set (others s t')" for w t'
    using that other_call(3) by (auto simp: other_call(1))
  have "sl s' = sl s" by (simp add: other_call(1))
  then have "waking w s'" if "waking w s" for w
    using that keep unfolding waking_def by metis
  then show ?thesis using assms(2) unfolding sys_awake_def by (auto simp: other_call(1))
qed (use assms(2) in \<open>auto simp: sys_awake_def waking_def loop_defs\<close>)

lemma reachable_inv:
  assumes "EventLoop_new tid this m = Some (l, m')" "reachable_from body handler wake (sys_new tid l) s"
  shows "sys_flags s \<and> sys_awake s \<and> sys_fifo s"
  using assms(2)
proof (induction rule: rtranclp_induct)
  case base
  then show ?case by (rule sys_new_ok [OF assms(1)])
next
  case (step s s')
  then show ?case using sys_step_flags sys_step_awake sys_step_fifo by blast
qed

text \<open>A run in which thread 2 hands functor 7 to the loop of thread 1.\<close>

lemma handover_run:
  obtains l m s where "EventLoop_new 1 () Map.empty = Some (l, m)"
     "reachable_from (\<lambda>_. []) (\<lambda>_. []) 9 (sys_new 1 l) s" "pc s = Poll" "pendingFunctors (sl s) = [7]" "\<not> early s"
     "\<forall>t. QueueWakeup \<notin> set (others s t) \<and> QuitWakeup \<notin> set (others s t)"
proof -
  let ?l = "\<lparr>looping = False, el_quit = False, el_eventHandling = False, callingPendingFunctors = False,
            iteration = 0, threadId = 1, wakeupCount = 0, activeChannels = [],
            currentActiveChannel = None, pendingFunctors = []\<rparr>"
  let ?s0 = "sys_new 1 ?l"
  let ?s1 = "?s0\<lparr>sl := ?l\<lparr>looping := True, el_quit := False\<rparr>, pc := While\<rparr>"
  let ?s2 = "?s1\<lparr>sl := loop_before_poll (sl ?s1), pc := Poll\<rparr>"
  let ?s3 = "?s2\<lparr>others := (others ?s2)(2 := [Do (QueueInLoop 7)])\<rparr>"
  let ?s4 = "?s3\<lparr>sl := queueInLoop_push 7 (sl ?s3), others := (others ?s3)(2 := [QueueWakeup] @ []),
    queued := queued ?s3 @ pushes (Do (QueueInLoop 7))\<rparr>"
  let ?s5 = "?s4\<lparr>sl := queueInLoop_wakeup 2 (sl ?s4), others := (others ?s4)(2 := [] @ []),
    queued := queued ?s4 @ pushes QueueWakeup\<rparr>"
  let ?step = "sys_step (\<lambda>_. []) (\<lambda>_. []) 9"
  have new: "EventLoop_new 1 () Map.empty = Some (?l, [1 \<mapsto> ()])" by (simp add: EventLoop_new_def)
  have 1: "?step ?s0 ?s1" by (rule start) (simp_all add: sys_new_def loop_defs)
  have 2: "?step ?s1 ?s2" by (rule again) (simp_all add: sys_new_def)
  have 3: "?step ?s2 ?s3" by (rule other_call) (simp_all add: sys_new_def loop_defs)
  have 4: "?step ?s3 ?s4" by (rule other) (simp_all add: sys_new_def loop_defs)
  have 5: "?step ?s4 ?s5" by (rule other) (simp_all add: sys_new_def loop_defs)
  note snoc = rtranclp.rtrancl_into_rtrancl [where r = ?step]
  have run: "?step\<^sup>*\<^sup>* ?s0 ?s5"
    by (rule snoc [OF snoc [OF snoc [OF snoc [OF snoc [OF rtranclp.rtrancl_refl 1] 2] 3] 4] 5])
  show ?thesis
    by (rule that [OF new run]) (simp_all add: sys_new_def loop_defs queueInLoop_wakeup_def)
qed

subsection \<open>Properties\<close>



text \<open>
  C12. Functors run once and in order.  In every reachable state the functors queued so far are, in order,
  those that were started, those that the loop has taken to run, and those that wait; the last are the
  only ones that other threads can see.
\<close>

theorem EventLoop_functors_fifo:
  assumes "EventLoop_new tid this m = Some (l, m')" "reachable_from body handler wake (sys_new tid l) s"
  shows "queued s = ran s @ running (pc s) @ pendingFunctors (sl s)
    \<and> (callingPendingFunctors (sl s) \<longleftrightarrow> pc s = Swap \<or> in_functors (pc s))"
  using reachable_inv [OF assms] by (simp add: sys_fifo_def sys_flags_def)

theorem EventLoop_functors_fifo_witness:
  "\<exists>l m s. EventLoop_new 1 () Map.empty = Some (l, m)
     \<and> reachable_from (\<lambda>_. []) (\<lambda>_. []) 9 (sys_new 1 l) s \<and> queued s = ran s @ [7]"
proof -
  obtain l m s where s: "EventLoop_new 1 () Map.empty = Some (l, m)"
     "reachable_from (\<lambda>_. []) (\<lambda>_. []) 9 (sys_new 1 l) s" "pc s = Poll" "pendingFunctors (sl s) = [7]"
    by (rule handover_run)
  have "queued s = ran s @ [7]" using EventLoop_functors_fifo [OF s(1,2)] s(3,4) by simp
  then show ?thesis using s by blast
qed

end
