(* ===== verification/Net_TcpConnection.thy ===== *)
theory Net_TcpConnection
  imports Net_Buffer Net_Poller
begin

section \<open>TCP connections\<close>

text \<open>
  \<^verbatim>\<open>muduo/net/TcpConnection.h\<close> and \<^verbatim>\<open>TcpConnection.cc\<close>: the state machine of one connection, its two
  buffers, and the registration of its channel.

  The handlers run in the thread of the loop.  A call from another thread leaves a functor behind, which
  the loop runs later, first in first out; the list \<open>functors\<close> holds those of this connection.  The
  channel is described by what the poller watches for it, as in the specification that both pollers
  implement: \<open>interest\<close> is \<open>None\<close> while the channel is not registered, and an operation that the
  specification does not allow is \<open>None\<close>.

  User callbacks are a parameter \<open>cb\<close>: the calls that a callback makes on the connection, as a function of
  the callback and of the state in which it starts.  The answers of \<^verbatim>\<open>write(2)\<close> are a parameter \<open>wr\<close>,
  indexed by the number of the call.  The fields after \<open>functors\<close> are histories: the bytes that the kernel
  took, the bytes that \<^verbatim>\<open>sendInLoop\<close> accepted, the bytes received and those that callbacks took out of
  the input buffer, the number of calls of \<^verbatim>\<open>closeCallback_\<close>, and whether \<^verbatim>\<open>shutdown()\<close> was requested.
\<close>

datatype StateE = kDisconnected | kConnecting | kConnected | kDisconnecting

datatype conn_functor =
  SendInLoop string | ShutdownInLoop | ForceCloseInLoop
| WriteCompleteCallback | HighWaterMarkCallback nat

record TcpConnection =
  state :: StateE
  reading :: bool
  interest :: "events option"
  removed :: bool
  inputBuffer :: Buffer
  outputBuffer :: Buffer
  highWaterMark :: nat
  hasWriteComplete :: bool
  hasHighWaterMark :: bool
  shutdownWr :: bool
  delayed :: nat
  functors :: "conn_functor list"
  writes :: nat
  wire :: "char list"
  accepted :: "char list"
  received :: "char list"
  consumed :: "char list"
  closes :: nat
  shutdownReq :: bool

definition TcpConnection_new :: "bool \<Rightarrow> bool \<Rightarrow> TcpConnection" where
  "TcpConnection_new wc hw =
     \<lparr>state = kConnecting, reading = True, interest = None, removed = False,
      inputBuffer = Buffer_new kInitialSize, outputBuffer = Buffer_new kInitialSize,
      highWaterMark = 64 * 1024 * 1024, hasWriteComplete = wc, hasHighWaterMark = hw,
      shutdownWr = False, delayed = 0, functors = [], writes = 0,
      wire = [], accepted = [], received = [], consumed = [], closes = 0, shutdownReq = False\<rparr>"

definition TcpConnection_dtor :: "TcpConnection \<Rightarrow> unit option" where
  "TcpConnection_dtor c = cassert (state c = kDisconnected)"

definition stateToString :: "StateE \<Rightarrow> string" where
  "stateToString s = (case s of
      kDisconnected \<Rightarrow> ''kDisconnected''
    | kConnecting \<Rightarrow> ''kConnecting''
    | kConnected \<Rightarrow> ''kConnected''
    | kDisconnecting \<Rightarrow> ''kDisconnecting'')"

subsection \<open>The channel and the socket\<close>

definition conn_channel :: "(events \<Rightarrow> events) \<Rightarrow> TcpConnection \<Rightarrow> TcpConnection option" where
  "conn_channel f c = (case interest c of
      Some ev \<Rightarrow> Some (c\<lparr>interest := Some (f ev)\<rparr>)
    | None \<Rightarrow> (if \<not> removed c \<and> f 0 \<noteq> 0 then Some (c\<lparr>interest := Some (f 0)\<rparr>) else None))"

definition conn_remove :: "TcpConnection \<Rightarrow> TcpConnection option" where
  "conn_remove c = do {
     cassert (interest c = Some kNoneEvent);
     Some (c\<lparr>interest := None, removed := True\<rparr>)
   }"

definition conn_isWriting :: "TcpConnection \<Rightarrow> bool" where
  "conn_isWriting c \<longleftrightarrow> (case interest c of Some ev \<Rightarrow> ev AND kWriteEvent \<noteq> 0 | None \<Rightarrow> False)"

definition conn_isReading :: "TcpConnection \<Rightarrow> bool" where
  "conn_isReading c \<longleftrightarrow> (case interest c of Some ev \<Rightarrow> ev AND kReadEvent \<noteq> 0 | None \<Rightarrow> False)"

datatype write_result = Wrote nat | WriteError int

definition EWOULDBLOCK :: int where "EWOULDBLOCK = 11"
definition EPIPE :: int where "EPIPE = 32"
definition ECONNRESET :: int where "ECONNRESET = 104"

type_synonym write_oracle = "nat \<Rightarrow> char list \<Rightarrow> write_result"

text \<open>After \<^verbatim>\<open>shutdown(SHUT_WR)\<close> the kernel answers \<^verbatim>\<open>EPIPE\<close>.\<close>

definition sock_write :: "write_oracle \<Rightarrow> char list \<Rightarrow> TcpConnection \<Rightarrow> write_result \<times> TcpConnection" where
  "sock_write wr data c =
     (let r = (if shutdownWr c then WriteError EPIPE else wr (writes c) data)
      in (r, c\<lparr>writes := writes c + 1, wire := wire c @ (case r of Wrote n \<Rightarrow> take n data | _ \<Rightarrow> [])\<rparr>))"

definition conn_queueInLoop :: "conn_functor \<Rightarrow> TcpConnection \<Rightarrow> TcpConnection" where
  "conn_queueInLoop f c = c\<lparr>functors := functors c @ [f]\<rparr>"

subsection \<open>Sending\<close>

text \<open>What \<^verbatim>\<open>sendInLoop\<close> does with the bytes that the kernel did not take at once.\<close>

definition queue_output :: "char list \<Rightarrow> nat \<Rightarrow> TcpConnection \<Rightarrow> TcpConnection option" where
  "queue_output rest remaining c = do {
     let oldLen = readableBytes (outputBuffer c);
     let c = (if oldLen + remaining \<ge> highWaterMark c \<and> oldLen < highWaterMark c \<and> hasHighWaterMark c
              then conn_queueInLoop (HighWaterMarkCallback (oldLen + remaining)) c else c);
     b \<leftarrow> Buffer_append rest (outputBuffer c);
     let c = c\<lparr>outputBuffer := b\<rparr>;
     (if \<not> conn_isWriting c then conn_channel (\<lambda>ev. ev OR kWriteEvent) c else Some c)
   }"

definition sendInLoop :: "write_oracle \<Rightarrow> char list \<Rightarrow> TcpConnection \<Rightarrow> TcpConnection option" where
  "sendInLoop wr data c =
     (if state c = kDisconnected then Some c
      else do {
        let len = length data;
        let (nwrote, remaining, faultError, c) =
          (if \<not> conn_isWriting c \<and> readableBytes (outputBuffer c) = 0
           then (case sock_write wr data c of
               (Wrote n, c) \<Rightarrow> (n, len - n, False,
                  if len - n = 0 \<and> hasWriteComplete c then conn_queueInLoop WriteCompleteCallback c else c)
             | (WriteError errno, c) \<Rightarrow>
                 (0, len, errno \<noteq> EWOULDBLOCK \<and> (errno = EPIPE \<or> errno = ECONNRESET), c))
           else (0, len, False, c));
        let c = c\<lparr>accepted := accepted c @ (if faultError then [] else data)\<rparr>;
        cassert (remaining \<le> len);
        (if \<not> faultError \<and> remaining > 0 then queue_output (drop nwrote data) remaining c else Some c)
      })"

definition TcpConnection_send :: "bool \<Rightarrow> write_oracle \<Rightarrow> string \<Rightarrow> TcpConnection \<Rightarrow> TcpConnection option" where
  "TcpConnection_send inLoop wr message c =
     (if state c = kConnected
      then (if inLoop then sendInLoop wr message c
            else Some (conn_queueInLoop (SendInLoop message) c))
      else Some c)"

text \<open>The overload for buffers, in the loop's thread: the buffer is emptied.\<close>

definition TcpConnection_send_Buffer ::
  "write_oracle \<Rightarrow> Buffer \<Rightarrow> TcpConnection \<Rightarrow> (Buffer \<times> TcpConnection) option" where
  "TcpConnection_send_Buffer wr buf c =
     (if state c = kConnected
      then do { c \<leftarrow> sendInLoop wr (Buffer_contents buf) c; Some (retrieveAll buf, c) }
      else Some (buf, c))"

subsection \<open>Closing\<close>

definition shutdownInLoop :: "TcpConnection \<Rightarrow> TcpConnection" where
  "shutdownInLoop c = (if \<not> conn_isWriting c then c\<lparr>shutdownWr := True\<rparr> else c)"

definition TcpConnection_shutdown :: "bool \<Rightarrow> TcpConnection \<Rightarrow> TcpConnection" where
  "TcpConnection_shutdown inLoop c =
     (if state c = kConnected
      then (let c = c\<lparr>state := kDisconnecting, shutdownReq := True\<rparr>
            in if inLoop then shutdownInLoop c else conn_queueInLoop ShutdownInLoop c)
      else c)"

definition forceClose :: "TcpConnection \<Rightarrow> TcpConnection" where
  "forceClose c =
     (if state c = kConnected \<or> state c = kDisconnecting
      then conn_queueInLoop ForceCloseInLoop (c\<lparr>state := kDisconnecting\<rparr>) else c)"

text \<open>The timer holds a weak pointer and calls \<^verbatim>\<open>forceClose\<close> when it expires.\<close>

definition forceCloseWithDelay :: "TcpConnection \<Rightarrow> TcpConnection" where
  "forceCloseWithDelay c =
     (if state c = kConnected \<or> state c = kDisconnecting
      then c\<lparr>state := kDisconnecting, delayed := delayed c + 1\<rparr> else c)"

definition startReadInLoop :: "TcpConnection \<Rightarrow> TcpConnection option" where
  "startReadInLoop c =
     (if \<not> reading c \<or> \<not> conn_isReading c
      then do { c \<leftarrow> conn_channel (\<lambda>ev. ev OR kReadEvent) c; Some (c\<lparr>reading := True\<rparr>) }
      else Some c)"

definition stopReadInLoop :: "TcpConnection \<Rightarrow> TcpConnection option" where
  "stopReadInLoop c =
     (if reading c \<or> conn_isReading c
      then do { c \<leftarrow> conn_channel (\<lambda>ev. ev AND NOT kReadEvent) c; Some (c\<lparr>reading := False\<rparr>) }
      else Some c)"

subsection \<open>Callbacks\<close>

datatype conn_call =
  Send string | SendInput | Shutdown | ForceClose | ForceCloseWithDelay | StartRead | StopRead | Retrieve nat

datatype conn_callback = OnConnection | OnMessage | OnWriteComplete | OnHighWaterMark nat

type_synonym conn_callbacks = "conn_callback \<Rightarrow> TcpConnection \<Rightarrow> conn_call list"

text \<open>A call in the loop's thread; \<open>SendInput\<close> sends the input buffer back, \<open>Retrieve\<close> takes what is there.\<close>

fun conn_call_step :: "write_oracle \<Rightarrow> conn_call \<Rightarrow> TcpConnection \<Rightarrow> TcpConnection option" where
  "conn_call_step wr (Send message) c = TcpConnection_send True wr message c"
| "conn_call_step wr SendInput c = do {
     (b, c') \<leftarrow> TcpConnection_send_Buffer wr (inputBuffer c) c;
     Some (c'\<lparr>inputBuffer := b, consumed := consumed c @ take (readableBytes (inputBuffer c) - readableBytes b)
               (Buffer_contents (inputBuffer c))\<rparr>)
   }"
| "conn_call_step wr Shutdown c = Some (TcpConnection_shutdown True c)"
| "conn_call_step wr ForceClose c = Some (forceClose c)"
| "conn_call_step wr ForceCloseWithDelay c = Some (forceCloseWithDelay c)"
| "conn_call_step wr StartRead c = startReadInLoop c"
| "conn_call_step wr StopRead c = stopReadInLoop c"
| "conn_call_step wr (Retrieve n) c = do {
     let n = min n (readableBytes (inputBuffer c));
     b \<leftarrow> retrieve n (inputBuffer c);
     Some (c\<lparr>inputBuffer := b, consumed := consumed c @ take n (Buffer_contents (inputBuffer c))\<rparr>)
   }"

definition run_callback :: "write_oracle \<Rightarrow> conn_callbacks \<Rightarrow> conn_callback \<Rightarrow> TcpConnection \<Rightarrow> TcpConnection option" where
  "run_callback wr cb k c = run_ops (conn_call_step wr) (cb k c) c"

subsection \<open>Handlers\<close>

definition connectEstablished :: "write_oracle \<Rightarrow> conn_callbacks \<Rightarrow> TcpConnection \<Rightarrow> TcpConnection option" where
  "connectEstablished wr cb c = do {
     cassert (state c = kConnecting);
     c \<leftarrow> conn_channel (\<lambda>ev. ev OR kReadEvent) (c\<lparr>state := kConnected\<rparr>);
     run_callback wr cb OnConnection c
   }"

definition connectDestroyed :: "write_oracle \<Rightarrow> conn_callbacks \<Rightarrow> TcpConnection \<Rightarrow> TcpConnection option" where
  "connectDestroyed wr cb c = do {
     c \<leftarrow> (if state c = kConnected
       then do {
         c \<leftarrow> conn_channel (\<lambda>_. kNoneEvent) (c\<lparr>state := kDisconnected\<rparr>);
         run_callback wr cb OnConnection c
       }
       else Some c);
     conn_remove c
   }"

definition handleClose :: "write_oracle \<Rightarrow> conn_callbacks \<Rightarrow> TcpConnection \<Rightarrow> TcpConnection option" where
  "handleClose wr cb c = do {
     cassert (state c = kConnected \<or> state c = kDisconnecting);
     c \<leftarrow> conn_channel (\<lambda>_. kNoneEvent) (c\<lparr>state := kDisconnected\<rparr>);
     c \<leftarrow> run_callback wr cb OnConnection c;
     Some (c\<lparr>closes := closes c + 1\<rparr>)
   }"

definition forceCloseInLoop :: "write_oracle \<Rightarrow> conn_callbacks \<Rightarrow> TcpConnection \<Rightarrow> TcpConnection option" where
  "forceCloseInLoop wr cb c =
     (if state c = kConnected \<or> state c = kDisconnecting then handleClose wr cb c else Some c)"

text \<open>\<^verbatim>\<open>handleError\<close> only logs.\<close>

definition TcpConnection_handleRead ::
  "write_oracle \<Rightarrow> conn_callbacks \<Rightarrow> readv_result \<Rightarrow> TcpConnection \<Rightarrow> TcpConnection option" where
  "TcpConnection_handleRead wr cb r c = do {
     rf \<leftarrow> readFd r (inputBuffer c);
     let c = c\<lparr>inputBuffer := rf_buffer rf, received := received c @ (case r of ReadvBytes d \<Rightarrow> d | _ \<Rightarrow> [])\<rparr>;
     (if rf_n rf > 0 then run_callback wr cb OnMessage c
      else if rf_n rf = 0 then handleClose wr cb c
      else Some c)
   }"

definition TcpConnection_handleWrite :: "write_oracle \<Rightarrow> TcpConnection \<Rightarrow> TcpConnection option" where
  "TcpConnection_handleWrite wr c =
     (if conn_isWriting c
      then (case sock_write wr (Buffer_contents (outputBuffer c)) c of
          (Wrote n, c) \<Rightarrow>
            (if n > 0
             then do {
               b \<leftarrow> retrieve n (outputBuffer c);
               let c = c\<lparr>outputBuffer := b\<rparr>;
               (if readableBytes (outputBuffer c) = 0
                then do {
                  c \<leftarrow> conn_channel (\<lambda>ev. ev AND NOT kWriteEvent) c;
                  let c = (if hasWriteComplete c then conn_queueInLoop WriteCompleteCallback c else c);
                  Some (if state c = kDisconnecting then shutdownInLoop c else c)
                }
                else Some c)
             }
             else Some c)
        | (WriteError _, c) \<Rightarrow> Some c)
      else Some c)"

text \<open>
  The operations on the channel are those of the specification of the pollers, for a connection whose
  channel is \<open>i\<close>.
\<close>

lemma conn_channel_interest:
  assumes "a (fdof i) = map_option (\<lambda>ev. (ev, i)) (interest c)" "i \<in> set gone \<longleftrightarrow> removed c"
  shows "interest_set fdof i f (a, gone) =
    map_option (\<lambda>c'. (a(fdof i := map_option (\<lambda>ev. (ev, i)) (interest c')), gone)) (conn_channel f c)"
  using assms by (auto simp: interest_set_def conn_channel_def split: option.splits)

lemma conn_remove_interest:
  assumes "a (fdof i) = map_option (\<lambda>ev. (ev, i)) (interest c)"
  shows "interest_step fdof (RemoveChannel i) (a, gone) =
    map_option (\<lambda>c'. (a(fdof i := map_option (\<lambda>ev. (ev, i)) (interest c')), i # gone)) (conn_remove c)"
  using assms by (auto simp: conn_remove_def event_consts cassert_def split: option.splits)

section \<open>Runs of a connection\<close>

text \<open>
  What can happen to a connection: it is established and destroyed by its owner, the loop dispatches the
  events of its channel and runs its functors, delayed closings expire, and the user calls it from the
  loop's thread or from others.
\<close>

datatype conn_event =
  Established | Destroyed
| ReadReady readv_result | WriteReady | CloseReady
| RunFunctor | DelayExpired
| UserCall conn_call | ForeignSend string | ForeignShutdown

fun conn_functor_step :: "write_oracle \<Rightarrow> conn_callbacks \<Rightarrow> conn_functor \<Rightarrow> TcpConnection \<Rightarrow> TcpConnection option" where
  "conn_functor_step wr cb (SendInLoop message) c = sendInLoop wr message c"
| "conn_functor_step wr cb ShutdownInLoop c = Some (shutdownInLoop c)"
| "conn_functor_step wr cb ForceCloseInLoop c = forceCloseInLoop wr cb c"
| "conn_functor_step wr cb WriteCompleteCallback c = run_callback wr cb OnWriteComplete c"
| "conn_functor_step wr cb (HighWaterMarkCallback n) c = run_callback wr cb (OnHighWaterMark n) c"

fun conn_step :: "write_oracle \<Rightarrow> conn_callbacks \<Rightarrow> conn_event \<Rightarrow> TcpConnection \<Rightarrow> TcpConnection option" where
  "conn_step wr cb Established c = connectEstablished wr cb c"
| "conn_step wr cb Destroyed c = connectDestroyed wr cb c"
| "conn_step wr cb (ReadReady r) c = TcpConnection_handleRead wr cb r c"
| "conn_step wr cb WriteReady c = TcpConnection_handleWrite wr c"
| "conn_step wr cb CloseReady c = handleClose wr cb c"
| "conn_step wr cb RunFunctor c =
     (case functors c of [] \<Rightarrow> Some c | f # fs \<Rightarrow> conn_functor_step wr cb f (c\<lparr>functors := fs\<rparr>))"
| "conn_step wr cb DelayExpired c =
     (if delayed c = 0 then Some c else Some (forceClose (c\<lparr>delayed := delayed c - 1\<rparr>)))"
| "conn_step wr cb (UserCall call) c = conn_call_step wr call c"
| "conn_step wr cb (ForeignSend message) c = TcpConnection_send False wr message c"
| "conn_step wr cb ForeignShutdown c = Some (TcpConnection_shutdown False c)"

definition live :: "TcpConnection \<Rightarrow> bool" where
  "live c \<longleftrightarrow> state c = kConnected \<or> state c = kDisconnecting"

text \<open>
  When an event can happen.  The owner establishes the connection first and destroys it when it is up or
  has been closed; a channel that watches nothing reports nothing; reading is started and stopped only
  while the connection is up.
\<close>

fun conn_call_ok :: "conn_call \<Rightarrow> TcpConnection \<Rightarrow> bool" where
  "conn_call_ok StartRead c \<longleftrightarrow> live c"
| "conn_call_ok StopRead c \<longleftrightarrow> live c"
| "conn_call_ok _ c \<longleftrightarrow> True"

fun conn_event_ok :: "conn_event \<Rightarrow> TcpConnection \<Rightarrow> bool" where
  "conn_event_ok Established c \<longleftrightarrow> state c = kConnecting"
| "conn_event_ok Destroyed c \<longleftrightarrow> \<not> removed c \<and> (state c = kConnected \<or> state c = kDisconnected)"
| "conn_event_ok (ReadReady r) c \<longleftrightarrow> live c"
| "conn_event_ok CloseReady c \<longleftrightarrow> live c"
| "conn_event_ok (UserCall call) c \<longleftrightarrow> conn_call_ok call c"
| "conn_event_ok _ c \<longleftrightarrow> True"

text \<open>The user's callbacks start and stop reading only on connections that are up.\<close>

definition callbacks_ok :: "conn_callbacks \<Rightarrow> bool" where
  "callbacks_ok cb \<longleftrightarrow> (\<forall>k c. \<not> live c \<longrightarrow> StartRead \<notin> set (cb k c) \<and> StopRead \<notin> set (cb k c))"

text \<open>\<^verbatim>\<open>write(2)\<close> does not take more than it is given.\<close>

definition write_ok :: "write_oracle \<Rightarrow> bool" where
  "write_ok wr \<longleftrightarrow> (\<forall>i d n. wr i d = Wrote n \<longrightarrow> n \<le> length d)"

inductive conn_reachable :: "write_oracle \<Rightarrow> conn_callbacks \<Rightarrow> TcpConnection \<Rightarrow> bool" for wr cb where
  new: "conn_reachable wr cb (TcpConnection_new wc hw)"
| step: "conn_reachable wr cb c \<Longrightarrow> conn_event_ok e c \<Longrightarrow> conn_step wr cb e c = Some c' \<Longrightarrow> conn_reachable wr cb c'"

subsection \<open>The invariant\<close>

definition out_bytes :: "TcpConnection \<Rightarrow> char list" where
  "out_bytes c = Buffer_contents (outputBuffer c)"

definition conn_data :: "TcpConnection \<Rightarrow> bool" where
  "conn_data c \<longleftrightarrow> Buffer_ok (inputBuffer c) \<and> Buffer_ok (outputBuffer c)
     \<and> accepted c = wire c @ out_bytes c \<and> received c = consumed c @ Buffer_contents (inputBuffer c)"

definition conn_chan :: "TcpConnection \<Rightarrow> bool" where
  "conn_chan c \<longleftrightarrow> (case state c of
      kConnecting \<Rightarrow> interest c = None \<and> \<not> removed c \<and> out_bytes c = [] \<and> functors c = [] \<and> delayed c = 0
    | kDisconnected \<Rightarrow> (if removed c then interest c = None else interest c = Some 0)
    | _ \<Rightarrow> \<not> removed c \<and> (\<exists>ev. interest c = Some ev \<and> event_mask ev) \<and> (conn_isWriting c \<longleftrightarrow> out_bytes c \<noteq> []))"

definition conn_close :: "TcpConnection \<Rightarrow> bool" where
  "conn_close c \<longleftrightarrow> closes c \<le> 1 \<and> (state c \<noteq> kDisconnected \<longrightarrow> closes c = 0)
     \<and> (\<not> shutdownWr c \<or> out_bytes c = [] \<and> state c = kDisconnecting \<or> state c = kDisconnected)
     \<and> (\<not> shutdownReq c \<or> state c = kDisconnecting \<or> state c = kDisconnected)
     \<and> (\<not> shutdownReq c \<or> \<not> live c \<or> out_bytes c \<noteq> [] \<or> ShutdownInLoop \<in> set (functors c) \<or> shutdownWr c)
     \<and> (ShutdownInLoop \<notin> set (functors c) \<or> state c = kDisconnecting \<or> state c = kDisconnected)"

definition conn_inv :: "TcpConnection \<Rightarrow> bool" where
  "conn_inv c \<longleftrightarrow> conn_data c \<and> conn_chan c \<and> conn_close c"

lemma conn_inv_new: "conn_inv (TcpConnection_new wc hw)"
  by (simp add: conn_inv_def conn_data_def conn_chan_def conn_close_def TcpConnection_new_def out_bytes_def live_def
      Buffer_new_ok)

lemma writing_mask:
  assumes "event_mask ev"
  shows "(ev OR kWriteEvent) AND kWriteEvent \<noteq> 0" "(ev AND NOT kWriteEvent) AND kWriteEvent = 0"
    "(ev OR kReadEvent) AND kWriteEvent \<noteq> 0 \<longleftrightarrow> ev AND kWriteEvent \<noteq> 0"
    "(ev AND NOT kReadEvent) AND kWriteEvent \<noteq> 0 \<longleftrightarrow> ev AND kWriteEvent \<noteq> 0"
  using assms by (auto simp: event_mask_def event_consts)

text \<open>What calls in the loop's thread do not change.\<close>

definition conn_frame :: "TcpConnection \<Rightarrow> TcpConnection \<Rightarrow> bool" where
  "conn_frame c c' \<longleftrightarrow> (live c' \<longleftrightarrow> live c) \<and> (state c' = kDisconnected \<longleftrightarrow> state c = kDisconnected)
     \<and> removed c' = removed c \<and> closes c' = closes c \<and> (\<exists>fs. functors c' = functors c @ fs)"

lemma conn_frame_refl [simp]: "conn_frame c c"
  by (simp add: conn_frame_def)

lemma conn_frame_trans: "conn_frame c c1 \<Longrightarrow> conn_frame c1 c2 \<Longrightarrow> conn_frame c c2"
  by (auto simp: conn_frame_def)

subsection \<open>Sending\<close>

text \<open>The three outcomes of \<^verbatim>\<open>sendInLoop\<close> on a connection that is up.\<close>

lemma sendInLoop_queued:
  assumes "state c \<noteq> kDisconnected" "conn_isWriting c"
  shows "sendInLoop wr d c = (let c = c\<lparr>accepted := accepted c @ d\<rparr> in if d = [] then Some c else queue_output d (length d) c)"
  using assms by (auto simp: sendInLoop_def Let_def)

lemma sendInLoop_wrote:
  assumes "state c \<noteq> kDisconnected" "\<not> conn_isWriting c" "readableBytes (outputBuffer c) = 0"
    and "\<not> shutdownWr c" "wr (writes c) d = Wrote n"
  shows "sendInLoop wr d c =
    (let c = c\<lparr>writes := writes c + 1, wire := wire c @ take n d, accepted := accepted c @ d\<rparr>
     in if length d \<le> n then Some (if hasWriteComplete c then conn_queueInLoop WriteCompleteCallback c else c)
        else queue_output (drop n d) (length d - n) c)"
  using assms
  by (simp add: sendInLoop_def Let_def sock_write_def conn_queueInLoop_def)

lemma sendInLoop_failed:
  assumes "state c \<noteq> kDisconnected" "\<not> conn_isWriting c" "readableBytes (outputBuffer c) = 0"
    and "shutdownWr c \<and> errno = EPIPE \<or> \<not> shutdownWr c \<and> wr (writes c) d = WriteError errno"
  shows "sendInLoop wr d c =
    (let c = c\<lparr>writes := writes c + 1\<rparr>
     in if errno = EPIPE \<or> errno = ECONNRESET then Some c
        else let c = c\<lparr>accepted := accepted c @ d\<rparr> in if d = [] then Some c else queue_output d (length d) c)"
  using assms
  by (auto simp: sendInLoop_def Let_def sock_write_def EWOULDBLOCK_def EPIPE_def ECONNRESET_def)

lemma queue_output_ok:
  assumes "Buffer_ok (outputBuffer c)" "interest c = Some ev" "event_mask ev"
  obtains fs b ev' where "queue_output rest r c = Some (c\<lparr>functors := functors c @ fs, outputBuffer := b, interest := Some ev'\<rparr>)"
    "Buffer_ok b" "Buffer_contents b = out_bytes c @ rest" "event_mask ev'" "ev' AND kWriteEvent \<noteq> 0"
    "ShutdownInLoop \<notin> set fs"
proof -
  obtain b where b: "Buffer_append rest (outputBuffer c) = Some b" "Buffer_ok b"
    "Buffer_contents b = Buffer_contents (outputBuffer c) @ rest" using buf.enq_law [OF assms(1)] by blast
  let ?fs = "if readableBytes (outputBuffer c) + r \<ge> highWaterMark c
      \<and> readableBytes (outputBuffer c) < highWaterMark c \<and> hasHighWaterMark c
    then [HighWaterMarkCallback (readableBytes (outputBuffer c) + r)] else []"
  let ?ev = "if ev AND kWriteEvent \<noteq> 0 then ev else ev OR kWriteEvent"
  show ?thesis
  proof (rule that [of ?ev b ?fs])
    show "queue_output rest r c = Some (c\<lparr>functors := functors c @ ?fs, outputBuffer := b, interest := Some ?ev\<rparr>)"
      using b(1) assms(2)
      by (simp add: queue_output_def Let_def conn_queueInLoop_def conn_isWriting_def conn_channel_def)
    show "Buffer_contents b = out_bytes c @ rest" using b(3) by (simp add: out_bytes_def)
    show "event_mask ?ev" "?ev AND kWriteEvent \<noteq> 0"
      using assms(3) event_mask_ops(4) writing_mask(1) by auto
    show "ShutdownInLoop \<notin> set ?fs" by simp
  qed (fact b(2))
qed

lemma live_inv:
  assumes "conn_inv c" "live c"
  obtains ev where "interest c = Some ev" "event_mask ev" "\<not> removed c" "closes c = 0"
    "ev AND kWriteEvent \<noteq> 0 \<longleftrightarrow> out_bytes c \<noteq> []" "Buffer_ok (outputBuffer c)"
proof -
  have 1: "conn_chan c" "conn_close c" "conn_data c" using assms(1) by (simp_all add: conn_inv_def)
  have "\<not> removed c \<and> (\<exists>ev. interest c = Some ev \<and> event_mask ev) \<and> (conn_isWriting c \<longleftrightarrow> out_bytes c \<noteq> [])"
    using 1(1) assms(2) unfolding conn_chan_def live_def by (cases "state c") simp_all
  then obtain ev where ev: "\<not> removed c" "interest c = Some ev" "event_mask ev" "conn_isWriting c \<longleftrightarrow> out_bytes c \<noteq> []"
    by blast
  have "closes c = 0" using 1(2) assms(2) unfolding conn_close_def live_def by (cases "state c") simp_all
  moreover have "Buffer_ok (outputBuffer c)" using 1(3) by (simp add: conn_data_def)
  ultimately show ?thesis using ev by (intro that [of ev]) (simp_all add: conn_isWriting_def)
qed

lemma live_invI:
  assumes "live c" "interest c = Some ev" "event_mask ev" "\<not> removed c" "closes c = 0"
    "ev AND kWriteEvent \<noteq> 0 \<longleftrightarrow> out_bytes c \<noteq> []" "conn_data c"
    "\<not> shutdownWr c \<or> out_bytes c = [] \<and> state c = kDisconnecting" "\<not> shutdownReq c \<or> state c = kDisconnecting"
    "\<not> shutdownReq c \<or> out_bytes c \<noteq> [] \<or> ShutdownInLoop \<in> set (functors c) \<or> shutdownWr c"
    "ShutdownInLoop \<notin> set (functors c) \<or> state c = kDisconnecting"
  shows "conn_inv c"
proof -
  have "conn_isWriting c \<longleftrightarrow> out_bytes c \<noteq> []" using assms(6) by (simp add: conn_isWriting_def assms(2))
  then have "conn_chan c"
    using assms(1-4) unfolding conn_chan_def live_def by (cases "state c") auto
  moreover have "conn_close c"
    using assms(1,5,8-11) unfolding conn_close_def live_def by auto
  ultimately show ?thesis using assms(7) by (simp add: conn_inv_def)
qed

definition send_frame :: "TcpConnection \<Rightarrow> TcpConnection \<Rightarrow> bool" where
  "send_frame c c' \<longleftrightarrow> conn_frame c c' \<and> received c' = received c \<and> consumed c' = consumed c \<and> inputBuffer c' = inputBuffer c"

lemma queue_output_inv:
  assumes inv: "conn_inv c" "live c" "\<not> shutdownWr c" and d: "rest \<noteq> []" "w @ rest = d"
    and w: "w = [] \<or> out_bytes c = []"
  shows "\<exists>c'. queue_output rest r (c\<lparr>writes := i, wire := wire c @ w, accepted := accepted c @ d\<rparr>) = Some c'
    \<and> conn_inv c' \<and> send_frame c c'"
proof -
  let ?c = "c\<lparr>writes := i, wire := wire c @ w, accepted := accepted c @ d\<rparr>"
  obtain ev where ev: "interest c = Some ev" "event_mask ev" "\<not> removed c" "closes c = 0" "Buffer_ok (outputBuffer c)"
    by (rule live_inv [OF inv(1,2)])
  obtain fs b ev' where q: "queue_output rest r ?c = Some (?c\<lparr>functors := functors ?c @ fs, outputBuffer := b, interest := Some ev'\<rparr>)"
    "Buffer_ok b" "Buffer_contents b = out_bytes ?c @ rest" "event_mask ev'" "ev' AND kWriteEvent \<noteq> 0"
    "ShutdownInLoop \<notin> set fs"
    by (rule queue_output_ok [of ?c ev]) (use ev in simp_all)
  let ?c' = "?c\<lparr>functors := functors ?c @ fs, outputBuffer := b, interest := Some ev'\<rparr>"
  have out: "out_bytes ?c' = out_bytes c @ rest" using q(3) by (simp add: out_bytes_def)
  have "conn_inv ?c'"
  proof (rule live_invI [of _ ev'])
    show "conn_data ?c'"
      using inv(1) q(2,3) w d(2) by (auto simp: conn_inv_def conn_data_def out_bytes_def)
    show "\<not> shutdownReq ?c' \<or> state ?c' = kDisconnecting"
      "ShutdownInLoop \<notin> set (functors ?c') \<or> state ?c' = kDisconnecting"
      using q(6) inv(1,2) by (auto simp: conn_inv_def conn_close_def live_def)
  qed (use inv(2,3) ev q(4,5) out d(1) in \<open>simp_all add: live_def\<close>)
  moreover have "send_frame c ?c'" by (simp add: send_frame_def conn_frame_def live_def)
  ultimately show ?thesis using q(1) by blast
qed

lemma sendInLoop_ok:
  assumes inv: "conn_inv c" "state c \<noteq> kConnecting" and wr: "write_ok wr"
  shows "\<exists>c'. sendInLoop wr d c = Some c' \<and> conn_inv c' \<and> send_frame c c'"
proof (cases "live c")
  case False
  then have "state c = kDisconnected" using inv(2) by (cases "state c") (auto simp: live_def)
  then show ?thesis using inv(1) by (simp add: sendInLoop_def send_frame_def)
next
  case True
  then have st: "state c \<noteq> kDisconnected" by (auto simp: live_def)
  obtain ev where ev: "interest c = Some ev" "event_mask ev" "\<not> removed c" "closes c = 0"
    "ev AND kWriteEvent \<noteq> 0 \<longleftrightarrow> out_bytes c \<noteq> []" "Buffer_ok (outputBuffer c)" by (rule live_inv [OF inv(1) True])
  have w: "conn_isWriting c \<longleftrightarrow> out_bytes c \<noteq> []" using ev by (simp add: conn_isWriting_def)
  have rd: "readableBytes (outputBuffer c) = 0 \<longleftrightarrow> out_bytes c = []"
    using ev(6) by (simp add: readableBytes_0_iff Buffer_ok_def out_bytes_def)
  have finish: "conn_inv c' \<and> send_frame c c'"
    if c': "c' = c\<lparr>writes := i, wire := wire c @ x, accepted := accepted c @ x, functors := functors c @ fs\<rparr>"
      and x: "x = [] \<or> out_bytes c = []" "ShutdownInLoop \<notin> set fs" for i x fs c'
  proof
    have close: "\<not> shutdownWr c \<or> out_bytes c = [] \<and> state c = kDisconnecting" "\<not> shutdownReq c \<or> state c = kDisconnecting"
      "\<not> shutdownReq c \<or> out_bytes c \<noteq> [] \<or> ShutdownInLoop \<in> set (functors c) \<or> shutdownWr c"
      "ShutdownInLoop \<notin> set (functors c) \<or> state c = kDisconnecting"
      using inv(1) True st by (simp_all add: conn_inv_def conn_close_def)
    have out: "out_bytes c' = out_bytes c" by (simp add: c' out_bytes_def)
    show "conn_inv c'"
    proof (rule live_invI [of _ ev], unfold out)
      show "conn_data c'" using inv(1) x(1) by (auto simp: c' conn_inv_def conn_data_def out_bytes_def)
    qed (use True ev x(2) close in \<open>simp_all add: c' live_def\<close>)
  qed (simp add: c' send_frame_def conn_frame_def live_def)
  show ?thesis
  proof (cases "out_bytes c = []")
    case False
    then have "\<not> shutdownWr c" using inv(1) st by (auto simp: conn_inv_def conn_close_def)
    from queue_output_inv [OF inv(1) True this, of d "[]" d "length d" "writes c"] finish [of _ "[]" "[]" "writes c"] show ?thesis
      using False w st by (auto simp: sendInLoop_queued Let_def)
  next
    case out: True
    show ?thesis
    proof (cases "\<exists>n. \<not> shutdownWr c \<and> wr (writes c) d = Wrote n")
      case True
      then obtain n where n: "\<not> shutdownWr c" "wr (writes c) d = Wrote n" "n \<le> length d"
        using wr by (auto simp: write_ok_def)
      have eq: "sendInLoop wr d c = (let c = c\<lparr>writes := writes c + 1, wire := wire c @ take n d, accepted := accepted c @ d\<rparr>
         in if length d \<le> n then Some (if hasWriteComplete c then conn_queueInLoop WriteCompleteCallback c else c)
            else queue_output (drop n d) (length d - n) c)"
        by (rule sendInLoop_wrote) (use st w rd out n in simp_all)
      show ?thesis
      proof (cases "length d \<le> n")
        case True
        then show ?thesis unfolding eq
          using out finish [OF refl, of d "if hasWriteComplete c then [WriteCompleteCallback] else []" "writes c + 1"]
          by (auto simp: Let_def conn_queueInLoop_def)
      next
        case False
        then show ?thesis unfolding eq
          using queue_output_inv [OF inv(1) \<open>live c\<close> n(1), of "drop n d" "take n d" d] out by (simp add: Let_def)
      qed
    next
      case False
      then obtain errno where e: "shutdownWr c \<and> errno = EPIPE \<or> \<not> shutdownWr c \<and> wr (writes c) d = WriteError errno"
        by (metis write_result.exhaust)
      have eq: "sendInLoop wr d c = (let c = c\<lparr>writes := writes c + 1\<rparr>
         in if errno = EPIPE \<or> errno = ECONNRESET then Some c
            else let c = c\<lparr>accepted := accepted c @ d\<rparr> in if d = [] then Some c else queue_output d (length d) c)"
        by (rule sendInLoop_failed) (use st w rd out e in simp_all)
      show ?thesis
      proof (cases "errno = EPIPE \<or> errno = ECONNRESET \<or> d = []")
        case True
        then show ?thesis unfolding eq using finish [of _ "[]" "[]" "writes c + 1"] by (auto simp: Let_def)
      next
        case False
        then have "\<not> shutdownWr c" using e by auto
        from queue_output_inv [OF inv(1) \<open>live c\<close> this, of d "[]" d "length d" "writes c + 1"] show ?thesis
          unfolding eq using False by (simp add: Let_def)
      qed
    qed
  qed
qed

subsection \<open>The other calls\<close>

lemma conn_isWriting_frame [simp]:
  "conn_isWriting (c\<lparr>state := s\<rparr>) = conn_isWriting c" "conn_isWriting (c\<lparr>shutdownReq := b\<rparr>) = conn_isWriting c"
  "conn_isWriting (c\<lparr>shutdownWr := b\<rparr>) = conn_isWriting c" "conn_isWriting (c\<lparr>functors := fs\<rparr>) = conn_isWriting c"
  "conn_isWriting (c\<lparr>inputBuffer := i\<rparr>) = conn_isWriting c" "conn_isWriting (c\<lparr>consumed := d\<rparr>) = conn_isWriting c"
  "conn_isWriting (c\<lparr>reading := b\<rparr>) = conn_isWriting c" "conn_isWriting (c\<lparr>delayed := n\<rparr>) = conn_isWriting c"
  "conn_isWriting (c\<lparr>received := d\<rparr>) = conn_isWriting c"
  by (simp_all add: conn_isWriting_def)

lemma input_frame:
  assumes "conn_inv c" "Buffer_ok b" "r = d @ Buffer_contents b"
  shows "conn_inv (c\<lparr>inputBuffer := b, consumed := d, received := r\<rparr>)"
  using assms
  by (auto simp: conn_inv_def conn_data_def conn_chan_def conn_close_def out_bytes_def live_def split: StateE.splits)

lemma consume_frame:
  assumes "conn_inv c" "Buffer_ok b" "received c = d @ Buffer_contents b"
  shows "conn_inv (c\<lparr>inputBuffer := b, consumed := d\<rparr>)"
  using input_frame [OF assms] by simp

lemma shutdown_ok:
  assumes inv: "conn_inv c"
  shows "conn_inv (TcpConnection_shutdown b c) \<and> conn_frame c (TcpConnection_shutdown b c)"
proof (cases "state c = kConnected")
  case s: True
  let ?c = "TcpConnection_shutdown b c"
  obtain ev where ev: "interest c = Some ev" "event_mask ev" "\<not> removed c" "closes c = 0"
    "ev AND kWriteEvent \<noteq> 0 \<longleftrightarrow> out_bytes c \<noteq> []" "Buffer_ok (outputBuffer c)"
    by (rule live_inv [OF inv]) (simp add: s live_def)
  then have w: "conn_isWriting c \<longleftrightarrow> out_bytes c \<noteq> []" by (simp add: conn_isWriting_def)
  have sw: "\<not> shutdownWr c" using inv s by (auto simp: conn_inv_def conn_close_def)
  have "conn_inv ?c"
    by (rule live_invI [of _ ev])
      (use inv s ev w sw in \<open>auto simp: TcpConnection_shutdown_def shutdownInLoop_def conn_queueInLoop_def Let_def
         live_def conn_inv_def conn_data_def out_bytes_def\<close>)
  then show ?thesis
    using s by (auto simp: TcpConnection_shutdown_def shutdownInLoop_def conn_queueInLoop_def Let_def conn_frame_def live_def)
qed (use inv in \<open>simp add: TcpConnection_shutdown_def\<close>)

lemma disconnecting_ok:
  assumes inv: "conn_inv c" and s: "live c"
  shows "conn_inv (c\<lparr>state := kDisconnecting, functors := functors c @ fs, delayed := n\<rparr>)"
proof -
  obtain ev where ev: "interest c = Some ev" "event_mask ev" "\<not> removed c" "closes c = 0"
    "ev AND kWriteEvent \<noteq> 0 \<longleftrightarrow> out_bytes c \<noteq> []" "Buffer_ok (outputBuffer c)"
    by (rule live_inv [OF inv s])
  show ?thesis
    by (rule live_invI [of _ ev])
      (use inv s ev in \<open>auto simp: live_def conn_inv_def conn_data_def out_bytes_def conn_close_def\<close>)
qed

lemma reading_ok:
  assumes inv: "conn_inv c" and s: "live c"
  shows "\<exists>c'. startReadInLoop c = Some c' \<and> conn_inv c' \<and> conn_frame c c'"
    and "\<exists>c'. stopReadInLoop c = Some c' \<and> conn_inv c' \<and> conn_frame c c'"
proof -
  obtain ev where ev: "interest c = Some ev" "event_mask ev" "\<not> removed c" "closes c = 0"
    "ev AND kWriteEvent \<noteq> 0 \<longleftrightarrow> out_bytes c \<noteq> []" "Buffer_ok (outputBuffer c)"
    by (rule live_inv [OF inv s])
  have upd: "conn_inv (c\<lparr>interest := Some ev', reading := b\<rparr>)"
    if "event_mask ev'" "ev' AND kWriteEvent \<noteq> 0 \<longleftrightarrow> ev AND kWriteEvent \<noteq> 0" for ev' b
    by (rule live_invI [of _ ev'])
      (use inv s ev that in \<open>auto simp: live_def conn_inv_def conn_data_def out_bytes_def conn_close_def\<close>)
  show "\<exists>c'. startReadInLoop c = Some c' \<and> conn_inv c' \<and> conn_frame c c'"
    using inv upd [OF event_mask_ops(2) [OF ev(2)] writing_mask(3) [OF ev(2)], of True] ev(1)
    by (auto simp: startReadInLoop_def conn_channel_def conn_frame_def live_def)
  show "\<exists>c'. stopReadInLoop c = Some c' \<and> conn_inv c' \<and> conn_frame c c'"
    using inv upd [OF event_mask_ops(3) [OF ev(2)] writing_mask(4) [OF ev(2)], of False] ev(1)
    by (auto simp: stopReadInLoop_def conn_channel_def conn_frame_def live_def)
qed

lemma conn_call_step_ok:
  assumes inv: "conn_inv c" and ok: "conn_call_ok call c" and wr: "write_ok wr"
  shows "\<exists>c'. conn_call_step wr call c = Some c' \<and> conn_inv c' \<and> conn_frame c c'"
proof (cases call)
  case (Send message)
  then show ?thesis using sendInLoop_ok [OF inv _ wr, of message] inv by (auto simp: TcpConnection_send_def send_frame_def)
next
  case SendInput
  let ?d = "Buffer_contents (inputBuffer c)"
  have i: "Buffer_ok (inputBuffer c)" "received c = consumed c @ ?d" using inv by (simp_all add: conn_inv_def conn_data_def)
  then have all: "Buffer_ok (retrieveAll (inputBuffer c))" "Buffer_contents (retrieveAll (inputBuffer c)) = []"
    using retrieveAll_ok [of "inputBuffer c"] by (auto simp: Buffer_ok_def) (simp add: retrieveAll_def)
  show ?thesis
  proof (cases "state c = kConnected")
    case True
    obtain c' where c': "sendInLoop wr ?d c = Some c'" "conn_inv c'" "conn_frame c c'" "received c' = received c"
      using sendInLoop_ok [OF inv _ wr, of ?d] True by (auto simp: send_frame_def)
    have "readableBytes (inputBuffer c) = length ?d" "readableBytes (retrieveAll (inputBuffer c)) = 0"
      using i(1) all by (auto simp: Buffer_ok_def readableBytes_0_iff)
    then show ?thesis
      using SendInput True c' i all consume_frame [OF c'(2) all(1), of "consumed c @ ?d"]
      by (simp add: TcpConnection_send_Buffer_def conn_frame_def live_def)
  qed (use SendInput inv in \<open>simp add: TcpConnection_send_Buffer_def\<close>)
next
  case Shutdown
  then show ?thesis using shutdown_ok [OF inv, of True] by simp
next
  case ForceClose
  then show ?thesis using disconnecting_ok [OF inv, of "delayed c" "[ForceCloseInLoop]"] inv
    by (auto simp: forceClose_def live_def conn_queueInLoop_def conn_frame_def)
next
  case ForceCloseWithDelay
  then show ?thesis using disconnecting_ok [OF inv, of "delayed c + 1" "[]"] inv
    by (auto simp: forceCloseWithDelay_def live_def conn_frame_def)
next
  case (Retrieve n)
  let ?d = "Buffer_contents (inputBuffer c)" and ?n = "min n (readableBytes (inputBuffer c))"
  have i: "Buffer_ok (inputBuffer c)" "received c = consumed c @ ?d" using inv by (simp_all add: conn_inv_def conn_data_def)
  obtain b where b: "retrieve ?n (inputBuffer c) = Some b" "Buffer_ok b" "Buffer_contents b = drop ?n ?d"
    using buf.deq_law [OF i(1), of ?n] i(1) by (auto simp: Buffer_ok_def)
  have "conn_inv (c\<lparr>inputBuffer := b, consumed := consumed c @ take ?n ?d\<rparr>)"
    by (rule consume_frame [OF inv b(2)]) (simp add: i(2) b(3))
  then show ?thesis using Retrieve b(1) by (auto simp: Let_def conn_frame_def live_def)
qed (use ok reading_ok [OF inv] in simp_all)

lemma run_callback_ok:
  assumes inv: "conn_inv c" and cb: "callbacks_ok cb" and wr: "write_ok wr"
  shows "\<exists>c'. run_callback wr cb k c = Some c' \<and> conn_inv c' \<and> conn_frame c c'"
proof -
  have calls: "live c \<or> (StartRead \<notin> set (cb k c) \<and> StopRead \<notin> set (cb k c))"
    using cb by (auto simp: callbacks_ok_def)
  have "\<exists>c'. run_ops (conn_call_step wr) (cb k c) c = Some c' \<and> (conn_inv c' \<and> live c' = live c) \<and> conn_frame c c'"
  proof (rule run_ops_total)
    fix x s assume "x \<in> set (cb k c)" and s: "conn_inv s \<and> live s = live c"
    then have "conn_call_ok x s" using calls by - (cases x; auto)
    from conn_call_step_ok [OF _ this wr] s
    show "\<exists>s'. conn_call_step wr x s = Some s' \<and> (conn_inv s' \<and> live s' = live c) \<and> conn_frame s s'"
      by (auto simp: conn_frame_def)
  qed (use inv conn_frame_trans in auto)
  then show ?thesis by (auto simp: run_callback_def)
qed

subsection \<open>The handlers\<close>

lemma close_channel_ok:
  assumes inv: "conn_inv c" and l: "live c"
  shows "\<exists>c'. conn_channel (\<lambda>_. kNoneEvent) (c\<lparr>state := kDisconnected\<rparr>) = Some c' \<and> conn_inv c'
    \<and> state c' = kDisconnected \<and> closes c' = 0 \<and> \<not> removed c'"
proof -
  obtain ev where ev: "interest c = Some ev" "\<not> removed c" "closes c = 0" by (rule live_inv [OF inv l])
  let ?c = "c\<lparr>state := kDisconnected, interest := Some 0\<rparr>"
  have "conn_inv ?c"
    using inv ev by (auto simp: conn_inv_def conn_chan_def conn_close_def conn_data_def out_bytes_def live_def)
  then show ?thesis using ev by (simp add: conn_channel_def event_consts)
qed

lemma handleClose_ok:
  assumes inv: "conn_inv c" and l: "live c" and cb: "callbacks_ok cb" and wr: "write_ok wr"
  shows "\<exists>c'. handleClose wr cb c = Some c' \<and> conn_inv c' \<and> state c' = kDisconnected \<and> closes c' = 1"
proof -
  obtain c1 where c1: "conn_channel (\<lambda>_. kNoneEvent) (c\<lparr>state := kDisconnected\<rparr>) = Some c1" "conn_inv c1"
    "state c1 = kDisconnected" "closes c1 = 0" using close_channel_ok [OF inv l] by blast
  obtain c2 where c2: "run_callback wr cb OnConnection c1 = Some c2" "conn_inv c2" "conn_frame c1 c2"
    using run_callback_ok [OF c1(2) cb wr] by blast
  have "conn_inv (c2\<lparr>closes := closes c2 + 1\<rparr>)"
    using c1(3,4) c2(2,3)
    by (auto simp: conn_inv_def conn_chan_def conn_close_def conn_data_def out_bytes_def live_def conn_frame_def)
  then show ?thesis
    using l c1 c2 by (simp add: handleClose_def live_def conn_frame_def)
qed

lemma connectEstablished_ok:
  assumes inv: "conn_inv c" and s: "state c = kConnecting" and cb: "callbacks_ok cb" and wr: "write_ok wr"
  shows "\<exists>c'. connectEstablished wr cb c = Some c' \<and> conn_inv c' \<and> live c' \<and> \<not> removed c' \<and> closes c' = 0"
proof -
  let ?c = "c\<lparr>state := kConnected, interest := Some (0 OR kReadEvent)\<rparr>"
  have "conn_inv ?c"
    by (rule live_invI [of _ "0 OR kReadEvent"])
      (use inv s in \<open>auto simp: live_def conn_inv_def conn_data_def conn_chan_def conn_close_def out_bytes_def event_consts event_mask_def\<close>)
  then obtain c' where "run_callback wr cb OnConnection ?c = Some c'" "conn_inv c'" "conn_frame ?c c'"
    using run_callback_ok [OF _ cb wr] by blast
  moreover have "\<not> removed c" "closes c = 0" using inv s by (simp_all add: conn_inv_def conn_chan_def conn_close_def)
  moreover have "conn_channel (\<lambda>ev. ev OR kReadEvent) (c\<lparr>state := kConnected\<rparr>) = Some ?c"
    using inv s by (simp add: conn_inv_def conn_chan_def conn_channel_def event_consts)
  ultimately show ?thesis using s by (simp add: connectEstablished_def conn_frame_def live_def)
qed

lemma connectDestroyed_ok:
  assumes inv: "conn_inv c" and s: "\<not> removed c" "state c = kConnected \<or> state c = kDisconnected"
    and cb: "callbacks_ok cb" and wr: "write_ok wr"
  shows "\<exists>c'. connectDestroyed wr cb c = Some c' \<and> conn_inv c' \<and> state c' = kDisconnected \<and> removed c'"
proof -
  have "\<exists>c2. (if state c = kConnected
       then do { c \<leftarrow> conn_channel (\<lambda>_. kNoneEvent) (c\<lparr>state := kDisconnected\<rparr>); run_callback wr cb OnConnection c }
       else Some c) = Some c2 \<and> conn_inv c2 \<and> state c2 = kDisconnected \<and> \<not> removed c2"
  proof (cases "state c = kConnected")
    case True
    obtain c1 where c1: "conn_channel (\<lambda>_. kNoneEvent) (c\<lparr>state := kDisconnected\<rparr>) = Some c1" "conn_inv c1"
      "state c1 = kDisconnected" "\<not> removed c1" using close_channel_ok [OF inv] True by (auto simp: live_def)
    obtain c2 where "run_callback wr cb OnConnection c1 = Some c2" "conn_inv c2" "conn_frame c1 c2"
      using run_callback_ok [OF c1(2) cb wr] by blast
    then show ?thesis using True c1 by (simp add: conn_frame_def)
  qed (use inv s in simp)
  then obtain c2 where c2: "(if state c = kConnected
       then do { c \<leftarrow> conn_channel (\<lambda>_. kNoneEvent) (c\<lparr>state := kDisconnected\<rparr>); run_callback wr cb OnConnection c }
       else Some c) = Some c2" "conn_inv c2" "state c2 = kDisconnected" "\<not> removed c2" by blast
  let ?c = "c2\<lparr>interest := None, removed := True\<rparr>"
  have "conn_inv ?c"
    using c2 by (auto simp: conn_inv_def conn_chan_def conn_close_def conn_data_def out_bytes_def live_def)
  moreover have "interest c2 = Some kNoneEvent" using c2 by (auto simp: conn_inv_def conn_chan_def event_consts)
  ultimately show ?thesis using c2 by (auto simp: connectDestroyed_def conn_remove_def)
qed

lemma handleRead_conn_ok:
  assumes inv: "conn_inv c" and l: "live c" and cb: "callbacks_ok cb" and wr: "write_ok wr"
  shows "\<exists>c'. TcpConnection_handleRead wr cb r c = Some c' \<and> conn_inv c'"
proof (cases r)
  case (ReadvError err)
  then show ?thesis using inv by (simp add: TcpConnection_handleRead_def readFd_def Let_def)
next
  case (ReadvBytes d)
  have i: "Buffer_ok (inputBuffer c)" "received c = consumed c @ Buffer_contents (inputBuffer c)"
    using inv by (simp_all add: conn_inv_def conn_data_def)
  obtain rf where rf: "readFd (ReadvBytes d) (inputBuffer c) = Some rf" "rf_n rf = int (length d)"
    "Buffer_ok (rf_buffer rf)" "Buffer_contents (rf_buffer rf) = Buffer_contents (inputBuffer c) @ d"
    using readFd_ok [OF i(1)] by blast
  let ?c = "c\<lparr>inputBuffer := rf_buffer rf, received := received c @ d\<rparr>"
  have c: "conn_inv ?c" "live ?c"
    using input_frame [OF inv rf(3), of "received c @ d" "consumed c"] i rf(4) l by (simp_all add: live_def)
  from run_callback_ok [OF c(1) cb wr, of OnMessage] handleClose_ok [OF c cb wr] show ?thesis
    using ReadvBytes rf(1,2) by (auto simp: TcpConnection_handleRead_def Let_def)
qed

lemma handleWrite_conn_ok:
  assumes inv: "conn_inv c" and wr: "write_ok wr"
  shows "\<exists>c'. TcpConnection_handleWrite wr c = Some c' \<and> conn_inv c'"
proof (cases "conn_isWriting c")
  case True
  then have l: "live c" using inv by (cases "state c") (auto simp: conn_inv_def conn_chan_def live_def conn_isWriting_def split: if_splits)
  obtain ev where ev: "interest c = Some ev" "event_mask ev" "\<not> removed c" "closes c = 0"
    "ev AND kWriteEvent \<noteq> 0 \<longleftrightarrow> out_bytes c \<noteq> []" "Buffer_ok (outputBuffer c)" by (rule live_inv [OF inv l])
  then have out: "out_bytes c \<noteq> []" using True by (simp add: conn_isWriting_def)
  then have sw: "\<not> shutdownWr c" using inv l by (auto simp: conn_inv_def conn_close_def live_def)
  let ?d = "Buffer_contents (outputBuffer c)"
  have same: "conn_inv (c\<lparr>writes := i\<rparr>)" for i
    by (rule live_invI [of _ ev]) (use inv l ev in \<open>auto simp: live_def out_bytes_def conn_inv_def conn_close_def conn_data_def\<close>)
  show ?thesis
  proof (cases "wr (writes c) ?d")
    case (WriteError e)
    then show ?thesis using True sw same by (simp add: TcpConnection_handleWrite_def sock_write_def Let_def)
  next
    case (Wrote n)
    then have n: "n \<le> length ?d" using wr by (auto simp: write_ok_def)
    obtain b where b: "retrieve n (outputBuffer c) = Some b" "Buffer_ok b" "Buffer_contents b = drop n ?d"
      using buf.deq_law [OF ev(6) n] by blast
    let ?c = "c\<lparr>writes := writes c + 1, wire := wire c @ take n ?d, outputBuffer := b\<rparr>"
    have data: "conn_data ?c" using inv b(2,3) by (simp add: conn_inv_def conn_data_def out_bytes_def)
    have rd: "readableBytes b = 0 \<longleftrightarrow> drop n ?d = []" using b(2,3) by (simp add: Buffer_ok_def readableBytes_0_iff)
    consider "n = 0" | "n > 0" "drop n ?d \<noteq> []" | "n > 0" "drop n ?d = []" by blast
    then show ?thesis
    proof cases
      case 1
      then show ?thesis using True sw same Wrote by (simp add: TcpConnection_handleWrite_def sock_write_def Let_def)
    next
      case 2
      have "conn_inv ?c"
        by (rule live_invI [of _ ev]) (use 2 inv l ev data sw b(3) out in \<open>auto simp: live_def out_bytes_def conn_inv_def conn_close_def\<close>)
      then show ?thesis using 2 True sw Wrote b(1) rd by (simp add: TcpConnection_handleWrite_def sock_write_def Let_def)
    next
      case 3
      let ?ev = "ev AND NOT kWriteEvent"
      let ?fs = "if hasWriteComplete c then [WriteCompleteCallback] else []"
      let ?c' = "?c\<lparr>interest := Some ?ev, functors := functors c @ ?fs, shutdownWr := (state c = kDisconnecting)\<rparr>"
      have "conn_inv ?c'"
        by (rule live_invI [of _ ?ev])
          (use 3 inv l ev data sw b(3) event_mask_ops(5) [OF ev(2)] writing_mask(2) [OF ev(2)]
            in \<open>auto simp: live_def out_bytes_def conn_inv_def conn_close_def conn_data_def\<close>)
      moreover have "TcpConnection_handleWrite wr c = Some ?c'"
        using 3 True sw Wrote b(1) rd ev(1) writing_mask(2) [OF ev(2)]
        by (auto simp: TcpConnection_handleWrite_def sock_write_def Let_def conn_channel_def shutdownInLoop_def
            conn_queueInLoop_def conn_isWriting_def)
      ultimately show ?thesis by blast
    qed
  qed
qed (use inv in \<open>simp add: TcpConnection_handleWrite_def\<close>)

lemma pop_functor:
  assumes inv: "conn_inv c" and f: "functors c = f # fs" "f \<noteq> ShutdownInLoop"
  shows "conn_inv (c\<lparr>functors := fs\<rparr>)" "state c \<noteq> kConnecting"
proof -
  show st: "state c \<noteq> kConnecting" using inv f(1) by (auto simp: conn_inv_def conn_chan_def)
  have "ShutdownInLoop \<in> set fs \<longleftrightarrow> ShutdownInLoop \<in> set (functors c)" using f by auto
  then show "conn_inv (c\<lparr>functors := fs\<rparr>)"
    using inv st by (auto simp: conn_inv_def conn_data_def conn_chan_def conn_close_def out_bytes_def live_def
        split: StateE.splits)
qed

lemma shutdownInLoop_ok:
  assumes inv: "conn_inv c" and f: "functors c = ShutdownInLoop # fs"
    and req: "state c = kDisconnecting \<or> state c = kDisconnected"
  shows "conn_inv (shutdownInLoop (c\<lparr>functors := fs\<rparr>))"
proof (cases "state c = kDisconnecting")
  case True
  then have l: "live c" by (simp add: live_def)
  obtain ev where ev: "interest c = Some ev" "event_mask ev" "\<not> removed c" "closes c = 0"
    "ev AND kWriteEvent \<noteq> 0 \<longleftrightarrow> out_bytes c \<noteq> []" "Buffer_ok (outputBuffer c)" by (rule live_inv [OF inv l])
  show ?thesis
    by (rule live_invI [of _ ev])
      (use inv l ev True in \<open>auto simp: shutdownInLoop_def live_def out_bytes_def conn_inv_def conn_close_def conn_data_def conn_isWriting_def\<close>)
next
  case False
  with req have st: "state c = kDisconnected" by simp
  show ?thesis
    using inv st by (auto simp: shutdownInLoop_def conn_inv_def conn_data_def conn_chan_def conn_close_def out_bytes_def live_def)
qed

lemma conn_functor_step_ok:
  assumes inv: "conn_inv c" and f: "functors c = f # fs" and cb: "callbacks_ok cb" and wr: "write_ok wr"
  shows "\<exists>c'. conn_functor_step wr cb f (c\<lparr>functors := fs\<rparr>) = Some c' \<and> conn_inv c'"
proof (cases "f = ShutdownInLoop")
  case True
  have "state c = kDisconnecting \<or> state c = kDisconnected" using inv f True by (auto simp: conn_inv_def conn_close_def)
  then show ?thesis using True shutdownInLoop_ok [OF inv] f by simp
next
  case False
  note c = pop_functor [OF inv f False]
  show ?thesis
  proof (cases f)
    case (SendInLoop message)
    then show ?thesis using sendInLoop_ok [OF c(1) _ wr, of message] c(2) by auto
  next
    case ForceCloseInLoop
    show ?thesis
    proof (cases "live c")
      case True
      then have "live (c\<lparr>functors := fs\<rparr>)" by (simp add: live_def)
      from handleClose_ok [OF c(1) this cb wr] show ?thesis
        using ForceCloseInLoop True by (auto simp: forceCloseInLoop_def live_def)
    qed (use ForceCloseInLoop c(1) in \<open>simp add: forceCloseInLoop_def live_def\<close>)
  qed (use False run_callback_ok [OF c(1) cb wr] in auto)
qed

lemma delay_ok:
  assumes "conn_inv c" "0 < delayed c"
  shows "conn_inv (forceClose (c\<lparr>delayed := n\<rparr>))"
proof (cases "live c")
  case True
  then have "forceClose (c\<lparr>delayed := n\<rparr>) = c\<lparr>state := kDisconnecting, functors := functors c @ [ForceCloseInLoop], delayed := n\<rparr>"
    by (intro TcpConnection.equality) (simp_all add: forceClose_def conn_queueInLoop_def live_def)
  then show ?thesis using disconnecting_ok [OF assms(1) True, of n "[ForceCloseInLoop]"] by simp
next
  case False
  then have "state c = kDisconnected"
    using assms by (cases "state c") (auto simp: live_def conn_inv_def conn_chan_def)
  then show ?thesis using assms(1)
    by (simp add: forceClose_def conn_inv_def conn_data_def conn_chan_def conn_close_def out_bytes_def live_def)
qed

lemma conn_step_ok:
  assumes inv: "conn_inv c" and ok: "conn_event_ok e c" and cb: "callbacks_ok cb" and wr: "write_ok wr"
  shows "\<exists>c'. conn_step wr cb e c = Some c' \<and> conn_inv c'"
proof (cases e)
  case RunFunctor
  then show ?thesis using conn_functor_step_ok [OF inv _ cb wr] inv by (cases "functors c") auto
next
  case DelayExpired
  then show ?thesis using delay_ok [OF inv] inv by simp
next
  case (UserCall call)
  then show ?thesis using conn_call_step_ok [OF inv _ wr] ok by fastforce
next
  case (ForeignSend message)
  have "conn_inv (conn_queueInLoop (SendInLoop message) c)" if s: "state c = kConnected"
    using inv s by (auto simp: conn_queueInLoop_def conn_inv_def conn_data_def conn_chan_def conn_close_def out_bytes_def live_def)
  then show ?thesis using ForeignSend inv by (simp add: TcpConnection_send_def)
next
  case ForeignShutdown
  then show ?thesis using shutdown_ok [OF inv, of False] by simp
next
  case CloseReady
  then show ?thesis using handleClose_ok [OF inv _ cb wr] ok by auto
next
  case Established
  then show ?thesis using connectEstablished_ok [OF inv _ cb wr] ok by auto
next
  case Destroyed
  then show ?thesis using connectDestroyed_ok [OF inv _ _ cb wr] ok by auto
qed (use handleRead_conn_ok [OF inv _ cb wr] handleWrite_conn_ok [OF inv wr] ok in auto)

lemma conn_reachable_inv:
  assumes "conn_reachable wr cb c" "callbacks_ok cb" "write_ok wr"
  shows "conn_inv c"
  using assms(1)
proof induction
  case (new wc hw)
  then show ?case by (rule conn_inv_new)
next
  case (step c e c')
  then show ?case using conn_step_ok [OF step.IH step.hyps(2) assms(2,3)] by auto
qed

subsection \<open>Properties\<close>

text \<open>A connection with callbacks that do nothing and a kernel that takes everything.\<close>

lemma quiet_params: "callbacks_ok (\<lambda>_ _. [])" "write_ok (\<lambda>i d. Wrote (length d))"
  by (simp_all add: callbacks_ok_def write_ok_def)

lemma quiet_up:
  "conn_reachable (\<lambda>i d. Wrote (length d)) (\<lambda>_ _. []) ((TcpConnection_new False False)\<lparr>state := kConnected, interest := Some 3\<rparr>)"
proof (rule conn_reachable.step [OF conn_reachable.new])
  show "conn_event_ok Established (TcpConnection_new False False)" by (simp add: TcpConnection_new_def)
qed (simp add: connectEstablished_def TcpConnection_new_def conn_channel_def run_callback_def event_consts)

lemma quiet_closing:
  "conn_reachable (\<lambda>i d. Wrote (length d)) (\<lambda>_ _. []) ((TcpConnection_new False False)
    \<lparr>state := kDisconnecting, interest := Some 3, shutdownReq := True, shutdownWr := True\<rparr>)"
proof (rule conn_reachable.step [OF quiet_up])
  show "conn_event_ok (UserCall Shutdown) ((TcpConnection_new False False)\<lparr>state := kConnected, interest := Some 3\<rparr>)" by simp
qed (simp add: TcpConnection_new_def TcpConnection_shutdown_def shutdownInLoop_def conn_isWriting_def event_consts)



text \<open>
  C14. The byte streams.  In every reachable state the bytes accepted for sending are the bytes that the
  kernel took followed by the bytes in the output buffer, and the bytes received are the bytes that the
  callbacks took followed by those in the input buffer: nothing is lost, repeated or reordered.
\<close>

theorem TcpConnection_streams:
  assumes "callbacks_ok cb" "write_ok wr" "conn_reachable wr cb c"
  shows "accepted c = wire c @ Buffer_contents (outputBuffer c)
    \<and> received c = consumed c @ Buffer_contents (inputBuffer c)"
  using conn_reachable_inv [OF assms(3,1,2)] by (simp add: conn_inv_def conn_data_def out_bytes_def)

theorem TcpConnection_streams_witness:
  "\<exists>c. conn_reachable (\<lambda>i d. Wrote (length d)) (\<lambda>_ _. []) c \<and> wire c = ''hi''
     \<and> accepted c = wire c @ Buffer_contents (outputBuffer c)"
proof -
  let ?c = "(TcpConnection_new False False)\<lparr>state := kConnected, interest := Some 3, writes := 1, wire := ''hi'', accepted := ''hi''\<rparr>"
  have "conn_reachable (\<lambda>i d. Wrote (length d)) (\<lambda>_ _. []) ?c"
  proof (rule conn_reachable.step [OF quiet_up])
    show "conn_event_ok (UserCall (Send ''hi'')) ((TcpConnection_new False False)\<lparr>state := kConnected, interest := Some 3\<rparr>)" by simp
  qed (simp add: TcpConnection_new_def TcpConnection_send_def sendInLoop_def sock_write_def conn_isWriting_def event_consts
      Let_def Buffer_new_def readableBytes_def)
  from TcpConnection_streams [OF quiet_params this] this show ?thesis by (intro exI [of _ ?c]) simp
qed



text \<open>
  Two ways to abort.  A connection that is closing but not yet closed, as \<^verbatim>\<open>shutdown()\<close> leaves it while
  it waits for the peer, cannot be destroyed by its owner: its channel is still enabled when
  \<^verbatim>\<open>connectDestroyed\<close> removes it.  And \<^verbatim>\<open>startRead()\<close> on a closed connection enables the channel again, with
  the same consequence.
\<close>

lemma TcpConnection_destroy_aborts:
  assumes "callbacks_ok cb" "write_ok wr" "conn_reachable wr cb c"
  shows "(state c = kDisconnecting \<and> conn_isReading c \<longrightarrow> connectDestroyed wr cb c = None)
    \<and> (state c = kDisconnected \<and> \<not> removed c \<longrightarrow>
        Option.bind (conn_call_step wr StartRead c) (connectDestroyed wr cb) = None)"
proof -
  have inv: "conn_inv c" by (rule conn_reachable_inv [OF assms(3,1,2)])
  have "connectDestroyed wr cb c = None" if "state c = kDisconnecting" "conn_isReading c"
    using that by (auto simp: connectDestroyed_def conn_remove_def conn_isReading_def event_consts cassert_def split: option.splits)
  moreover have "Option.bind (conn_call_step wr StartRead c) (connectDestroyed wr cb) = None"
    if "state c = kDisconnected" "\<not> removed c"
  proof -
    have "interest c = Some 0" using inv that by (simp add: conn_inv_def conn_chan_def)
    then show ?thesis using that
      by (simp add: startReadInLoop_def conn_isReading_def conn_channel_def connectDestroyed_def conn_remove_def event_consts)
  qed
  ultimately show ?thesis by blast
qed

end
