(* ===== verification/Net_HttpContext.thy ===== *)
theory Net_HttpContext
  imports Net_Buffer Base_Timestamp
begin

section \<open>HTTP requests\<close>

text \<open>
  \<^verbatim>\<open>muduo/net/http/HttpRequest.h\<close>, \<^verbatim>\<open>HttpContext.h\<close> and \<^verbatim>\<open>HttpContext.cc\<close>: the incremental parser of request
  lines and headers.  A pair of pointers into a line is the string between them.
\<close>

datatype Method = kInvalid | kGet | kPost | kHead | kPut | kDelete
datatype Version = kUnknown | kHttp10 | kHttp11

record HttpRequest =
  hr_method :: Method
  hr_version :: Version
  path :: string
  query :: string
  receiveTime :: Timestamp
  headers :: "(string, string) smap"

definition HttpRequest_new :: HttpRequest where
  "HttpRequest_new = \<lparr>hr_method = kInvalid, hr_version = kUnknown, path = [], query = [],
     receiveTime = Timestamp_invalid, headers = []\<rparr>"

definition setVersion :: "Version \<Rightarrow> HttpRequest \<Rightarrow> HttpRequest" where
  "setVersion v req = req\<lparr>hr_version := v\<rparr>"

definition setMethod :: "string \<Rightarrow> HttpRequest \<Rightarrow> (bool \<times> HttpRequest) option" where
  "setMethod m req = do {
     cassert (hr_method req = kInvalid);
     let method = (if m = ''GET'' then kGet
                   else if m = ''POST'' then kPost
                   else if m = ''HEAD'' then kHead
                   else if m = ''PUT'' then kPut
                   else if m = ''DELETE'' then kDelete
                   else kInvalid);
     Some (method \<noteq> kInvalid, req\<lparr>hr_method := method\<rparr>)
   }"

definition methodString :: "Method \<Rightarrow> string" where
  "methodString m = (case m of
      kGet \<Rightarrow> ''GET''
    | kPost \<Rightarrow> ''POST''
    | kHead \<Rightarrow> ''HEAD''
    | kPut \<Rightarrow> ''PUT''
    | kDelete \<Rightarrow> ''DELETE''
    | kInvalid \<Rightarrow> ''UNKNOWN'')"

definition setPath :: "string \<Rightarrow> HttpRequest \<Rightarrow> HttpRequest" where
  "setPath p req = req\<lparr>path := p\<rparr>"

definition setQuery :: "string \<Rightarrow> HttpRequest \<Rightarrow> HttpRequest" where
  "setQuery q req = req\<lparr>query := q\<rparr>"

definition setReceiveTime :: "Timestamp \<Rightarrow> HttpRequest \<Rightarrow> HttpRequest" where
  "setReceiveTime t req = req\<lparr>receiveTime := t\<rparr>"

text \<open>\<^verbatim>\<open>isspace\<close> in the C locale.\<close>

definition isspace :: "char \<Rightarrow> bool" where
  "isspace c \<longleftrightarrow> c = CHR '' '' \<or> 9 \<le> (of_char c :: nat) \<and> (of_char c :: nat) \<le> 13"

fun trim_right :: "string \<Rightarrow> nat \<Rightarrow> string" where
  "trim_right val 0 = []"
| "trim_right val (Suc n) = (if isspace (val ! n) then trim_right val n else take (Suc n) val)"

text \<open>\<open>line\<close> is the range from \<^verbatim>\<open>start\<close> to \<^verbatim>\<open>end\<close> and \<open>colon\<close> an offset in it.\<close>

definition HttpRequest_addHeader :: "string \<Rightarrow> nat \<Rightarrow> HttpRequest \<Rightarrow> HttpRequest" where
  "HttpRequest_addHeader line colon req =
     (let field = take colon line;
          val = dropWhile isspace (drop (colon + 1) line);
          val = trim_right val (length val)
      in req\<lparr>headers := smap_put field val (headers req)\<rparr>)"

definition getHeader :: "string \<Rightarrow> HttpRequest \<Rightarrow> string" where
  "getHeader field req = (case map_of (headers req) field of Some v \<Rightarrow> v | None \<Rightarrow> [])"

definition HttpRequest_swap :: "HttpRequest \<times> HttpRequest \<Rightarrow> HttpRequest \<times> HttpRequest" where
  "HttpRequest_swap = (\<lambda>(this, that).
     (this\<lparr>hr_method := hr_method that, hr_version := hr_version that, path := path that, query := query that,
           receiveTime := receiveTime that, headers := headers that\<rparr>,
      that\<lparr>hr_method := hr_method this, hr_version := hr_version this, path := path this, query := query this,
           receiveTime := receiveTime this, headers := headers this\<rparr>))"

subsection \<open>The parser\<close>

datatype HttpRequestParseState = kExpectRequestLine | kExpectHeaders | kExpectBody | kGotAll

record HttpContext =
  hc_state :: HttpRequestParseState
  request :: HttpRequest

definition HttpContext_new :: HttpContext where
  "HttpContext_new = \<lparr>hc_state = kExpectRequestLine, request = HttpRequest_new\<rparr>"

definition gotAll :: "HttpContext \<Rightarrow> bool" where
  "gotAll c \<longleftrightarrow> hc_state c = kGotAll"

definition HttpContext_reset :: "HttpContext \<Rightarrow> HttpContext" where
  "HttpContext_reset c = c\<lparr>hc_state := kExpectRequestLine, request := fst (HttpRequest_swap (request c, HttpRequest_new))\<rparr>"

text \<open>What follows the method and its space.\<close>

definition processRequestTarget :: "string \<Rightarrow> HttpRequest \<Rightarrow> bool \<times> HttpRequest" where
  "processRequestTarget start req =
     (let space = std_find (CHR '' '') start
      in if space \<noteq> length start
         then (let target = take space start;
                   question = std_find (CHR ''?'') target;
                   req = (if question \<noteq> length target
                          then setQuery (drop question target) (setPath (take question target) req)
                          else setPath target req);
                   start = drop (space + 1) start;
                   succeed = (length start = 8 \<and> take 7 start = ''HTTP/1.'')
               in if succeed
                  then (if start ! 7 = CHR ''1'' then (True, setVersion kHttp11 req)
                        else if start ! 7 = CHR ''0'' then (True, setVersion kHttp10 req)
                        else (False, req))
                  else (False, req))
         else (False, req))"

definition processRequestLine :: "string \<Rightarrow> HttpRequest \<Rightarrow> (bool \<times> HttpRequest) option" where
  "processRequestLine line req =
     (let space = std_find (CHR '' '') line
      in if space \<noteq> length line
         then do {
           (valid, req) \<leftarrow> setMethod (take space line) req;
           Some (if valid then processRequestTarget (drop (space + 1) line) req else (False, req))
         }
         else Some (False, req))"

text \<open>
  The loop of \<^verbatim>\<open>parseRequest\<close>.  In the states \<open>kExpectBody\<close> and \<open>kGotAll\<close> the body of the loop does nothing
  and \<^verbatim>\<open>hasMore\<close> stays true.
\<close>

partial_function (option) parseRequest ::
  "Timestamp \<Rightarrow> HttpContext \<Rightarrow> Buffer \<Rightarrow> (bool \<times> HttpContext \<times> Buffer) option" where
  "parseRequest now c b =
     (if hc_state c = kExpectRequestLine
      then (case findCRLF b of
          Some crlf \<Rightarrow> do {
            (succeed, req) \<leftarrow> processRequestLine (subrange (Buffer_peek b) crlf (buffer b)) (request c);
            (if succeed
             then do {
               b \<leftarrow> retrieveUntil (crlf + 2) b;
               parseRequest now (c\<lparr>request := setReceiveTime now req, hc_state := kExpectHeaders\<rparr>) b
             }
             else Some (False, c\<lparr>request := req\<rparr>, b))
          }
        | None \<Rightarrow> Some (True, c, b))
      else if hc_state c = kExpectHeaders
      then (case findCRLF b of
          Some crlf \<Rightarrow>
            (if std_find (CHR '':'') (subrange (Buffer_peek b) crlf (buffer b)) \<noteq> crlf - Buffer_peek b
             then do {
               b' \<leftarrow> retrieveUntil (crlf + 2) b;
               parseRequest now (c\<lparr>request := HttpRequest_addHeader (subrange (Buffer_peek b) crlf (buffer b))
                  (std_find (CHR '':'') (subrange (Buffer_peek b) crlf (buffer b))) (request c)\<rparr>) b'
             }
             else do {
               b' \<leftarrow> retrieveUntil (crlf + 2) b;
               Some (True, c\<lparr>hc_state := kGotAll\<rparr>, b')
             })
        | None \<Rightarrow> Some (True, c, b))
      else parseRequest now c b)"

section \<open>Parsing a byte stream\<close>

text \<open>The first line of a stream, without its CRLF, and what follows.\<close>

definition next_line :: "string \<Rightarrow> (string \<times> string) option" where
  "next_line xs = (let k = std_search kCRLF xs in if k = length xs then None else Some (take k xs, drop (k + 2) xs))"

lemma kCRLF_simps: "kCRLF \<noteq> []" "length kCRLF = 2" "butlast kCRLF = [CHR 0x0D]"
  by (simp_all add: kCRLF_def)

lemma next_line_None: "next_line xs = None \<longleftrightarrow> \<not> sublist kCRLF xs"
  by (simp add: next_line_def Let_def std_search_None_iff kCRLF_simps)

lemma next_line_Some:
  assumes "next_line xs = Some (line, rest)"
  shows "xs = line @ kCRLF @ rest" "\<not> sublist kCRLF (line @ [CHR 0x0D])" "length rest < length xs"
proof -
  let ?k = "std_search kCRLF xs"
  have k: "?k < length xs" "line = take ?k xs" "rest = drop (?k + 2) xs"
    using assms std_search_le [of kCRLF xs] by (auto simp: next_line_def Let_def split: if_splits simp del: std_search_le)
  show "xs = line @ kCRLF @ rest" "\<not> sublist kCRLF (line @ [CHR 0x0D])"
    using std_search_split [OF kCRLF_simps(1) k(1)] k(2,3) by (simp_all add: kCRLF_simps)
  show "length rest < length xs" using k(1,3) by simp
qed

lemma next_lineI:
  assumes "\<not> sublist kCRLF (line @ [CHR 0x0D])"
  shows "next_line (line @ kCRLF @ rest) = Some (line, rest)"
proof -
  let ?xs = "line @ kCRLF @ rest"
  have "std_search kCRLF ?xs = length line"
  proof (rule std_search_eqI)
    show "take (length kCRLF) (drop (length line) ?xs) = kCRLF" by simp
    show "length line < length ?xs" by (simp add: kCRLF_simps)
    fix i assume i: "i < length line"
    show "take (length kCRLF) (drop i ?xs) \<noteq> kCRLF"
    proof
      assume "take (length kCRLF) (drop i ?xs) = kCRLF"
      moreover have "take 2 (drop i ?xs) = take 2 (drop i (line @ [CHR 0x0D]))"
        using i by (simp add: kCRLF_def take_Cons' numeral_2_eq_2)
      ultimately have "take (length kCRLF) (drop i (line @ [CHR 0x0D])) = kCRLF" by (simp add: kCRLF_simps)
      then show False using assms i unfolding sublist_take_drop [OF kCRLF_simps(1)] by auto
    qed
  qed
  then show ?thesis by (simp add: next_line_def Let_def kCRLF_simps)
qed

lemma next_line_append:
  assumes "next_line xs = Some (line, rest)"
  shows "next_line (xs @ ys) = Some (line, rest @ ys)"
  using next_lineI [OF next_line_Some(2) [OF assms], of "rest @ ys"] next_line_Some(1) [OF assms] by simp

text \<open>The parser over a list of bytes; \<open>None\<close> is a failed assertion or an endless loop.\<close>

function parse_bytes :: "Timestamp \<Rightarrow> HttpContext \<Rightarrow> string \<Rightarrow> (bool \<times> HttpContext \<times> string) option" where
  "parse_bytes now c xs = (case hc_state c of
      kExpectRequestLine \<Rightarrow> (case next_line xs of
          Some (line, rest) \<Rightarrow> do {
            (succeed, req) \<leftarrow> processRequestLine line (request c);
            (if succeed then parse_bytes now (c\<lparr>request := setReceiveTime now req, hc_state := kExpectHeaders\<rparr>) rest
             else Some (False, c\<lparr>request := req\<rparr>, xs))
          }
        | None \<Rightarrow> Some (True, c, xs))
    | kExpectHeaders \<Rightarrow> (case next_line xs of
          Some (line, rest) \<Rightarrow>
            (if CHR '':'' \<in> set line
             then parse_bytes now (c\<lparr>request := HttpRequest_addHeader line (std_find (CHR '':'') line) (request c)\<rparr>) rest
             else Some (True, c\<lparr>hc_state := kGotAll\<rparr>, rest))
        | None \<Rightarrow> Some (True, c, xs))
    | _ \<Rightarrow> None)"
  by pat_completeness auto
termination
  by (relation "measure (\<lambda>(now, c, xs). length xs)") (auto dest: next_line_Some(3))

declare parse_bytes.simps [simp del]

lemma parse_bytes_step:
  "hc_state c = kExpectRequestLine \<Longrightarrow> next_line xs = Some (line, rest) \<Longrightarrow> parse_bytes now c xs = do {
     (succeed, req) \<leftarrow> processRequestLine line (request c);
     (if succeed then parse_bytes now (c\<lparr>request := setReceiveTime now req, hc_state := kExpectHeaders\<rparr>) rest
      else Some (False, c\<lparr>request := req\<rparr>, xs)) }"
  "hc_state c = kExpectHeaders \<Longrightarrow> next_line xs = Some (line, rest) \<Longrightarrow> parse_bytes now c xs =
     (if CHR '':'' \<in> set line
      then parse_bytes now (c\<lparr>request := HttpRequest_addHeader line (std_find (CHR '':'') line) (request c)\<rparr>) rest
      else Some (True, c\<lparr>hc_state := kGotAll\<rparr>, rest))"
  "hc_state c = kExpectRequestLine \<or> hc_state c = kExpectHeaders \<Longrightarrow> next_line xs = None \<Longrightarrow>
     parse_bytes now c xs = Some (True, c, xs)"
  "hc_state c = kExpectBody \<or> hc_state c = kGotAll \<Longrightarrow> parse_bytes now c xs = None"
  by (auto simp: parse_bytes.simps [of now c xs])

definition parsed_rel :: "bool \<times> HttpContext \<times> Buffer \<Rightarrow> bool \<times> HttpContext \<times> string \<Rightarrow> bool" where
  "parsed_rel = (\<lambda>(ok, c, b) (ok', c', xs). ok = ok' \<and> c = c' \<and> Buffer_ok b \<and> Buffer_contents b = xs)"

lemma Buffer_next_line:
  assumes "Buffer_ok b"
  shows "next_line (Buffer_contents b) = None \<Longrightarrow> findCRLF b = None"
    and "next_line (Buffer_contents b) = Some (line, rest) \<Longrightarrow> \<exists>crlf b'. findCRLF b = Some crlf
      \<and> subrange (Buffer_peek b) crlf (buffer b) = line \<and> crlf - Buffer_peek b = length line
      \<and> retrieveUntil (crlf + 2) b = Some b' \<and> Buffer_ok b' \<and> Buffer_contents b' = rest"
proof -
  let ?xs = "Buffer_contents b"
  let ?k = "std_search kCRLF ?xs"
  have eq: "findCRLF b = (if ?k = length ?xs then None else Some (Buffer_peek b + ?k))"
    using findCRLF_eq assms by (simp add: Buffer_ok_def Let_def)
  show "findCRLF b = None" if "next_line ?xs = None"
    using that eq by (simp add: next_line_def Let_def split: if_splits)
  assume n: "next_line ?xs = Some (line, rest)"
  then have k: "?k < length ?xs" "line = take ?k ?xs" "rest = drop (?k + 2) ?xs"
    using std_search_le [of kCRLF ?xs] by (auto simp: next_line_def Let_def split: if_splits simp del: std_search_le)
  have room: "?k + 2 \<le> length ?xs" using std_search_room [OF k(1)] by (simp add: kCRLF_simps)
  then obtain b' where b': "retrieve (?k + 2) b = Some b'" "Buffer_ok b'" "Buffer_contents b' = drop (?k + 2) ?xs"
    using buf.deq_law [OF assms] by blast
  have "retrieveUntil (Buffer_peek b + ?k + 2) b = Some b'"
    using retrieveUntil_ok [OF assms room] b'(1) by (simp add: add.assoc)
  moreover have "subrange (Buffer_peek b) (Buffer_peek b + ?k) (buffer b) = line"
    using k(2) take_contents [of b ?k] assms k(1) by (simp add: Buffer_ok_def take_drop_subrange)
  ultimately show "\<exists>crlf b'. findCRLF b = Some crlf
      \<and> subrange (Buffer_peek b) crlf (buffer b) = line \<and> crlf - Buffer_peek b = length line
      \<and> retrieveUntil (crlf + 2) b = Some b' \<and> Buffer_ok b' \<and> Buffer_contents b' = rest"
    using eq k b' by (intro exI [of _ "Buffer_peek b + ?k"] exI [of _ b']) simp
qed

lemma parseRequest_diverges:
  assumes "hc_state c = kExpectBody \<or> hc_state c = kGotAll"
  shows "parseRequest now c b = None"
proof (rule ccontr)
  assume "parseRequest now c b \<noteq> None"
  then obtain r where "parseRequest now c b = Some r" by blast
  then have "hc_state c \<noteq> kExpectBody \<and> hc_state c \<noteq> kGotAll"
    by (rule parseRequest.raw_induct [rotated]) (auto split: if_splits)
  then show False using assms by blast
qed

lemma parseRequest_parse_bytes:
  assumes "Buffer_ok b"
  shows "rel_option parsed_rel (parseRequest now c b) (parse_bytes now c (Buffer_contents b))"
  using assms
proof (induction "length (Buffer_contents b)" arbitrary: c b rule: less_induct)
  case less
  note nl = Buffer_next_line [OF less.prems]
  have IH: "rel_option parsed_rel (parseRequest now c' b') (parse_bytes now c' rest)"
    if "next_line (Buffer_contents b) = Some (line, rest)" "Buffer_ok b'" "Buffer_contents b' = rest" for line rest c' b'
    using less.hyps [of b' c'] next_line_Some(3) [OF that(1)] that(2,3) by simp
  show ?case
  proof (cases "next_line (Buffer_contents b)")
    case None
    have "rel_option parsed_rel (parseRequest now c b) (parse_bytes now c (Buffer_contents b))"
      if "hc_state c = kExpectRequestLine \<or> hc_state c = kExpectHeaders"
      using that None nl(1) less.prems
      by (subst parseRequest.simps, subst parse_bytes.simps) (auto simp: parsed_rel_def)
    then show ?thesis
      by (cases "hc_state c") (simp_all add: parseRequest_diverges parse_bytes.simps [of now c])
  next
    case (Some p)
    then obtain line rest where n: "next_line (Buffer_contents b) = Some (line, rest)" by (cases p) auto
    then obtain crlf b' where b': "findCRLF b = Some crlf" "subrange (Buffer_peek b) crlf (buffer b) = line"
      "crlf - Buffer_peek b = length line" "retrieveUntil (crlf + 2) b = Some b'" "Buffer_ok b'" "Buffer_contents b' = rest"
      using nl(2) [OF n] by blast
    show ?thesis
    proof (cases "hc_state c")
      case kExpectRequestLine
      then show ?thesis
        using b' n less.prems IH [OF n b'(5,6)]
        by (subst parseRequest.simps, subst parse_bytes.simps)
          (auto simp: parsed_rel_def split: Option.bind_splits)
    next
      case kExpectHeaders
      then show ?thesis
        using b' n IH [OF n b'(5,6)]
        by (subst parseRequest.simps, subst parse_bytes.simps)
          (auto simp: parsed_rel_def std_find_eq_length_iff)
    qed (simp_all add: parseRequest_diverges parse_bytes.simps [of now c])
  qed
qed

subsection \<open>Arrival in pieces\<close>

definition finished :: "bool \<Rightarrow> HttpContext \<Rightarrow> bool" where
  "finished ok c \<longleftrightarrow> \<not> ok \<or> gotAll c"

text \<open>What was parsed stays parsed when more bytes arrive.\<close>

lemma parse_bytes_append:
  assumes "parse_bytes now c xs = Some (ok, c', rest)"
  shows "parse_bytes now c (xs @ ys) =
    (if finished ok c' then Some (ok, c', rest @ ys) else parse_bytes now c' (rest @ ys))"
  using assms
proof (induction now c xs rule: parse_bytes.induct)
  case (1 now c xs)
  show ?case
  proof (cases "next_line xs")
    case None
    then show ?thesis
      using "1.prems" by (cases "hc_state c") (auto simp: parse_bytes_step finished_def gotAll_def)
  next
    case (Some p)
    then obtain line rest' where n: "next_line xs = Some (line, rest')" by (cases p) auto
    note n' = next_line_append [OF n, of ys]
    show ?thesis
    proof (cases "hc_state c")
      case kExpectRequestLine
      then obtain succeed req where r: "processRequestLine line (request c) = Some (succeed, req)"
        using "1.prems" n by (auto simp: parse_bytes_step)
      show ?thesis
        using "1.prems" kExpectRequestLine n n' r
          "1.IH"(1) [OF kExpectRequestLine n refl r refl]
        by (auto simp: parse_bytes_step(1) finished_def split: if_splits)
    next
      case kExpectHeaders
      then show ?thesis
        using "1.prems" n n' "1.IH"(2) [OF kExpectHeaders n refl]
        by (auto simp: parse_bytes_step(2) finished_def gotAll_def split: if_splits)
    qed (use "1.prems" in \<open>simp_all add: parse_bytes_step\<close>)
  qed
qed

text \<open>The moment of arrival only shows in the receive time.\<close>

definition no_time :: "HttpContext \<Rightarrow> HttpContext" where
  "no_time c = c\<lparr>request := setReceiveTime Timestamp_invalid (request c)\<rparr>"

definition at_time :: "Timestamp \<Rightarrow> HttpContext \<Rightarrow> HttpContext" where
  "at_time t c = c\<lparr>request := setReceiveTime t (request c)\<rparr>"

lemma no_time_eq: "no_time c = no_time c' \<longleftrightarrow> (\<exists>t. c' = at_time t c)"
proof
  assume eq: "no_time c = no_time c'"
  have "c' = at_time (receiveTime (request c')) c"
    using eq by (cases c; cases c'; cases "request c"; cases "request c'") (simp add: no_time_def at_time_def setReceiveTime_def)
  then show "\<exists>t. c' = at_time t c" ..
qed (auto simp: no_time_def at_time_def setReceiveTime_def)

lemma set_time_commute:
  "setPath p (setReceiveTime t req) = setReceiveTime t (setPath p req)"
  "setQuery p (setReceiveTime t req) = setReceiveTime t (setQuery p req)"
  "setVersion v (setReceiveTime t req) = setReceiveTime t (setVersion v req)"
  by (simp_all add: setPath_def setQuery_def setVersion_def setReceiveTime_def)

lemma setMethod_time:
  "setMethod m (setReceiveTime t req) = map_option (\<lambda>(ok, req). (ok, setReceiveTime t req)) (setMethod m req)"
  by (simp add: setMethod_def setReceiveTime_def Let_def)

lemma processRequestTarget_time:
  "processRequestTarget start (setReceiveTime t req) =
     (case processRequestTarget start req of (ok, req) \<Rightarrow> (ok, setReceiveTime t req))"
  by (simp add: processRequestTarget_def set_time_commute Let_def)

lemma processRequestLine_time:
  "processRequestLine line (setReceiveTime t req) =
     map_option (\<lambda>(ok, req). (ok, setReceiveTime t req)) (processRequestLine line req)"
  by (cases "setMethod (take (std_find (CHR '' '') line) line) req")
    (auto simp: processRequestLine_def setMethod_time processRequestTarget_time Let_def simp del: bind_eq_Some)

lemma addHeader_time:
  "HttpRequest_addHeader line i (setReceiveTime t req) = setReceiveTime t (HttpRequest_addHeader line i req)"
  by (simp add: HttpRequest_addHeader_def setReceiveTime_def Let_def)

lemma parse_bytes_time:
  "\<exists>t'. parse_bytes now' (at_time t c) xs =
     map_option (\<lambda>(ok, c', rest). (ok, at_time t' c', rest)) (parse_bytes now c xs)"
proof (induction now c xs arbitrary: t rule: parse_bytes.induct)
  case (1 now c xs)
  have st: "hc_state (at_time t c) = hc_state c" for t by (simp add: at_time_def)
  show ?case
  proof (cases "next_line xs")
    case None
    then show ?thesis by (cases "hc_state c") (auto simp: parse_bytes_step st)
  next
    case (Some p)
    then obtain line rest where n: "next_line xs = Some (line, rest)" by (cases p) auto
    show ?thesis
    proof (cases "hc_state c")
      case s: kExpectRequestLine
      show ?thesis
      proof (cases "processRequestLine line (request c)")
        case None
        then show ?thesis using s n by (simp add: parse_bytes_step(1) st) (simp add: at_time_def processRequestLine_time)
      next
        case (Some r)
        then obtain ok req where r: "processRequestLine line (request c) = Some (ok, req)" by (cases r) auto
        then have r': "processRequestLine line (request (at_time t c)) = Some (ok, setReceiveTime t req)"
          by (simp add: at_time_def processRequestLine_time)
        let ?c = "c\<lparr>request := setReceiveTime now req, hc_state := kExpectHeaders\<rparr>"
        have eq: "(at_time t c)\<lparr>request := setReceiveTime now' (setReceiveTime t req), hc_state := kExpectHeaders\<rparr>
          = at_time now' ?c" by (simp add: at_time_def setReceiveTime_def)
        have "(at_time t c)\<lparr>request := setReceiveTime t req\<rparr> = at_time t (c\<lparr>request := req\<rparr>)" by (simp add: at_time_def)
        then show ?thesis
          using s n r r' "1.IH"(1) [OF s n refl r refl, of now'] eq by (cases ok) (auto simp: parse_bytes_step(1) st)
      qed
    next
      case s: kExpectHeaders
      have "(at_time t c)\<lparr>request := HttpRequest_addHeader line i (request (at_time t c))\<rparr>
          = at_time t (c\<lparr>request := HttpRequest_addHeader line i (request c)\<rparr>)" for i
        by (simp add: at_time_def addHeader_time)
      moreover have "(at_time t c)\<lparr>hc_state := kGotAll\<rparr> = at_time t (c\<lparr>hc_state := kGotAll\<rparr>)" by (simp add: at_time_def)
      ultimately show ?thesis
        using s n "1.IH"(2) [OF s n refl, of t] by (cases "CHR '':'' \<in> set line") (auto simp: parse_bytes_step(2) st)
    qed (simp_all add: parse_bytes_step st)
  qed
qed

text \<open>The connection's buffer over several deliveries, until the request is complete or refused.\<close>

fun http_feed :: "(Timestamp \<times> string) list \<Rightarrow> HttpContext \<Rightarrow> Buffer
    \<Rightarrow> (bool \<times> HttpContext \<times> Buffer \<times> (Timestamp \<times> string) list) option" where
  "http_feed [] c b = Some (True, c, b, [])"
| "http_feed ((t, d) # chunks) c b = do {
     b \<leftarrow> Buffer_append d b;
     (ok, c, b) \<leftarrow> parseRequest t c b;
     (if finished ok c then Some (ok, c, b, chunks) else http_feed chunks c b)
   }"

text \<open>A context never meets the assertion of \<^verbatim>\<open>setMethod\<close> before a request was refused.\<close>

definition context_ok :: "HttpContext \<Rightarrow> bool" where
  "context_ok c \<longleftrightarrow> (hc_state c = kExpectRequestLine \<and> hr_method (request c) = kInvalid) \<or> hc_state c = kExpectHeaders"

lemma processRequestLine_total:
  assumes "hr_method req = kInvalid"
  shows "processRequestLine line req \<noteq> None"
proof -
  obtain v req' where "setMethod (take (std_find (CHR '' '') line) line) req = Some (v, req')"
    using assms by (simp add: setMethod_def Let_def)
  then show ?thesis
    by (cases "std_find (CHR '' '') line = length line") (simp_all add: processRequestLine_def del: bind_eq_Some not_None_eq)
qed

lemma parse_bytes_total:
  "context_ok c \<Longrightarrow> \<exists>ok c' rest. parse_bytes now c xs = Some (ok, c', rest)
     \<and> (finished ok c' \<or> context_ok c' \<and> next_line rest = None)"
proof (induction now c xs rule: parse_bytes.induct)
  case (1 now c xs)
  show ?case
  proof (cases "next_line xs")
    case None
    then show ?thesis using "1.prems" by (auto simp: context_ok_def parse_bytes_step)
  next
    case (Some p)
    then obtain line rest where n: "next_line xs = Some (line, rest)" by (cases p) auto
    from "1.prems" consider (req) "hc_state c = kExpectRequestLine" "hr_method (request c) = kInvalid" | (hdr) "hc_state c = kExpectHeaders"
      by (auto simp: context_ok_def)
    then show ?thesis
    proof cases
      case req
      then have "processRequestLine line (request c) \<noteq> None" by (rule_tac processRequestLine_total)
      then obtain ok q where r: "processRequestLine line (request c) = Some (ok, q)" by (metis not_None_eq surj_pair)
      show ?thesis
        using req n r "1.IH"(1) [OF req(1) n refl r refl]
        by (cases ok) (auto simp: parse_bytes_step(1) finished_def context_ok_def)
    next
      case hdr
      then show ?thesis
        using n "1.IH"(2) [OF hdr n refl]
        by (cases "CHR '':'' \<in> set line") (auto simp: parse_bytes_step(2) finished_def gotAll_def context_ok_def)
    qed
  qed
qed

lemma parse_bytes_now:
  assumes "parse_bytes t c xs = Some (ok, c1, rest)"
  shows "\<exists>c2. parse_bytes now c xs = Some (ok, c2, rest) \<and> no_time c2 = no_time c1"
proof -
  have same: "at_time (receiveTime (request c)) c = c" by (simp add: at_time_def setReceiveTime_def)
  show ?thesis
    using parse_bytes_time [of now "receiveTime (request c)" c xs t] assms unfolding same
    by (auto simp: no_time_def at_time_def setReceiveTime_def)
qed

lemma http_feed_ok:
  assumes "Buffer_ok b" "context_ok c" "next_line (Buffer_contents b) = None"
  shows "\<exists>ok c' b' left c2. http_feed chunks c b = Some (ok, c', b', left) \<and> Buffer_ok b'
    \<and> parse_bytes now c (Buffer_contents b @ concat (map snd chunks)) =
        Some (ok, c2, Buffer_contents b' @ concat (map snd left)) \<and> no_time c2 = no_time c'"
  using assms
proof (induction chunks arbitrary: b c)
  case Nil
  then show ?case by (auto simp: parse_bytes_step(3) context_ok_def)
next
  case (Cons chunk chunks)
  obtain t d where chunk: "chunk = (t, d)" by fastforce
  let ?ys = "concat (map snd chunks)"
  obtain b1 where b1: "Buffer_append d b = Some b1" "Buffer_ok b1" "Buffer_contents b1 = Buffer_contents b @ d"
    using buf.enq_law [OF Cons.prems(1)] by blast
  obtain ok c1 rest where p: "parse_bytes t c (Buffer_contents b1) = Some (ok, c1, rest)"
    "finished ok c1 \<or> context_ok c1 \<and> next_line rest = None"
    using parse_bytes_total [OF Cons.prems(2)] by blast
  then obtain b2 where b2: "parseRequest t c b1 = Some (ok, c1, b2)" "Buffer_ok b2" "Buffer_contents b2 = rest"
    using parseRequest_parse_bytes [OF b1(2), of t c] by (auto simp: option_rel_Some2 parsed_rel_def)
  have all: "parse_bytes t c (Buffer_contents b @ d @ ?ys) =
      (if finished ok c1 then Some (ok, c1, rest @ ?ys) else parse_bytes t c1 (rest @ ?ys))"
    using parse_bytes_append [OF p(1), of ?ys] b1(3) by simp
  show ?case
  proof (cases "finished ok c1")
    case True
    then show ?thesis
      using parse_bytes_now [OF all [unfolded if_P [OF True]], of now] chunk b1 b2 by auto
  next
    case False
    then obtain ok' c' b' left c2 where f: "http_feed chunks c1 b2 = Some (ok', c', b', left)" "Buffer_ok b'"
      "parse_bytes now c1 (rest @ ?ys) = Some (ok', c2, Buffer_contents b' @ concat (map snd left))" "no_time c2 = no_time c'"
      using Cons.IH [OF b2(2), of c1] p(2) b2(3) by auto
    obtain c3 where c3: "parse_bytes t c1 (rest @ ?ys) = Some (ok', c3, Buffer_contents b' @ concat (map snd left))"
      "no_time c3 = no_time c2" using parse_bytes_now [OF f(3)] by blast
    obtain c4 where "parse_bytes now c (Buffer_contents b @ d @ ?ys) = Some (ok', c4, Buffer_contents b' @ concat (map snd left))"
      "no_time c4 = no_time c3" using parse_bytes_now [OF all [unfolded if_not_P [OF False] c3(1)], of now] by blast
    then show ?thesis using chunk b1(1) b2(1) False f c3(2) by auto
  qed
qed

subsection \<open>Printing requests\<close>

definition versionString :: "Version \<Rightarrow> string" where
  "versionString v = (if v = kHttp11 then ''HTTP/1.1'' else ''HTTP/1.0'')"

definition header_line :: "string \<times> string \<Rightarrow> string" where
  "header_line = (\<lambda>(field, val). field @ '': '' @ val)"

definition request_line :: "HttpRequest \<Rightarrow> string" where
  "request_line req = methodString (hr_method req) @ '' '' @ path req @ query req @ '' '' @ versionString (hr_version req)"

definition http_print :: "HttpRequest \<Rightarrow> string" where
  "http_print req = request_line req @ kCRLF @ concat (map (\<lambda>h. header_line h @ kCRLF) (headers req)) @ kCRLF"

text \<open>Requests that a line-based protocol can carry.\<close>

definition plain :: "string \<Rightarrow> bool" where
  "plain s \<longleftrightarrow> CHR 0x0D \<notin> set s"

definition header_ok :: "string \<times> string \<Rightarrow> bool" where
  "header_ok = (\<lambda>(field, val). plain field \<and> plain val \<and> CHR '':'' \<notin> set field
     \<and> (val \<noteq> [] \<longrightarrow> \<not> isspace (hd val) \<and> \<not> isspace (last val)))"

definition request_ok :: "HttpRequest \<Rightarrow> bool" where
  "request_ok req \<longleftrightarrow> hr_method req \<noteq> kInvalid \<and> hr_version req \<noteq> kUnknown
     \<and> plain (path req) \<and> CHR '' '' \<notin> set (path req) \<and> CHR ''?'' \<notin> set (path req)
     \<and> plain (query req) \<and> CHR '' '' \<notin> set (query req) \<and> (query req \<noteq> [] \<longrightarrow> hd (query req) = CHR ''?'')
     \<and> smap_ok (headers req) \<and> (\<forall>h \<in> set (headers req). header_ok h)"

lemma plain_line:
  assumes "plain line"
  shows "next_line (line @ kCRLF @ rest) = Some (line, rest)"
proof (rule next_lineI)
  show "\<not> sublist kCRLF (line @ [CHR 0x0D])"
  proof
    assume "sublist kCRLF (line @ [CHR 0x0D])"
    then obtain ps ss where e: "line @ [CHR 0x0D] = ps @ CHR 0x0D # CHR 0x0A # ss" by (auto simp: sublist_def kCRLF_def)
    then have "line = ps @ CHR 0x0D # butlast (CHR 0x0A # ss)"
      by (metis append_butlast_last_id butlast.simps(2) butlast_append butlast_snoc list.discI)
    then show False using assms by (simp add: plain_def)
  qed
qed

lemma std_find_hit: "c \<notin> set xs \<Longrightarrow> std_find c (xs @ c # ys) = length xs"
  by (induction xs) auto

lemma setMethod_methodString:
  "hr_method req = kInvalid \<Longrightarrow> m \<noteq> kInvalid \<Longrightarrow> setMethod (methodString m) req = Some (True, req\<lparr>hr_method := m\<rparr>)"
  by (cases m) (simp_all add: setMethod_def methodString_def)

lemma processRequestLine_print:
  assumes "request_ok req" "hr_method r = kInvalid" "query r = []"
  shows "processRequestLine (request_line req) r =
    Some (True, r\<lparr>hr_method := hr_method req, path := path req, query := query req, hr_version := hr_version req\<rparr>)"
proof -
  let ?t = "path req @ query req" and ?v = "versionString (hr_version req)"
  have m: "CHR '' '' \<notin> set (methodString (hr_method req))" by (cases "hr_method req") (simp_all add: methodString_def)
  have sp: "CHR '' '' \<notin> set ?t" using assms(1) by (simp add: request_ok_def)
  have line: "request_line req = methodString (hr_method req) @ CHR '' '' # ?t @ CHR '' '' # ?v"
    by (simp add: request_line_def)
  have v: "length ?v = 8" "take 7 ?v = ''HTTP/1.''" "?v ! 7 = (if hr_version req = kHttp11 then CHR ''1'' else CHR ''0'')"
    by (simp_all add: versionString_def)
  have q: "std_find (CHR ''?'') ?t = length (path req)"
    using assms(1) by (cases "query req") (auto simp: request_ok_def std_find_hit std_find_eq_length_iff)
  have ver: "hr_version req \<noteq> kHttp11 \<Longrightarrow> hr_version req = kHttp10" using assms(1) by (cases "hr_version req") (auto simp: request_ok_def)
  have "processRequestTarget (?t @ CHR '' '' # ?v) (r\<lparr>hr_method := hr_method req\<rparr>) =
      (True, r\<lparr>hr_method := hr_method req, path := path req, query := query req, hr_version := hr_version req\<rparr>)"
    using v q ver assms(3) std_find_hit [OF sp, of ?v]
    by (auto simp: processRequestTarget_def setPath_def setQuery_def setVersion_def Let_def)
  then show ?thesis
    unfolding line processRequestLine_def
    using std_find_hit [OF m] setMethod_methodString [OF assms(2), of "hr_method req"] assms(1)
    by (simp add: request_ok_def Let_def)
qed

lemma trim_right_id: "v = [] \<or> \<not> isspace (last v) \<Longrightarrow> trim_right v (length v) = v"
  by (cases v rule: rev_cases) (auto simp: nth_append)

lemma smap_put_last: "smap_ok (m @ [(k, v)]) \<Longrightarrow> smap_put k v m = m @ [(k, v)]"
proof (induction m)
  case (Cons e m)
  obtain a b where e: "e = (a, b)" by fastforce
  have "a < k" "smap_ok (m @ [(k, v)])" using Cons.prems e by (auto simp: smap_ok_def)
  then show ?case using Cons.IH e by auto
qed simp

lemma addHeader_print:
  assumes "header_ok (field, val)"
  shows "HttpRequest_addHeader (header_line (field, val)) (std_find (CHR '':'') (header_line (field, val))) req =
    req\<lparr>headers := smap_put field val (headers req)\<rparr>"
proof -
  have colon: "std_find (CHR '':'') (header_line (field, val)) = length field"
    using assms std_find_hit [of "CHR '':''" field "'' '' @ val"] by (simp add: header_ok_def header_line_def)
  have "isspace (CHR '' '')" by (simp add: isspace_def)
  then have "dropWhile isspace (CHR '' '' # val) = val"
    using assms by (cases val) (auto simp: header_ok_def)
  then show ?thesis
    using assms trim_right_id [of val] unfolding HttpRequest_addHeader_def colon
    by (auto simp: header_line_def header_ok_def Let_def)
qed

lemma parse_headers_print:
  assumes "hc_state c = kExpectHeaders" "smap_ok (headers (request c) @ hs)" "\<forall>h \<in> set hs. header_ok h"
  shows "parse_bytes now c (concat (map (\<lambda>h. header_line h @ kCRLF) hs) @ kCRLF @ rest) =
    Some (True, c\<lparr>hc_state := kGotAll, request := (request c)\<lparr>headers := headers (request c) @ hs\<rparr>\<rparr>, rest)"
  using assms
proof (induction hs arbitrary: c)
  case Nil
  have "next_line (kCRLF @ rest) = Some ([], rest)" using plain_line [of "[]" rest] by (simp add: plain_def)
  then show ?case using Nil by (simp add: parse_bytes_step(2))
next
  case (Cons h hs)
  obtain field v where h: "h = (field, v)" by fastforce
  have ok: "header_ok (field, v)" using Cons.prems(3) h by simp
  let ?tail = "concat (map (\<lambda>h. header_line h @ kCRLF) hs) @ kCRLF @ rest"
  have "plain (header_line (field, v))" using ok by (simp add: header_line_def header_ok_def plain_def)
  then have nl: "next_line (header_line (field, v) @ kCRLF @ ?tail) = Some (header_line (field, v), ?tail)" by (rule plain_line)
  have "CHR '':'' \<in> set (header_line (field, v))" by (simp add: header_line_def)
  moreover have "smap_ok (headers (request c) @ [(field, v)])"
    using Cons.prems(2) h by (simp add: smap_ok_def sorted_wrt_append)
  then have "smap_put field v (headers (request c)) = headers (request c) @ [(field, v)]" by (rule smap_put_last)
  ultimately have "parse_bytes now c (header_line (field, v) @ kCRLF @ ?tail) =
      parse_bytes now (c\<lparr>request := (request c)\<lparr>headers := headers (request c) @ [(field, v)]\<rparr>\<rparr>) ?tail"
    using nl Cons.prems(1) addHeader_print [OF ok] by (simp add: parse_bytes_step(2))
  also have "\<dots> = Some (True, c\<lparr>hc_state := kGotAll, request := (request c)\<lparr>headers := headers (request c) @ h # hs\<rparr>\<rparr>, rest)"
    by (subst Cons.IH) (use Cons.prems h in simp_all)
  finally show ?case using h by simp
qed

lemma parse_bytes_print:
  assumes "request_ok req"
  shows "parse_bytes now HttpContext_new (http_print req @ rest) =
    Some (True, \<lparr>hc_state = kGotAll, request = setReceiveTime now req\<rparr>, rest)"
proof -
  let ?hs = "concat (map (\<lambda>h. header_line h @ kCRLF) (headers req)) @ kCRLF @ rest"
  let ?r = "HttpRequest_new\<lparr>hr_method := hr_method req, path := path req, query := query req, hr_version := hr_version req\<rparr>"
  have "plain (request_line req)"
    using assms by (cases "hr_method req") (auto simp: request_line_def request_ok_def plain_def methodString_def versionString_def)
  then have nl: "next_line (http_print req @ rest) = Some (request_line req, ?hs)"
    using plain_line [of "request_line req" ?hs] by (simp add: http_print_def)
  have line: "processRequestLine (request_line req) HttpRequest_new = Some (True, ?r)"
    by (rule processRequestLine_print [OF assms]) (simp_all add: HttpRequest_new_def)
  have "parse_bytes now HttpContext_new (http_print req @ rest) =
      parse_bytes now \<lparr>hc_state = kExpectHeaders, request = setReceiveTime now ?r\<rparr> ?hs"
    using line nl by (simp add: parse_bytes_step(1) HttpContext_new_def)
  also have "\<dots> = Some (True, \<lparr>hc_state = kGotAll, request = setReceiveTime now req\<rparr>, rest)"
    by (subst parse_headers_print)
      (use assms in \<open>simp_all add: request_ok_def HttpRequest_new_def setReceiveTime_def\<close>)
  finally show ?thesis .
qed

lemma parseRequest_print:
  assumes "request_ok req" "Buffer_ok b" "Buffer_contents b = http_print req @ rest"
  shows "\<exists>b'. parseRequest now HttpContext_new b =
      Some (True, \<lparr>hc_state = kGotAll, request = setReceiveTime now req\<rparr>, b') \<and> Buffer_ok b' \<and> Buffer_contents b' = rest"
  using parseRequest_parse_bytes [OF assms(2), of now HttpContext_new] assms(3) parse_bytes_print [OF assms(1)]
  by (auto simp: option_rel_Some2 parsed_rel_def)

subsection \<open>Refused requests\<close>

lemma headers_not_refused:
  "hc_state c = kExpectHeaders \<Longrightarrow> parse_bytes now c xs = Some (ok, c', rest) \<Longrightarrow> ok"
proof (induction now c xs rule: parse_bytes.induct)
  case (1 now c xs)
  show ?case
  proof (cases "next_line xs")
    case None
    then show ?thesis using "1.prems" by (simp add: parse_bytes_step)
  next
    case (Some p)
    then obtain line rest where n: "next_line xs = Some (line, rest)" by (cases p) auto
    show ?thesis using "1.prems" n "1.IH"(2) [OF "1.prems"(1) n refl] by (auto simp: parse_bytes_step(2) split: if_splits)
  qed
qed

lemma refused_line:
  assumes "parse_bytes now c xs = Some (False, c', rest)"
  shows "hc_state c = kExpectRequestLine \<and> rest = xs \<and> (\<exists>line tail req. next_line xs = Some (line, tail)
    \<and> processRequestLine line (request c) = Some (False, req) \<and> c' = c\<lparr>request := req\<rparr>)"
proof -
  have s: "hc_state c = kExpectRequestLine"
    using assms headers_not_refused [of c now xs False] by (cases "hc_state c") (auto simp: parse_bytes_step)
  obtain line tail where n: "next_line xs = Some (line, tail)"
  proof (cases "next_line xs")
    case None
    then show ?thesis using assms s by (simp add: parse_bytes_step(3))
  next
    case (Some p)
    then show ?thesis using that by (cases p) auto
  qed
  then obtain ok req where r: "processRequestLine line (request c) = Some (ok, req)"
    using assms s by (auto simp: parse_bytes_step(1))
  have "\<not> ok" using assms s n r headers_not_refused [of "c\<lparr>request := setReceiveTime now req, hc_state := kExpectHeaders\<rparr>" now tail False]
    by (auto simp: parse_bytes_step(1))
  then show ?thesis using assms s n r by (auto simp: parse_bytes_step(1))
qed

subsection \<open>Properties\<close>

text \<open>
  C16. Parsing does not depend on how the bytes arrive.  A new context that is fed any sequence of pieces never
  fails an assertion and never loops; it ends in the same verdict, with the same request (up to the
  receive time) and the same bytes left over, as when all bytes arrive at once.
\<close>

theorem HttpContext_chunks:
  "\<exists>ok c b left b0 c2 b2. http_feed chunks HttpContext_new (Buffer_new n) = Some (ok, c, b, left)
     \<and> Buffer_append (concat (map snd chunks)) (Buffer_new n) = Some b0
     \<and> parseRequest now HttpContext_new b0 = Some (ok, c2, b2)
     \<and> no_time c2 = no_time c \<and> Buffer_contents b2 = Buffer_contents b @ concat (map snd left)"
proof -
  have new: "context_ok HttpContext_new" by (simp add: context_ok_def HttpContext_new_def HttpRequest_new_def)
  have empty: "Buffer_contents (Buffer_new n) = []" using Buffer_new_ok by simp
  then have nl: "next_line (Buffer_contents (Buffer_new n)) = None" by (simp add: next_line_def)
  obtain ok c b left c2 where f: "http_feed chunks HttpContext_new (Buffer_new n) = Some (ok, c, b, left)"
    "parse_bytes now HttpContext_new (concat (map snd chunks)) = Some (ok, c2, Buffer_contents b @ concat (map snd left))"
    "no_time c2 = no_time c"
    using http_feed_ok [OF Buffer_ok_new new nl, of chunks now] empty by auto
  obtain b0 where b0: "Buffer_append (concat (map snd chunks)) (Buffer_new n) = Some b0" "Buffer_ok b0"
    "Buffer_contents b0 = concat (map snd chunks)" using buf.enq_law [OF Buffer_ok_new, of "concat (map snd chunks)" n] empty by auto
  then obtain b2 where "parseRequest now HttpContext_new b0 = Some (ok, c2, b2)"
    "Buffer_contents b2 = Buffer_contents b @ concat (map snd left)"
    using parseRequest_parse_bytes [OF b0(2), of now HttpContext_new] f(2) by (auto simp: option_rel_Some2 parsed_rel_def)
  then show ?thesis using f b0(1) by blast
qed

text \<open>
  C17. Round trip.  Every well-formed request, printed and followed by anything, is parsed back to the same
  request; the following bytes stay in the buffer.
\<close>

theorem HttpRequest_roundtrip:
  assumes "request_ok req" "Buffer_ok b" "Buffer_contents b = http_print req @ rest"
  shows "\<exists>b'. parseRequest now HttpContext_new b =
      Some (True, \<lparr>hc_state = kGotAll, request = setReceiveTime now req\<rparr>, b') \<and> Buffer_contents b' = rest"
  using parseRequest_print [OF assms] by blast

theorem HttpRequest_roundtrip_witness:
  "\<exists>b'. parseRequest (Timestamp 5) HttpContext_new
       \<lparr>buffer = replicate 8 (CHR 0x00) @ http_print
          \<lparr>hr_method = kGet, hr_version = kHttp11, path = ''/index.html'', query = ''?q=1'', receiveTime = Timestamp 0,
           headers = [(''Host'', ''localhost'')]\<rparr> @ ''rest'',
        readerIndex = 8,
        writerIndex = length (replicate 8 (CHR 0x00) @ http_print
          \<lparr>hr_method = kGet, hr_version = kHttp11, path = ''/index.html'', query = ''?q=1'', receiveTime = Timestamp 0,
           headers = [(''Host'', ''localhost'')]\<rparr> @ ''rest'')\<rparr> =
     Some (True, \<lparr>hc_state = kGotAll, request = \<lparr>hr_method = kGet, hr_version = kHttp11, path = ''/index.html'',
       query = ''?q=1'', receiveTime = Timestamp 5, headers = [(''Host'', ''localhost'')]\<rparr>\<rparr>, b')
     \<and> Buffer_contents b' = ''rest''"
proof -
  let ?req = "\<lparr>hr_method = kGet, hr_version = kHttp11, path = ''/index.html'', query = ''?q=1'', receiveTime = Timestamp 0,
           headers = [(''Host'', ''localhost'')]\<rparr>"
  let ?m = "replicate 8 (CHR 0x00) @ http_print ?req @ ''rest''"
  let ?b = "\<lparr>buffer = ?m, readerIndex = 8, writerIndex = length ?m\<rparr>"
  have "request_ok ?req"
    by (simp add: request_ok_def plain_def header_ok_def isspace_def smap_ok_def)
  moreover have "Buffer_ok ?b" by (simp add: Buffer_ok_def Buffer_inv_def kCheapPrepend_def)
  moreover have "Buffer_contents ?b = http_print ?req @ ''rest''" by (simp add: Buffer_contents_def subrange_def)
  ultimately show ?thesis
    using HttpRequest_roundtrip [of ?req ?b "''rest''" "Timestamp 5"] by (simp add: setReceiveTime_def)
qed

text \<open>
  C18. A refused request leaves a trap.  When a request line with a valid method is refused, the line stays in
  the buffer and the method stays set; whatever arrives next on the connection, the parser then fails
  its own assertion.
\<close>

theorem HttpContext_refused_aborts:
  assumes "Buffer_ok b" "parseRequest now HttpContext_new b = Some (False, c, b')"
    and "hr_method (request c) \<noteq> kInvalid" "Buffer_append d b' = Some b''"
  shows "parseRequest now' c b'' = None"
proof -
  let ?xs = "Buffer_contents b"
  have p: "parse_bytes now HttpContext_new ?xs = Some (False, c, Buffer_contents b')" "Buffer_ok b'"
    using parseRequest_parse_bytes [OF assms(1), of now HttpContext_new] assms(2)
    by (auto simp: option_rel_Some1 parsed_rel_def)
  obtain line rest req where l: "next_line ?xs = Some (line, rest)"
    "processRequestLine line HttpRequest_new = Some (False, req)" "c = HttpContext_new\<lparr>request := req\<rparr>" "Buffer_contents b' = ?xs"
    using refused_line [OF p(1)] by (auto simp: HttpContext_new_def)
  have b'': "Buffer_contents b'' = ?xs @ d" "Buffer_ok b''"
    using buf.enq_law [OF p(2), of d] assms(4) l(4) by auto
  have "std_find (CHR '' '') line \<noteq> length line"
    using l(2,3) assms(3) by (auto simp: processRequestLine_def HttpRequest_new_def Let_def split: if_splits)
  then have "processRequestLine line req = None"
    using l(3) assms(3) by (simp add: processRequestLine_def setMethod_def Let_def)
  then have "parse_bytes now' c (Buffer_contents b'') = None"
    using next_line_append [OF l(1), of d] l(3) b'' by (simp add: parse_bytes_step(1) HttpContext_new_def)
  then show ?thesis using parseRequest_parse_bytes [OF b''(2), of now' c] by (auto simp: option_rel_Some1)
qed

theorem HttpContext_refused_aborts_witness:
  "parseRequest (Timestamp 2) \<lparr>hc_state = kExpectRequestLine, request = HttpRequest_new\<lparr>hr_method := kGet, path := ''/''\<rparr>\<rparr>
     (the (Buffer_append ''x'' \<lparr>buffer = replicate 8 (CHR 0x00) @ ''GET / HTTP/2.0'' @ [CHR 0x0D, CHR 0x0A],
        readerIndex = 8, writerIndex = 24\<rparr>)) = None"
proof -
  let ?b = "\<lparr>buffer = replicate 8 (CHR 0x00) @ ''GET / HTTP/2.0'' @ [CHR 0x0D, CHR 0x0A], readerIndex = 8, writerIndex = 24\<rparr>"
  let ?c = "\<lparr>hc_state = kExpectRequestLine, request = HttpRequest_new\<lparr>hr_method := kGet, path := ''/''\<rparr>\<rparr>"
  have ok: "Buffer_ok ?b" by (simp add: Buffer_ok_def Buffer_inv_def kCheapPrepend_def)
  have run: "parseRequest (Timestamp 1) HttpContext_new ?b = Some (False, ?c, ?b)" by (subst parseRequest.simps) code_simp
  obtain b'' where app: "Buffer_append ''x'' ?b = Some b''" using buf.enq_law [OF ok] by blast
  have "hr_method (request ?c) \<noteq> kInvalid" by simp
  from HttpContext_refused_aborts [OF ok run this app] show ?thesis using app by simp
qed

end
