(* ===== verification/Net_HttpServer.thy ===== *)
theory Net_HttpServer
  imports Net_HttpContext Net_TcpConnection
begin

section \<open>The HTTP server\<close>

text \<open>
  \<^verbatim>\<open>muduo/net/http/HttpResponse.cc\<close>, \<^verbatim>\<open>HttpServer.cc\<close>, \<^verbatim>\<open>Util.cpp\<close> and \<^verbatim>\<open>OnRequestCallBack.h\<close>: printing a
  response, handling a delivery of bytes on a connection, and the file-serving callback of the static
  web server.  The calls that a handler makes on its connection are returned as a list.  The file
  system, and the output of a CGI child, are parameters.
\<close>

subsection \<open>Responses\<close>

record HttpResponse =
  rsp_headers :: "(string, string) smap"
  statusCode :: int
  statusMessage :: string
  closeConnection :: bool
  rsp_body :: string

definition kUnknown_status :: int where "kUnknown_status = 0"
definition k200Ok :: int where "k200Ok = 200"
definition k301MovedPermanently :: int where "k301MovedPermanently = 301"
definition k400BadRequest :: int where "k400BadRequest = 400"
definition k404NotFound :: int where "k404NotFound = 404"
definition k501 :: int where "k501 = 501"

definition HttpResponse_new :: "bool \<Rightarrow> HttpResponse" where
  "HttpResponse_new close =
     \<lparr>rsp_headers = [], statusCode = kUnknown_status, statusMessage = [], closeConnection = close, rsp_body = []\<rparr>"

definition setStatusCode :: "int \<Rightarrow> HttpResponse \<Rightarrow> HttpResponse" where
  "setStatusCode code r = r\<lparr>statusCode := code\<rparr>"

definition setStatusMessage :: "string \<Rightarrow> HttpResponse \<Rightarrow> HttpResponse" where
  "setStatusMessage message r = r\<lparr>statusMessage := message\<rparr>"

definition setCloseConnection :: "bool \<Rightarrow> HttpResponse \<Rightarrow> HttpResponse" where
  "setCloseConnection on r = r\<lparr>closeConnection := on\<rparr>"

definition HttpResponse_addHeader :: "string \<Rightarrow> string \<Rightarrow> HttpResponse \<Rightarrow> HttpResponse" where
  "HttpResponse_addHeader key v r = r\<lparr>rsp_headers := smap_put key v (rsp_headers r)\<rparr>"

definition setContentType :: "string \<Rightarrow> HttpResponse \<Rightarrow> HttpResponse" where
  "setContentType contentType r = HttpResponse_addHeader ''Content-Type'' contentType r"

definition setBody :: "string \<Rightarrow> HttpResponse \<Rightarrow> HttpResponse" where
  "setBody d r = r\<lparr>rsp_body := d\<rparr>"

text \<open>\<^verbatim>\<open>append\<close> of a string through a string piece.\<close>

definition append_str :: "string \<Rightarrow> Buffer \<Rightarrow> Buffer option" where
  "append_str s b = Buffer_append_piece (StringPiece_of_string s) b"

fun append_headers :: "(string \<times> string) list \<Rightarrow> Buffer \<Rightarrow> Buffer option" where
  "append_headers [] b = Some b"
| "append_headers (header # hs) b = do {
     b \<leftarrow> append_str (fst header) b;
     b \<leftarrow> append_str '': '' b;
     b \<leftarrow> append_str (snd header) b;
     b \<leftarrow> append_str kCRLF b;
     append_headers hs b
   }"

definition appendToBuffer :: "HttpResponse \<Rightarrow> Buffer \<Rightarrow> Buffer option" where
  "appendToBuffer r b = do {
     b \<leftarrow> append_str (snprintf 32 (''HTTP/1.1 '' @ show_int (statusCode r) @ '' '')) b;
     b \<leftarrow> append_str (statusMessage r) b;
     b \<leftarrow> append_str kCRLF b;
     b \<leftarrow> (if closeConnection r
       then append_str (''Connection: close'' @ kCRLF) b
       else do {
         b \<leftarrow> append_str (snprintf 32 (''Content-Length: '' @ show_nat (length (rsp_body r)) @ kCRLF)) b;
         append_str (''Connection: Keep-Alive'' @ kCRLF) b
       });
     b \<leftarrow> append_headers (rsp_headers r) b;
     b \<leftarrow> append_str kCRLF b;
     append_str (rsp_body r) b
   }"

subsection \<open>Connections\<close>

text \<open>
  \<^verbatim>\<open>buf->peek()\<close> as a C string: the memory of the vector up to the first zero byte.  Without one the
  string is read past the end of the vector.
\<close>

definition peek_string :: "Buffer \<Rightarrow> string option" where
  "peek_string b =
     (let mem = drop (Buffer_peek b) (buffer b)
      in if CHR 0x00 \<in> set mem then Some (takeWhile (\<lambda>c. c \<noteq> CHR 0x00) mem) else None)"

definition contains :: "string \<Rightarrow> string \<Rightarrow> bool" where
  "contains src sub \<longleftrightarrow> sub = [] \<or> std_search sub src < length src"

definition defaultHttpCallback :: "HttpRequest \<Rightarrow> HttpResponse \<Rightarrow> HttpResponse option" where
  "defaultHttpCallback req r =
     Some (setCloseConnection True (setStatusMessage ''Not Found'' (setStatusCode k404NotFound r)))"

text \<open>\<^verbatim>\<open>onConnection\<close> gives a new connection a fresh context and leaves that of a closing one alone.\<close>

definition HttpServer_onConnection :: "bool \<Rightarrow> HttpContext option \<Rightarrow> HttpContext option" where
  "HttpServer_onConnection is_connected c = (if is_connected then Some HttpContext_new else c)"

type_synonym http_callback = "HttpRequest \<Rightarrow> HttpResponse \<Rightarrow> HttpResponse option"

definition HttpServer_onRequest :: "http_callback \<Rightarrow> HttpRequest \<Rightarrow> conn_call list option" where
  "HttpServer_onRequest cb req = do {
     let connection = getHeader ''Connection'' req;
     let close = (connection = ''close'' \<or> (hr_version req = kHttp10 \<and> connection \<noteq> ''Keep-Alive''));
     response \<leftarrow> cb req (HttpResponse_new close);
     b \<leftarrow> appendToBuffer response (Buffer_new kInitialSize);
     Some (Send (Buffer_contents b) # (if closeConnection response then [Shutdown] else []))
   }"

record http_result =
  res_context :: HttpContext
  res_buffer :: Buffer
  res_calls :: "conn_call list"
  res_file :: "string option"

text \<open>\<open>file_ok\<close> tells whether the weather file can be opened for writing; otherwise the process exits.\<close>

definition HttpServer_onMessage ::
  "http_callback \<Rightarrow> bool \<Rightarrow> Timestamp \<Rightarrow> HttpContext \<Rightarrow> Buffer \<Rightarrow> http_result option" where
  "HttpServer_onMessage cb file_ok now c b = do {
     s \<leftarrow> peek_string b;
     (if contains s ''shidu''
      then (if \<not> file_ok then None
            else Some \<lparr>res_context = c, res_buffer = b, res_calls = [], res_file = Some s\<rparr>)
      else do {
        (succeed, c, b) \<leftarrow> parseRequest now c b;
        let calls = (if \<not> succeed then [Send (''HTTP/1.1 400 Bad Request'' @ kCRLF @ kCRLF), Shutdown] else []);
        (if gotAll c
         then do {
           answer \<leftarrow> HttpServer_onRequest cb (request c);
           Some \<lparr>res_context = HttpContext_reset c, res_buffer = b, res_calls = calls @ answer, res_file = None\<rparr>
         }
         else Some \<lparr>res_context = c, res_buffer = b, res_calls = calls, res_file = None\<rparr>)
      })
   }"

subsection \<open>Serving files\<close>

text \<open>The configuration of \<^verbatim>\<open>ConfigInit.h\<close>.\<close>

record config =
  html_root :: string
  pic_root :: string
  media_root :: string
  src_root :: string
  error404_path :: string

definition default_config :: config where
  "default_config = \<lparr>html_root = ''/home/wushuohan/webRoot/html'', pic_root = ''/home/wushuohan/webRoot/image'',
     media_root = ''/home/wushuohan/webRoot/media'',
     src_root = ''/home/wushuohan/webRoot/src'', error404_path = ''/home/wushuohan/webRoot/html/404.html''\<rparr>"

text \<open>\<^verbatim>\<open>find_last_of\<close> for one character; \<open>None\<close> is \<^verbatim>\<open>npos\<close>, at which \<^verbatim>\<open>substr\<close> throws.\<close>

definition find_last_of :: "char \<Rightarrow> string \<Rightarrow> nat option" where
  "find_last_of c s = (let i = std_find c (rev s) in if i = length s then None else Some (length s - 1 - i))"

definition last_component :: "string \<Rightarrow> string option" where
  "last_component p = do { i \<leftarrow> find_last_of (CHR ''/'') p; Some (drop i p) }"

definition ConstructPath :: "config \<Rightarrow> string \<Rightarrow> string option" where
  "ConstructPath cfg p =
     (if p = ''/'' then Some (html_root cfg @ ''/index.html'')
      else if contains p ''jpg'' \<or> contains p ''ico'' \<or> contains p ''png''
      then do { temp \<leftarrow> last_component p; Some (pic_root cfg @ temp) }
      else if contains p ''mp4'' \<or> contains p ''mp3''
      then do { temp \<leftarrow> last_component p; Some (media_root cfg @ temp) }
      else if contains p ''html'' then Some (html_root cfg @ p)
      else Some (html_root cfg @ ''/404''))"

text \<open>The loop of \<^verbatim>\<open>GetExtent\<close> runs from the end to the last dot; without one it leaves the string.\<close>

fun GetExtent_from :: "string \<Rightarrow> nat \<Rightarrow> nat option" where
  "GetExtent_from p 0 = None"
| "GetExtent_from p (Suc i) = (if p ! i = CHR ''.'' then Some i else GetExtent_from p i)"

definition GetExtent :: "string \<Rightarrow> string option" where
  "GetExtent p = do { i \<leftarrow> GetExtent_from p (length p); Some (drop (i + 1) p) }"

definition GetContentType :: "string \<Rightarrow> string" where
  "GetContentType p =
     (if contains p ''png'' then ''image/png''
      else if contains p ''jpg'' then ''image/jpg''
      else if contains p ''ico'' then ''image/x-icon''
      else if contains p ''mp4'' then ''video/mpeg4''
      else if contains p ''mp3'' then ''video/mpeg''
      else if contains p ''html'' then ''text/html''
      else ''cgi'')"

definition weather_file :: string where
  "weather_file = ''/home/wushuohan/webRoot/tianqi.txt''"

type_synonym file_system = "string \<Rightarrow> string option"

text \<open>\<^verbatim>\<open>getline(str, 20)\<close>: at most 19 characters of the first line, used as a C string.\<close>

definition GetContent :: "file_system \<Rightarrow> string \<Rightarrow> string" where
  "GetContent fs fileName =
     (if contains fileName ''weather''
      then takeWhile (\<lambda>c. c \<noteq> CHR 0x00)
             (take 19 (takeWhile (\<lambda>c. c \<noteq> CHR 0x0A) (case fs weather_file of Some d \<Rightarrow> d | None \<Rightarrow> [])))
      else (case fs (c_str fileName) of Some d \<Rightarrow> d | None \<Rightarrow> []))"

definition redirect_init :: "(string, string) smap" where
  "redirect_init = smap_put ''/3'' ''www.sogou.com'' (smap_put ''/2'' ''www.sina.com'' (smap_put ''/1'' ''www.baidu.com'' []))"

text \<open>
  The CGI child: the environment strings, the program and its argument.  It dies before \<^verbatim>\<open>execl\<close> when the
  query is empty, since \<^verbatim>\<open>begin() + 1\<close> is then past the end, and when an environment string with its
  terminator exceeds the array of 255 characters.
\<close>

record cgi_exec =
  exec_path :: string
  exec_arg :: string
  exec_env :: "string list"

definition cgi_child :: "config \<Rightarrow> HttpRequest \<Rightarrow> cgi_exec option" where
  "cgi_child cfg req = do {
     cassert (query req \<noteq> []);
     let q = tl (query req);
     let meth_env = ''REQUEST_METHOD='' @ methodString (hr_method req);
     let query_env = ''QUERY_STRING='' @ c_str q;
     cassert (length meth_env < 255);
     cassert (length query_env < 255);
     Some \<lparr>exec_path = c_str (src_root cfg @ path req), exec_arg = c_str q, exec_env = [meth_env, query_env]\<rparr>
   }"

text \<open>
  What the operating system does for a CGI request: whether each \<^verbatim>\<open>pipe\<close> and the \<^verbatim>\<open>fork\<close> succeed, and
  the bytes the parent reads until end of file from a child that executes the given program, or dies.
\<close>

record cgi_os =
  pipe_output_ok :: bool
  pipe_input_ok :: bool
  fork_ok :: bool
  child_output :: "cgi_exec option \<Rightarrow> string"

definition cgi_response :: "config \<Rightarrow> cgi_os \<Rightarrow> HttpRequest \<Rightarrow> HttpResponse \<Rightarrow> HttpResponse" where
  "cgi_response cfg os req r =
     (let r = setStatusMessage ''OK'' (setStatusCode k200Ok r)
      in if \<not> pipe_output_ok os then r
         else if \<not> pipe_input_ok os then r
         else if \<not> fork_ok os then r
         else setBody (child_output os (cgi_child cfg req)) r)"

definition http_server_response_get ::
  "config \<Rightarrow> (string, string) smap \<Rightarrow> file_system \<Rightarrow> (string \<Rightarrow> bool) \<Rightarrow> cgi_os \<Rightarrow> http_callback" where
  "http_server_response_get cfg redirections fs stat_ok os req r =
     (case map_of redirections (path req) of
        Some target \<Rightarrow> Some (setCloseConnection True (HttpResponse_addHeader ''Location'' target
          (setStatusMessage ''Moved Permanently'' (setStatusCode k301MovedPermanently r))))
      | None \<Rightarrow> do {
          p \<leftarrow> ConstructPath cfg (path req);
          (if path req = ''/''
           then do {
             let r = setContentType ''text/html'' (setStatusMessage ''OK'' (setStatusCode k200Ok r));
             let content = GetContent fs p;
             Some (if content = []
               then setBody (GetContent fs (error404_path cfg)) (setContentType ''text/html''
                 (setStatusMessage ''Not Found'' (setStatusCode k404NotFound r)))
               else setContentType ''text/html'' (setStatusMessage ''OK'' (setStatusCode k200Ok (setBody content r))))
           }
           else do {
             let type = GetContentType (path req);
             (if type \<noteq> ''cgi''
              then do {
                let ret = (if stat_ok (c_str p) then 0 else -1 :: int);
                let ret = (if contains (path req) ''weather'' \<and> fs weather_file \<noteq> None then 1 else ret);
                Some (if ret < 0
                  then setBody (GetContent fs (error404_path cfg)) (setCloseConnection True
                    (setStatusMessage ''Not Found'' (setStatusCode k404NotFound r)))
                  else setBody (GetContent fs p) (setContentType type (setStatusMessage ''OK'' (setStatusCode k200Ok r))))
              }
              else Some (cgi_response cfg os req r))
           })
        })"

subsection \<open>What a response looks like\<close>

definition rsp_status_line :: "HttpResponse \<Rightarrow> string" where
  "rsp_status_line r = ''HTTP/1.1 '' @ show_int (statusCode r) @ '' '' @ statusMessage r"

definition rsp_lines :: "HttpResponse \<Rightarrow> string list" where
  "rsp_lines r = rsp_status_line r #
     (if closeConnection r then [''Connection: close'']
      else [''Content-Length: '' @ show_nat (length (rsp_body r)), ''Connection: Keep-Alive''])
     @ map header_line (rsp_headers r)"

definition rsp_print :: "HttpResponse \<Rightarrow> string" where
  "rsp_print r = concat (map (\<lambda>l. l @ kCRLF) (rsp_lines r)) @ kCRLF @ rsp_body r"

text \<open>Sizes at which no conversion to \<^verbatim>\<open>int\<close> and no \<^verbatim>\<open>snprintf\<close> cuts anything off.\<close>

definition rsp_fits :: "HttpResponse \<Rightarrow> bool" where
  "rsp_fits r \<longleftrightarrow> 0 \<le> statusCode r \<and> statusCode r < 1000 \<and> length (statusMessage r) < 2 ^ 31 \<and> length (rsp_body r) < 2 ^ 31
     \<and> (\<forall>h \<in> set (rsp_headers r). length (fst h) < 2 ^ 31 \<and> length (snd h) < 2 ^ 31)"

lemma append_str_eq: "length s < 2 ^ 31 \<Longrightarrow> append_str s b = Buffer_append s b"
  by (simp add: append_str_def Buffer_append_piece_string)

lemma append_str_ok:
  assumes "length s < 2 ^ 31" "Buffer_ok b"
  obtains b' where "append_str s b = Some b'" "Buffer_ok b'" "Buffer_contents b' = Buffer_contents b @ s"
  using Buffer_append_ok [OF assms(2), of s] append_str_eq [OF assms(1)] by auto

text \<open>What it means for a step to append \<open>s\<close>, with its sequential composition.\<close>

definition appends :: "(Buffer \<Rightarrow> Buffer option) \<Rightarrow> string \<Rightarrow> bool" where
  "appends f s \<longleftrightarrow> (\<forall>b. Buffer_ok b \<longrightarrow> (\<exists>b'. f b = Some b' \<and> Buffer_ok b' \<and> Buffer_contents b' = Buffer_contents b @ s))"

lemma appends_str [intro]: "length s < 2 ^ 31 \<Longrightarrow> appends (append_str s) s"
  unfolding appends_def by (blast elim: append_str_ok)

lemma appends_Some [intro]: "appends Some []"
  by (simp add: appends_def)

lemma appends_bind [intro]: "appends f s \<Longrightarrow> appends g t \<Longrightarrow> appends (\<lambda>b. f b \<bind> g) (s @ t)"
  unfolding appends_def by (metis append.assoc bind.bind_lunit)

lemma appends_headers:
  "\<forall>h \<in> set hs. length (fst h) < 2 ^ 31 \<and> length (snd h) < 2 ^ 31 \<Longrightarrow>
   appends (append_headers hs) (concat (map (\<lambda>h. header_line h @ kCRLF) hs))"
proof (induction hs)
  case Nil
  have "append_headers [] = Some" by (rule ext) simp
  then show ?case by (simp add: appends_Some)
next
  case (Cons h hs)
  have "append_headers (h # hs) = (\<lambda>b. append_str (fst h) b \<bind> (\<lambda>b. append_str '': '' b \<bind>
      (\<lambda>b. append_str (snd h) b \<bind> (\<lambda>b. append_str kCRLF b \<bind> append_headers hs))))"
    by (rule ext) simp
  moreover have "appends \<dots> (fst h @ '': '' @ snd h @ kCRLF @ concat (map (\<lambda>h. header_line h @ kCRLF) hs))"
    using Cons by (intro appends_bind appends_str Cons.IH) (auto simp: kCRLF_def)
  ultimately show ?case by (simp add: header_line_def split_beta)
qed

lemma show_nat_status: "0 \<le> i \<Longrightarrow> i < 1000 \<Longrightarrow> length (show_int i) \<le> 3"
  using length_show_nat [of 3 "nat i"] by (simp add: show_int_def)

lemma show_nat_size: "n < 2 ^ 31 \<Longrightarrow> length (show_nat n) \<le> 10"
  by (rule length_show_nat) simp_all

lemma appendToBuffer_appends:
  assumes "rsp_fits r"
  shows "appends (appendToBuffer r) (rsp_print r)"
proof -
  let ?n = "rsp_body r"
  have n: "length (show_nat (length ?n)) \<le> 10" and c: "length (show_int (statusCode r)) \<le> 3"
    using assms show_nat_size show_nat_status by (auto simp: rsp_fits_def)
  have st: "snprintf 32 (''HTTP/1.1 '' @ show_int (statusCode r) @ '' '') = ''HTTP/1.1 '' @ show_int (statusCode r) @ '' ''"
    using c by (simp add: snprintf_def)
  have cl: "snprintf 32 (''Content-Length: '' @ show_nat (length ?n) @ kCRLF) = ''Content-Length: '' @ show_nat (length ?n) @ kCRLF"
    using n by (simp add: snprintf_def kCRLF_def)
  let ?conn = "\<lambda>b. if closeConnection r then append_str (''Connection: close'' @ kCRLF) b
     else append_str (''Content-Length: '' @ show_nat (length ?n) @ kCRLF) b \<bind> append_str (''Connection: Keep-Alive'' @ kCRLF)"
  let ?cs = "if closeConnection r then ''Connection: close'' @ kCRLF
     else (''Content-Length: '' @ show_nat (length ?n) @ kCRLF) @ ''Connection: Keep-Alive'' @ kCRLF"
  have conn: "appends ?conn ?cs"
  proof (cases "closeConnection r")
    case True
    then show ?thesis by (simp only: if_True) (rule appends_str, simp add: kCRLF_def)
  next
    case False
    then show ?thesis using n by (simp only: if_False) (intro appends_bind appends_str; simp add: kCRLF_def)
  qed
  have "appendToBuffer r = (\<lambda>b. append_str (''HTTP/1.1 '' @ show_int (statusCode r) @ '' '') b \<bind>
      (\<lambda>b. append_str (statusMessage r) b \<bind> (\<lambda>b. append_str kCRLF b \<bind> (\<lambda>b. ?conn b \<bind>
      (\<lambda>b. append_headers (rsp_headers r) b \<bind> (\<lambda>b. append_str kCRLF b \<bind> append_str ?n))))))"
    unfolding appendToBuffer_def st cl by (rule ext) simp
  moreover have "appends \<dots> ((''HTTP/1.1 '' @ show_int (statusCode r) @ '' '') @ statusMessage r @ kCRLF @ ?cs
      @ concat (map (\<lambda>h. header_line h @ kCRLF) (rsp_headers r)) @ kCRLF @ ?n)"
    using assms c by (intro appends_bind appends_str conn appends_headers) (auto simp: rsp_fits_def kCRLF_def)
  ultimately show ?thesis
    by (simp add: rsp_print_def rsp_lines_def rsp_status_line_def comp_def split: if_splits)
qed

text \<open>A client that reads one response with a declared length.\<close>

function read_head :: "string \<Rightarrow> (string list \<times> string) option" where
  "read_head s = (case next_line s of
      None \<Rightarrow> None
    | Some (l, rest) \<Rightarrow> if l = [] then Some ([], rest) else map_option (\<lambda>(ls, r). (l # ls, r)) (read_head rest))"
  by auto
termination
  by (relation "measure length") (auto dest: next_line_Some(3))

declare read_head.simps [simp del]

fun content_length :: "string list \<Rightarrow> nat option" where
  "content_length [] = None"
| "content_length (l # ls) =
     (if take 16 l = ''Content-Length: '' then Some (nat_of_digits (drop 16 l)) else content_length ls)"

definition client_read :: "string \<Rightarrow> (string list \<times> string \<times> string) option" where
  "client_read s = do {
     (ls, rest) \<leftarrow> read_head s;
     n \<leftarrow> content_length ls;
     cassert (n \<le> length rest);
     Some (ls, take n rest, drop n rest)
   }"

lemma read_head_lines:
  "\<forall>l \<in> set ls. plain l \<and> l \<noteq> [] \<Longrightarrow> read_head (concat (map (\<lambda>l. l @ kCRLF) ls) @ kCRLF @ rest) = Some (ls, rest)"
proof (induction ls)
  case Nil
  show ?case using plain_line [of "[]" rest] by (subst read_head.simps) (simp add: plain_def)
next
  case (Cons l ls)
  then show ?case using plain_line [of l] by (subst read_head.simps) simp
qed

definition rsp_plain :: "HttpResponse \<Rightarrow> bool" where
  "rsp_plain r \<longleftrightarrow> plain (statusMessage r) \<and> (\<forall>h \<in> set (rsp_headers r). plain (fst h) \<and> plain (snd h))"

lemma plain_show_nat [simp]: "plain (show_nat n)"
  using show_nat_digits [of n] by (auto simp: plain_def is_digit_def)

lemma rsp_lines_plain:
  assumes "rsp_plain r" "0 \<le> statusCode r"
  shows "\<forall>l \<in> set (rsp_lines r). plain l \<and> l \<noteq> []"
  using assms plain_show_nat [of "nat (statusCode r)"] plain_show_nat [of "length (rsp_body r)"]
  by (auto simp: rsp_lines_def rsp_status_line_def rsp_plain_def plain_def header_line_def show_int_def)

lemma client_read_print:
  assumes "rsp_plain r" "0 \<le> statusCode r" "\<not> closeConnection r"
  shows "client_read (rsp_print r @ rest) = Some (rsp_lines r, rsp_body r, rest)"
proof -
  have "read_head (rsp_print r @ rest) = Some (rsp_lines r, rsp_body r @ rest)"
    using read_head_lines [OF rsp_lines_plain [OF assms(1,2)], of "rsp_body r @ rest"] by (simp add: rsp_print_def)
  moreover have "content_length (rsp_lines r) = Some (length (rsp_body r))"
    using assms(3) by (simp add: rsp_lines_def rsp_status_line_def)
  ultimately show ?thesis by (simp add: client_read_def cassert_def)
qed

subsection \<open>Deliveries\<close>

definition wants_close :: "HttpRequest \<Rightarrow> bool" where
  "wants_close req \<longleftrightarrow> getHeader ''Connection'' req = ''close''
     \<or> (hr_version req = kHttp10 \<and> getHeader ''Connection'' req \<noteq> ''Keep-Alive'')"

lemma onRequest_print:
  assumes "cb req (HttpResponse_new (wants_close req)) = Some r" "rsp_fits r"
  shows "HttpServer_onRequest cb req = Some (Send (rsp_print r) # (if closeConnection r then [Shutdown] else []))"
proof -
  have "Buffer_contents (Buffer_new kInitialSize) = []" using Buffer_new_ok by simp
  then obtain b where b: "appendToBuffer r (Buffer_new kInitialSize) = Some b" "Buffer_contents b = rsp_print r"
    using appendToBuffer_appends [OF assms(2), unfolded appends_def, rule_format, OF Buffer_ok_new, of kInitialSize] by auto
  show ?thesis
    unfolding HttpServer_onRequest_def Let_def wants_close_def [symmetric] assms(1) bind.bind_lunit b by (rule refl)
qed

lemma HttpContext_reset_new [simp]: "HttpContext_reset c = HttpContext_new"
  by (rule HttpContext.equality) (simp_all add: HttpContext_reset_def HttpContext_new_def HttpRequest_swap_def HttpRequest_new_def)

lemma onMessage_request:
  assumes "request_ok req" "Buffer_ok b" "Buffer_contents b = http_print req @ rest"
    and "peek_string b = Some s" "\<not> contains s ''shidu''"
  obtains b' where "Buffer_contents b' = rest"
    "HttpServer_onMessage cb ok now HttpContext_new b =
       map_option (\<lambda>answer. \<lparr>res_context = HttpContext_new, res_buffer = b', res_calls = answer, res_file = None\<rparr>)
         (HttpServer_onRequest cb (setReceiveTime now req))"
proof -
  obtain b' where b': "parseRequest now HttpContext_new b =
      Some (True, \<lparr>hc_state = kGotAll, request = setReceiveTime now req\<rparr>, b')" "Buffer_contents b' = rest"
    using parseRequest_print [OF assms(1-3), of now] by blast
  have "HttpServer_onMessage cb ok now HttpContext_new b =
       map_option (\<lambda>answer. \<lparr>res_context = HttpContext_new, res_buffer = b', res_calls = answer, res_file = None\<rparr>)
         (HttpServer_onRequest cb (setReceiveTime now req))"
    using assms(4,5) b'(1)
    by (cases "HttpServer_onRequest cb (setReceiveTime now req)") (simp_all add: HttpServer_onMessage_def gotAll_def)
  with b'(2) show ?thesis by (rule that)
qed

subsection \<open>Paths\<close>

lemma find_last_of_None: "find_last_of c s = None \<longleftrightarrow> c \<notin> set s"
  using std_find_eq_length_iff [of c "rev s"] by (simp add: find_last_of_def Let_def)

lemma last_component_Some:
  assumes "CHR ''/'' \<in> set p"
  shows "\<exists>dir name. p = dir @ CHR ''/'' # name \<and> CHR ''/'' \<notin> set name \<and> last_component p = Some (CHR ''/'' # name)"
proof -
  obtain dir name where p: "p = dir @ CHR ''/'' # name" "CHR ''/'' \<notin> set name"
    using split_list_last [OF assms] by blast
  then have "std_find (CHR ''/'') (rev p) = length name"
    using std_find_hit [of "CHR ''/''" "rev name" "rev dir"] by simp
  then show ?thesis using p by (auto simp: last_component_def find_last_of_def Let_def)
qed

definition is_picture :: "string \<Rightarrow> bool" where
  "is_picture p \<longleftrightarrow> contains p ''jpg'' \<or> contains p ''ico'' \<or> contains p ''png''"

definition is_media :: "string \<Rightarrow> bool" where
  "is_media p \<longleftrightarrow> \<not> is_picture p \<and> (contains p ''mp4'' \<or> contains p ''mp3'')"

lemma contains_slash: "\<not> is_picture ''/''" "\<not> is_media ''/''"
  by (simp_all add: is_picture_def is_media_def contains_def)

lemma ConstructPath_asset:
  "is_picture p \<or> is_media p \<Longrightarrow> ConstructPath cfg p =
     map_option (\<lambda>temp. (if is_picture p then pic_root cfg else media_root cfg) @ temp) (last_component p)"
  using contains_slash
  by (cases "p = ''/''"; cases "last_component p") (auto simp: ConstructPath_def is_picture_def is_media_def)

lemma ConstructPath_page: "\<not> is_picture p \<Longrightarrow> \<not> is_media p \<Longrightarrow> \<exists>q. ConstructPath cfg p = Some (html_root cfg @ q)"
  by (auto simp: ConstructPath_def is_picture_def is_media_def)

lemma last_component_None: "last_component p = None \<longleftrightarrow> CHR ''/'' \<notin> set p"
  using find_last_of_None [of "CHR ''/''" p] by (cases "find_last_of (CHR ''/'') p") (simp_all add: last_component_def)

lemma ConstructPath_None:
  "ConstructPath cfg p = None \<longleftrightarrow> (is_picture p \<or> is_media p) \<and> CHR ''/'' \<notin> set p"
proof (cases "is_picture p \<or> is_media p")
  case True
  then show ?thesis by (simp add: ConstructPath_asset last_component_None)
next
  case False
  then show ?thesis using ConstructPath_page [of p cfg] by auto
qed

text \<open>A message as it lies in a buffer, with the untouched zero byte after it.\<close>

definition buffer_of :: "string \<Rightarrow> Buffer" where
  "buffer_of m = \<lparr>buffer = replicate 8 (CHR 0x00) @ m @ [CHR 0x00], readerIndex = 8, writerIndex = 8 + length m\<rparr>"

definition get_request :: "string \<Rightarrow> HttpRequest" where
  "get_request target = \<lparr>hr_method = kGet, hr_version = kHttp11, path = target, query = [],
     receiveTime = Timestamp 0, headers = [(''Host'', ''localhost'')]\<rparr>"

lemma buffer_of_simps [simp]:
  "Buffer_ok (buffer_of m)" "Buffer_contents (buffer_of m) = m"
  by (simp_all add: buffer_of_def Buffer_ok_def Buffer_inv_def kCheapPrepend_def Buffer_contents_def subrange_def)

lemma peek_string_buffer_of: "CHR 0x00 \<notin> set m \<Longrightarrow> peek_string (buffer_of m) = Some m"
proof -
  assume "CHR 0x00 \<notin> set m"
  then have "takeWhile (\<lambda>c. c \<noteq> CHR 0x00) (m @ [CHR 0x00]) = m" by (induction m) auto
  then show ?thesis by (simp add: peek_string_def buffer_of_def Buffer_peek_def Let_def)
qed

subsection \<open>Properties\<close>

text \<open>
  C19. Framing.  Printing a keep-alive response appends its lines, an empty line and the body to any buffer, and
  a client that finds the empty line and then reads as many bytes as \<^verbatim>\<open>Content-Length\<close> declares gets exactly
  the header lines and the body, and leaves what follows untouched.
\<close>

theorem HttpResponse_framing:
  assumes "rsp_fits r" "rsp_plain r" "\<not> closeConnection r" "Buffer_ok b"
  shows "\<exists>b'. appendToBuffer r b = Some b' \<and> Buffer_ok b' \<and> Buffer_contents b' = Buffer_contents b @ rsp_print r
    \<and> client_read (rsp_print r @ rest) = Some (rsp_lines r, rsp_body r, rest)"
  using appendToBuffer_appends [OF assms(1)] client_read_print [OF assms(2) _ assms(3)] assms(1,4)
  unfolding appends_def by (auto simp: rsp_fits_def)

theorem HttpResponse_framing_witness:
  "\<exists>b'. appendToBuffer \<lparr>rsp_headers = [(''Server'', ''muduo'')], statusCode = 200, statusMessage = ''OK'',
        closeConnection = False, rsp_body = ''hello''\<rparr> (Buffer_new 16) = Some b' \<and> Buffer_ok b'
    \<and> Buffer_contents b' = Buffer_contents (Buffer_new 16) @ rsp_print \<lparr>rsp_headers = [(''Server'', ''muduo'')],
        statusCode = 200, statusMessage = ''OK'', closeConnection = False, rsp_body = ''hello''\<rparr>
    \<and> client_read (rsp_print \<lparr>rsp_headers = [(''Server'', ''muduo'')], statusCode = 200, statusMessage = ''OK'',
        closeConnection = False, rsp_body = ''hello''\<rparr> @ ''HTTP/1.1'') =
      Some (rsp_lines \<lparr>rsp_headers = [(''Server'', ''muduo'')], statusCode = 200, statusMessage = ''OK'',
        closeConnection = False, rsp_body = ''hello''\<rparr>, ''hello'', ''HTTP/1.1'')"
  using HttpResponse_framing [of "\<lparr>rsp_headers = [(''Server'', ''muduo'')], statusCode = 200, statusMessage = ''OK'',
        closeConnection = False, rsp_body = ''hello''\<rparr>" "Buffer_new 16" "''HTTP/1.1''"] Buffer_ok_new
  by (simp add: rsp_fits_def rsp_plain_def plain_def)




text \<open>
  C22. A request that kills the server.  A well-formed request for a picture or a sound whose target has no slash
  (\<^verbatim>\<open>GET a.jpg HTTP/1.1\<close>) terminates the process of the file server by an uncaught exception.
\<close>

theorem HttpServer_remote_crash:
  assumes "request_ok req" "Buffer_ok b" "Buffer_contents b = http_print req @ rest"
    and "peek_string b = Some s" "\<not> contains s ''shidu''"
    and "is_picture (path req) \<or> is_media (path req)" "CHR ''/'' \<notin> set (path req)" "map_of redirections (path req) = None"
  shows "HttpServer_onMessage (http_server_response_get cfg redirections fs stat_ok os) ok now HttpContext_new b = None"
proof -
  have "ConstructPath cfg (path req) = None" using assms(6,7) ConstructPath_None by blast
  then have crash: "HttpServer_onRequest (http_server_response_get cfg redirections fs stat_ok os) (setReceiveTime now req) = None"
    using assms(8) by (simp add: HttpServer_onRequest_def http_server_response_get_def setReceiveTime_def)
  obtain b' where "Buffer_contents b' = rest" "HttpServer_onMessage (http_server_response_get cfg redirections fs stat_ok os) ok now HttpContext_new b =
       map_option (\<lambda>answer. \<lparr>res_context = HttpContext_new, res_buffer = b', res_calls = answer, res_file = None\<rparr>)
         (HttpServer_onRequest (http_server_response_get cfg redirections fs stat_ok os) (setReceiveTime now req))"
    by (rule onMessage_request [OF assms(1-5)])
  then show ?thesis unfolding crash option.map by blast
qed

theorem HttpServer_remote_crash_witness:
  "HttpServer_onMessage (http_server_response_get default_config redirect_init (\<lambda>_. None) (\<lambda>_. False)
       \<lparr>pipe_output_ok = True, pipe_input_ok = True, fork_ok = True, child_output = (\<lambda>_. [])\<rparr>)
     True (Timestamp 5) HttpContext_new (buffer_of (http_print (get_request ''a.jpg''))) = None"
proof (rule HttpServer_remote_crash [where rest = "[]"])
  show "request_ok (get_request ''a.jpg'')"
    by (simp add: get_request_def request_ok_def plain_def header_ok_def isspace_def smap_ok_def)
  show "peek_string (buffer_of (http_print (get_request ''a.jpg''))) = Some (http_print (get_request ''a.jpg''))"
    by (rule peek_string_buffer_of) code_simp
  show "\<not> contains (http_print (get_request ''a.jpg'')) ''shidu''" by code_simp
  show "is_picture (path (get_request ''a.jpg'')) \<or> is_media (path (get_request ''a.jpg''))" by code_simp
  show "CHR ''/'' \<notin> set (path (get_request ''a.jpg''))" "map_of redirect_init (path (get_request ''a.jpg'')) = None" by code_simp+
qed simp_all

end
