(* ===== verification/Base_Format.thy ===== *)
theory Base_Format
  imports Base_StringPiece "HOL-Library.Log_Nat"
begin

section \<open>Short forms of large numbers\<close>

text \<open>
  \<^verbatim>\<open>formatSI\<close> and \<^verbatim>\<open>formatIEC\<close> of \<^verbatim>\<open>muduo/base/LogStream.cc\<close>, which print a count with a unit, computed in
  double precision, and the documented bounds of their widths.
\<close>

subsection \<open>Floating point\<close>

text \<open>
  The doubles that the short forms compute with are zero or at least \<open>2 ^ -8\<close>, so that with their 53 significant
  bits each is a multiple of \<open>2 ^ -60\<close>; a double is represented by that multiple.  \<open>to_double a b\<close> is the double
  nearest to \<open>a / b\<close>, with ties to the even significand, which is how IEEE 754 defines conversion, product and
  quotient.
\<close>

type_synonym double = nat

definition round_even :: "nat \<Rightarrow> nat \<Rightarrow> nat" where
  "round_even a b =
     (let q = a div b; r = a mod b
      in if 2 * r < b \<or> (2 * r = b \<and> even q) then q else q + 1)"

definition to_double :: "nat \<Rightarrow> nat \<Rightarrow> double" where
  "to_double a b = (let k = floorlog 2 (a * 2 ^ 60 div b) - 53 in round_even (a * 2 ^ 60) (b * 2 ^ k) * 2 ^ k)"

definition double_of :: "nat \<Rightarrow> double" where
  "double_of n = to_double n 1"

definition double_mult :: "double \<Rightarrow> double \<Rightarrow> double" where
  "double_mult x y = to_double (x * y) (2 ^ 60 * 2 ^ 60)"

definition double_div :: "double \<Rightarrow> double \<Rightarrow> double" where
  "double_div x y = to_double x y"

text \<open>\<^verbatim>\<open>printf\<close> of a double with \<open>d\<close> decimals rounds its exact value.\<close>

definition fixed :: "nat \<Rightarrow> nat \<Rightarrow> string" where
  "fixed d m = show_nat (m div 10 ^ d) @ (if d = 0 then [] else CHR ''.'' # fmt_d (CHR ''0'') d (int (m mod 10 ^ d)))"

definition printf_f :: "nat \<Rightarrow> double \<Rightarrow> string" where
  "printf_f d x = fixed d (round_even (x * 10 ^ d) (2 ^ 60))"

definition formatSI :: "int \<Rightarrow> string" where
  "formatSI s =
     (let n = double_of (nat s)
      in if s < 1000 then show_int s
         else if s < 9995 then printf_f 2 (double_div n (double_of (10 ^ 3))) @ ''k''
         else if s < 99950 then printf_f 1 (double_div n (double_of (10 ^ 3))) @ ''k''
         else if s < 999500 then printf_f 0 (double_div n (double_of (10 ^ 3))) @ ''k''
         else if s < 9995000 then printf_f 2 (double_div n (double_of (10 ^ 6))) @ ''M''
         else if s < 99950000 then printf_f 1 (double_div n (double_of (10 ^ 6))) @ ''M''
         else if s < 999500000 then printf_f 0 (double_div n (double_of (10 ^ 6))) @ ''M''
         else if s < 9995000000 then printf_f 2 (double_div n (double_of (10 ^ 9))) @ ''G''
         else if s < 99950000000 then printf_f 1 (double_div n (double_of (10 ^ 9))) @ ''G''
         else if s < 999500000000 then printf_f 0 (double_div n (double_of (10 ^ 9))) @ ''G''
         else if s < 9995000000000 then printf_f 2 (double_div n (double_of (10 ^ 12))) @ ''T''
         else if s < 99950000000000 then printf_f 1 (double_div n (double_of (10 ^ 12))) @ ''T''
         else if s < 999500000000000 then printf_f 0 (double_div n (double_of (10 ^ 12))) @ ''T''
         else if s < 9995000000000000 then printf_f 2 (double_div n (double_of (10 ^ 15))) @ ''P''
         else if s < 99950000000000000 then printf_f 1 (double_div n (double_of (10 ^ 15))) @ ''P''
         else if s < 999500000000000000 then printf_f 0 (double_div n (double_of (10 ^ 15))) @ ''P''
         else printf_f 2 (double_div n (double_of (10 ^ 18))) @ ''E'')"

text \<open>A negative argument is below \<^verbatim>\<open>Ki\<close>, as zero is.\<close>

definition formatIEC :: "int \<Rightarrow> string" where
  "formatIEC s =
     (let n = double_of (nat s);
          Ki = double_of 1024;
          Mi = double_mult Ki (double_of 1024);
          Gi = double_mult Mi (double_of 1024);
          Ti = double_mult Gi (double_of 1024);
          Pi = double_mult Ti (double_of 1024);
          Ei = double_mult Pi (double_of 1024)
      in if n < Ki then show_int s
         else if n < double_mult Ki (to_double 9995 1000) then printf_f 2 (double_div n Ki) @ ''Ki''
         else if n < double_mult Ki (to_double 9995 100) then printf_f 1 (double_div n Ki) @ ''Ki''
         else if n < double_mult Ki (to_double 10235 10) then printf_f 0 (double_div n Ki) @ ''Ki''
         else if n < double_mult Mi (to_double 9995 1000) then printf_f 2 (double_div n Mi) @ ''Mi''
         else if n < double_mult Mi (to_double 9995 100) then printf_f 1 (double_div n Mi) @ ''Mi''
         else if n < double_mult Mi (to_double 10235 10) then printf_f 0 (double_div n Mi) @ ''Mi''
         else if n < double_mult Gi (to_double 9995 1000) then printf_f 2 (double_div n Gi) @ ''Gi''
         else if n < double_mult Gi (to_double 9995 100) then printf_f 1 (double_div n Gi) @ ''Gi''
         else if n < double_mult Gi (to_double 10235 10) then printf_f 0 (double_div n Gi) @ ''Gi''
         else if n < double_mult Ti (to_double 9995 1000) then printf_f 2 (double_div n Ti) @ ''Ti''
         else if n < double_mult Ti (to_double 9995 100) then printf_f 1 (double_div n Ti) @ ''Ti''
         else if n < double_mult Ti (to_double 10235 10) then printf_f 0 (double_div n Ti) @ ''Ti''
         else if n < double_mult Pi (to_double 9995 1000) then printf_f 2 (double_div n Pi) @ ''Pi''
         else if n < double_mult Pi (to_double 9995 100) then printf_f 1 (double_div n Pi) @ ''Pi''
         else if n < double_mult Pi (to_double 10235 10) then printf_f 0 (double_div n Pi) @ ''Pi''
         else if n < double_mult Ei (to_double 9995 1000) then printf_f 2 (double_div n Ei) @ ''Ei''
         else printf_f 1 (double_div n Ei) @ ''Ei'')"

subsection \<open>Rounding is monotone\<close>

lemma round_even_mono:
  assumes "a \<le> a'" "0 < b"
  shows "round_even a b \<le> round_even a' b"
proof (cases "a div b = a' div b")
  case True
  then have "a mod b \<le> a' mod b" using assms(1) by (metis add_le_cancel_left div_mult_mod_eq)
  then show ?thesis using True by (auto simp: round_even_def Let_def)
next
  case False
  then have "a div b < a' div b" using assms by (simp add: div_le_mono order_neq_le_trans)
  then show ?thesis by (auto simp: round_even_def Let_def)
qed

lemma round_even_exact: "0 < b \<Longrightarrow> round_even (q * b) b = q"
  by (simp add: round_even_def)

text \<open>The binade of a quotient bounds the quotient and its double.\<close>

lemma to_double_binade:
  assumes "0 < b" "b \<le> a * 2 ^ 8"
  defines "k \<equiv> floorlog 2 (a * 2 ^ 60 div b) - 53"
  shows "2 ^ 52 * 2 ^ k \<le> to_double a b" "to_double a b \<le> 2 ^ 53 * 2 ^ k"
    and "2 ^ 52 * 2 ^ k * b \<le> a * 2 ^ 60" "a * 2 ^ 60 \<le> 2 ^ 53 * 2 ^ k * b"
proof -
  let ?c = "a * 2 ^ 60 div b"
  let ?f = "floorlog 2 ?c"
  have "b * 2 ^ 52 \<le> (a * 2 ^ 8) * 2 ^ 52" using assms(2) by (rule mult_le_mono1)
  then have c: "2 ^ 52 \<le> ?c" using assms(1) by (simp add: less_eq_div_iff_mult_less_eq mult.commute)
  then have "0 < ?c" by (rule less_le_trans [rotated]) simp
  then have f: "2 ^ (?f - 1) \<le> ?c" "?c < 2 ^ ?f" using floorlog_bounds [of ?c 2] by auto
  have "(2 :: nat) ^ 52 < 2 ^ ?f" using c f(2) by linarith
  then have "52 < ?f" by (rule power_less_imp_less_exp [rotated]) simp
  then have exps: "?f - 1 = 52 + k" "?f = 53 + k" by (simp_all add: k_def)
  show lo: "2 ^ 52 * 2 ^ k * b \<le> a * 2 ^ 60"
    using f(1) assms(1) unfolding exps(1) power_add by (simp only: less_eq_div_iff_mult_less_eq)
  have "a * 2 ^ 60 < 2 ^ 53 * 2 ^ k * b"
    using f(2) assms(1) unfolding exps(2) power_add by (simp only: div_less_iff_less_mult)
  then show hi: "a * 2 ^ 60 \<le> 2 ^ 53 * 2 ^ k * b" by (rule less_imp_le)
  have pos: "0 < b * 2 ^ k" using assms(1) by simp
  have d: "to_double a b = round_even (a * 2 ^ 60) (b * 2 ^ k) * 2 ^ k" by (simp only: to_double_def Let_def k_def)
  have "2 ^ 52 \<le> round_even (a * 2 ^ 60) (b * 2 ^ k)"
    using round_even_mono [OF _ pos, of "2 ^ 52 * (b * 2 ^ k)" "a * 2 ^ 60"] lo round_even_exact [OF pos, of "2 ^ 52"]
    by (simp only: ac_simps)
  then show "2 ^ 52 * 2 ^ k \<le> to_double a b" unfolding d by (rule mult_le_mono1)
  have "round_even (a * 2 ^ 60) (b * 2 ^ k) \<le> 2 ^ 53"
    using round_even_mono [OF _ pos, of "a * 2 ^ 60" "2 ^ 53 * (b * 2 ^ k)"] hi round_even_exact [OF pos, of "2 ^ 53"]
    by (simp only: ac_simps)
  then show "to_double a b \<le> 2 ^ 53 * 2 ^ k" unfolding d by (rule mult_le_mono1)
qed

lemma to_double_mono:
  assumes "0 < b" "b \<le> a * 2 ^ 8" "a \<le> a'"
  shows "to_double a b \<le> to_double a' b"
proof -
  let ?k = "floorlog 2 (a * 2 ^ 60 div b) - 53" and ?k' = "floorlog 2 (a' * 2 ^ 60 div b) - 53"
  have le: "a * 2 ^ 60 \<le> a' * 2 ^ 60" using assms(3) by (rule mult_le_mono1)
  have b': "b \<le> a' * 2 ^ 8" using assms(2,3) by simp
  have "?k \<le> ?k'" using floorlog_mono [OF div_le_mono [OF le], of 2 b] by (rule diff_le_mono)
  then consider "?k = ?k'" | "Suc ?k \<le> ?k'" by linarith
  then show ?thesis
  proof cases
    case 1
    then show ?thesis using assms(1) round_even_mono [OF le, of "b * 2 ^ ?k'"]
      by (simp only: to_double_def Let_def) simp
  next
    case 2
    have "to_double a b \<le> 2 ^ 52 * 2 ^ Suc ?k" using to_double_binade(2) [OF assms(1,2)] by simp
    also have "\<dots> \<le> 2 ^ 52 * 2 ^ ?k'" using 2 by (intro mult_le_mono2 power_increasing) simp_all
    also have "\<dots> \<le> to_double a' b" by (rule to_double_binade(1) [OF assms(1) b'])
    finally show ?thesis .
  qed
qed

lemma double_of_mono: "1 \<le> s \<Longrightarrow> s \<le> s' \<Longrightarrow> double_of s \<le> double_of s'"
  unfolding double_of_def by (rule to_double_mono) simp_all

lemma double_of_bounds:
  assumes "1 \<le> s"
  shows "s * 2 ^ 60 \<le> 2 * double_of s" "double_of s \<le> 2 * (s * 2 ^ 60)"
  using to_double_binade [of 1 s] assms unfolding double_of_def by simp_all

text \<open>The number in front of the unit \<open>y\<close>, in the last printed place.\<close>

definition places :: "nat \<Rightarrow> double \<Rightarrow> nat \<Rightarrow> nat" where
  "places d y s = round_even (double_div (double_of s) y * 10 ^ d) (2 ^ 60)"

lemma printf_places: "printf_f d (double_div (double_of s) y) = fixed d (places d y s)"
  by (simp add: printf_f_def places_def)

lemma places_mono:
  assumes "0 < y" "y \<le> double_of s * 2 ^ 8" "1 \<le> s" "s \<le> s'"
  shows "places d y s \<le> places d y s'"
  unfolding places_def double_div_def
  by (intro round_even_mono mult_le_mono1 to_double_mono double_of_mono) (use assms in simp_all)

lemma length_fixed:
  assumes "m < 1000" "d \<le> 2"
  shows "length (fixed d m) \<le> 4"
proof -
  have "length (show_nat (m div 10 ^ d)) \<le> 3 - d"
    using assms by (intro length_show_nat) (auto simp: le_Suc_eq numeral_2_eq_2 div_less_iff_less_mult)
  moreover have "length (fmt_d (CHR ''0'') d (int (m mod 10 ^ d))) \<le> d" if "0 < d"
    using length_show_nat [OF that, of "m mod 10 ^ d"] by (simp add: fmt_d_def Let_def)
  ultimately show ?thesis using assms by (auto simp: fixed_def)
qed

lemma length_fixed_0: "m < 10000 \<Longrightarrow> length (fixed 0 m) \<le> 4"
  using length_show_nat [of 4 m] by (simp add: fixed_def)

subsection \<open>Widths of the short forms\<close>

lemma floorlog_div: "2 ^ m \<le> x \<Longrightarrow> floorlog 2 x = floorlog 2 (x div 2 ^ m) + m" for x :: nat
proof (induction m arbitrary: x)
  case (Suc m)
  then have "0 < x" "2 ^ m \<le> x div 2" by (auto intro: less_le_trans [of 0 "2 ^ Suc m"])
  then show ?case using Suc.IH [of "x div 2"] compute_floorlog [of 2 x] by (simp add: div_mult2_eq)
qed simp

text \<open>Evaluates a logarithm sixteen bits at a time.\<close>

lemma floorlog_eval: "floorlog 2 x =
    (if 65536 \<le> x then floorlog 2 (x div 65536) + 16 else if 16 \<le> x then floorlog 2 (x div 16) + 4
     else if 0 < x then floorlog 2 (x div 2) + 1 else 0)" for x :: nat
  using floorlog_div [of 16 x] floorlog_div [of 4 x] compute_floorlog [of 2 x] by simp

lemmas double_eval = places_def double_div_def double_mult_def double_of_def to_double_def round_even_def Let_def floorlog_eval

text \<open>The largest argument of each branch prints no more than three digits.\<close>

lemma SI_places:
  "places 2 (double_of (10 ^ 3)) 9994 = 999"
  "places 1 (double_of (10 ^ 3)) 99949 = 999"
  "places 0 (double_of (10 ^ 3)) 999499 = 999"
  "places 2 (double_of (10 ^ 6)) 9994999 = 999"
  "places 1 (double_of (10 ^ 6)) 99949999 = 999"
  "places 0 (double_of (10 ^ 6)) 999499999 = 999"
  "places 2 (double_of (10 ^ 9)) 9994999999 = 999"
  "places 1 (double_of (10 ^ 9)) 99949999999 = 999"
  "places 0 (double_of (10 ^ 9)) 999499999999 = 999"
  "places 2 (double_of (10 ^ 12)) 9994999999999 = 999"
  "places 1 (double_of (10 ^ 12)) 99949999999999 = 999"
  "places 0 (double_of (10 ^ 12)) 999499999999999 = 999"
  "places 2 (double_of (10 ^ 15)) 9994999999999999 = 999"
  "places 1 (double_of (10 ^ 15)) 99949999999999991 = 999"
  "places 0 (double_of (10 ^ 15)) 999499999999999999 = 1000"
  "places 2 (double_of (10 ^ 18)) 9223372036854775807 = 922"
  by (simp_all add: double_eval)

lemma SI_last_places:
  "places 1 (double_of (10 ^ 15)) 99949999999999992 = 1000" "places 1 (double_of (10 ^ 15)) 99949999999999999 = 1000"
  by (simp_all add: double_eval)

lemmas SI_numeral = SI_places [simplified] SI_last_places [simplified]

lemma unit_le:
  assumes "1 \<le> y" "y \<le> 2 * s" "s \<le> u"
  shows "places d (double_of y) s \<le> places d (double_of y) u"
proof (rule places_mono)
  show s: "1 \<le> s" using assms(1,2) by linarith
  show "0 < double_of y" using double_of_bounds(1) [OF assms(1)] assms(1) by (cases "double_of y") simp_all
  have "y * 2 ^ 60 \<le> 2 * s * 2 ^ 60" using assms(2) by (rule mult_le_mono1)
  then show "double_of y \<le> double_of s * 2 ^ 8"
    using double_of_bounds(2) [OF assms(1)] double_of_bounds(1) [OF s] by simp
qed (rule assms(3))

lemma unit_branch:
  assumes "places d (double_of y) u < 1000" "d \<le> 2" "1 \<le> y" "y \<le> 2 * s" "s \<le> u" "4 + length c \<le> w"
  shows "length (printf_f d (double_div (double_of s) (double_of y)) @ c) \<le> w"
  using length_fixed [of "places d (double_of y) s" d] unit_le [OF assms(3-5), of d] assms(1,2,6)
  by (simp add: printf_places)

lemma length_if: "(P \<Longrightarrow> length a \<le> k) \<Longrightarrow> (\<not> P \<Longrightarrow> length b \<le> k) \<Longrightarrow> length (if P then a else b) \<le> k"
  by simp

lemma length_show_int: "0 \<le> s \<Longrightarrow> s < 10 ^ k \<Longrightarrow> 0 < k \<Longrightarrow> length (show_int s) \<le> k"
  using length_show_nat [of k "nat s"] by (simp add: show_int_def nat_less_iff)

lemma formatSI_short:
  assumes "n < 2 ^ 63" "\<not> (99949999999999992 \<le> n \<and> n < 99950000000000000)"
  shows "length (formatSI (int n)) \<le> 5"
  unfolding formatSI_def Let_def nat_int
  apply (intro length_if)
  subgoal by (rule order_trans [OF length_show_int [of _ 3]]) simp_all
  subgoal using assms by (intro unit_branch [where u = 9994]) (simp_all add: SI_numeral)
  subgoal using assms by (intro unit_branch [where u = 99949]) (simp_all add: SI_numeral)
  subgoal using assms by (intro unit_branch [where u = 999499]) (simp_all add: SI_numeral)
  subgoal using assms by (intro unit_branch [where u = 9994999]) (simp_all add: SI_numeral)
  subgoal using assms by (intro unit_branch [where u = 99949999]) (simp_all add: SI_numeral)
  subgoal using assms by (intro unit_branch [where u = 999499999]) (simp_all add: SI_numeral)
  subgoal using assms by (intro unit_branch [where u = 9994999999]) (simp_all add: SI_numeral)
  subgoal using assms by (intro unit_branch [where u = 99949999999]) (simp_all add: SI_numeral)
  subgoal using assms by (intro unit_branch [where u = 999499999999]) (simp_all add: SI_numeral)
  subgoal using assms by (intro unit_branch [where u = 9994999999999]) (simp_all add: SI_numeral)
  subgoal using assms by (intro unit_branch [where u = 99949999999999]) (simp_all add: SI_numeral)
  subgoal using assms by (intro unit_branch [where u = 999499999999999]) (simp_all add: SI_numeral)
  subgoal using assms by (intro unit_branch [where u = 9994999999999999]) (simp_all add: SI_numeral)
  subgoal using assms by (intro unit_branch [where u = 99949999999999991]) (simp_all add: SI_numeral)
  subgoal using unit_le [of "10 ^ 15" n 999499999999999999 0] length_fixed_0 [of "places 0 (double_of (10 ^ 15)) n"] by (simp add: printf_places SI_numeral)
  subgoal using assms by (intro unit_branch [where u = 9223372036854775807]) (simp_all add: SI_numeral)
  done

lemma formatSI_long:
  assumes "99949999999999992 \<le> n" "n < 99950000000000000"
  shows "formatSI (int n) = ''100.0P''"
proof -
  have "places 1 (double_of (10 ^ 15)) n = 1000"
    using unit_le [of "10 ^ 15" 99949999999999992 n 1] unit_le [of "10 ^ 15" n 99949999999999999 1] assms by (simp add: SI_numeral)
  moreover have "fixed 1 1000 = ''100.0''" by code_simp
  ultimately show ?thesis using assms by (simp add: formatSI_def printf_places)
qed

text \<open>The units and limits of \<^verbatim>\<open>formatIEC\<close>, and the largest argument below each limit.\<close>

lemma IEC_units:
  "double_mult (double_of 1024) (double_of 1024) = double_of (2 ^ 20)"
  "double_mult (double_of (2 ^ 20)) (double_of 1024) = double_of (2 ^ 30)"
  "double_mult (double_of (2 ^ 30)) (double_of 1024) = double_of (2 ^ 40)"
  "double_mult (double_of (2 ^ 40)) (double_of 1024) = double_of (2 ^ 50)"
  "double_mult (double_of (2 ^ 50)) (double_of 1024) = double_of (2 ^ 60)"
  by (simp_all add: double_eval)

lemma below_limit:
  assumes "double_of u < t" "t \<le> double_of (u + 1)" "1 \<le> s"
  shows "double_of s < t \<longleftrightarrow> s \<le> u"
  using double_of_mono [of s u] double_of_mono [of "u + 1" s] assms by (cases "s \<le> u") auto

lemma IEC_literals:
  "to_double 9995 1000 = 11523450438545434624"
  "to_double 9995 100 = 115234504385454358528"
  "to_double 10235 10 = 1180015159965107879936"
  "double_of 1024 = 1180591620717411303424"
  "double_of 1048576 = 1208925819614629174706176"
  "double_of 1073741824 = 1237940039285380274899124224"
  "double_of 1099511627776 = 1267650600228229401496703205376"
  "double_of 1125899906842624 = 1298074214633706907132624082305024"
  "double_of 1152921504606846976 = 1329227995784915872903807060280344576"
  by (simp_all add: double_eval)

lemma IEC_products:
  "double_mult 1180591620717411303424 11523450438545434624 = 11800013249070525054976"
  "double_mult 1180591620717411303424 115234504385454358528 = 118000132490705263132672"
  "double_mult 1180591620717411303424 1180015159965107879936 = 1208335523804270469054464"
  "double_mult 1208925819614629174706176 11523450438545434624 = 12083213567048217656295424"
  "double_mult 1208925819614629174706176 115234504385454358528 = 120832135670482189447856128"
  "double_mult 1208925819614629174706176 1180015159965107879936 = 1237335576375572960311771136"
  "double_mult 1237940039285380274899124224 11523450438545434624 = 12373210692657374880046514176"
  "double_mult 1237940039285380274899124224 115234504385454358528 = 123732106926573761994604675072"
  "double_mult 1237940039285380274899124224 1180015159965107879936 = 1267031630208586711359253643264"
  "double_mult 1267650600228229401496703205376 11523450438545434624 = 12670167749281151877167630516224"
  "double_mult 1267650600228229401496703205376 115234504385454358528 = 126701677492811532282475187273728"
  "double_mult 1267650600228229401496703205376 1180015159965107879936 = 1297440389333592792431875730702336"
  "double_mult 1298074214633706907132624082305024 11523450438545434624 = 12974251775263899522219653648613376"
  "double_mult 1298074214633706907132624082305024 115234504385454358528 = 129742517752639009057254591768297472"
  "double_mult 1298074214633706907132624082305024 1180015159965107879936 = 1328578958677599019450240748239192064"
  "double_mult 1329227995784915872903807060280344576 11523450438545434624 = 13285633817870233110752925336180097024"
  by (simp_all add: double_mult_def to_double_def round_even_def Let_def floorlog_eval)

lemma IEC_limits:
  assumes "1 \<le> s"
  shows "double_of s < double_of 1024 \<longleftrightarrow> s \<le> 1023"
    and "double_of s < double_mult (double_of 1024) (to_double 9995 1000) \<longleftrightarrow> s \<le> 10234"
    and "double_of s < double_mult (double_of 1024) (to_double 9995 100) \<longleftrightarrow> s \<le> 102348"
    and "double_of s < double_mult (double_of 1024) (to_double 10235 10) \<longleftrightarrow> s \<le> 1048063"
    and "double_of s < double_mult (double_of (2 ^ 20)) (to_double 9995 1000) \<longleftrightarrow> s \<le> 10480517"
    and "double_of s < double_mult (double_of (2 ^ 20)) (to_double 9995 100) \<longleftrightarrow> s \<le> 104805171"
    and "double_of s < double_mult (double_of (2 ^ 20)) (to_double 10235 10) \<longleftrightarrow> s \<le> 1073217535"
    and "double_of s < double_mult (double_of (2 ^ 30)) (to_double 9995 1000) \<longleftrightarrow> s \<le> 10732049530"
    and "double_of s < double_mult (double_of (2 ^ 30)) (to_double 9995 100) \<longleftrightarrow> s \<le> 107320495308"
    and "double_of s < double_mult (double_of (2 ^ 30)) (to_double 10235 10) \<longleftrightarrow> s \<le> 1098974756863"
    and "double_of s < double_mult (double_of (2 ^ 40)) (to_double 9995 1000) \<longleftrightarrow> s \<le> 10989618719621"
    and "double_of s < double_mult (double_of (2 ^ 40)) (to_double 9995 100) \<longleftrightarrow> s \<le> 109896187196211"
    and "double_of s < double_mult (double_of (2 ^ 40)) (to_double 10235 10) \<longleftrightarrow> s \<le> 1125350151028735"
    and "double_of s < double_mult (double_of (2 ^ 50)) (to_double 9995 1000) \<longleftrightarrow> s \<le> 11253369568892025"
    and "double_of s < double_mult (double_of (2 ^ 50)) (to_double 9995 100) \<longleftrightarrow> s \<le> 112533695688920264"
    and "double_of s < double_mult (double_of (2 ^ 50)) (to_double 10235 10) \<longleftrightarrow> s \<le> 1152358554653425599"
  by (rule below_limit [OF _ _ assms]; simp add: IEC_literals IEC_products; simp add: double_eval)+

lemma IEC_last: "double_of s < double_mult (double_of (2 ^ 60)) (to_double 9995 1000)" if "1 \<le> s" "s < 2 ^ 63"
proof -
  have "double_of s \<le> double_of (2 ^ 63)" using that by (intro double_of_mono) simp_all
  also have "\<dots> < double_mult (double_of (2 ^ 60)) (to_double 9995 1000)"
    by (simp add: IEC_literals IEC_products) (simp add: double_eval)
  finally show ?thesis .
qed

lemma IEC_places:
  "places 2 (double_of (2 ^ 10)) 10234 = 999"
  "places 1 (double_of (2 ^ 10)) 102348 = 999"
  "places 0 (double_of (2 ^ 10)) 1048063 = 1023"
  "places 2 (double_of (2 ^ 20)) 10480517 = 999"
  "places 1 (double_of (2 ^ 20)) 104805171 = 999"
  "places 0 (double_of (2 ^ 20)) 1073217535 = 1023"
  "places 2 (double_of (2 ^ 30)) 10732049530 = 999"
  "places 1 (double_of (2 ^ 30)) 107320495308 = 999"
  "places 0 (double_of (2 ^ 30)) 1098974756863 = 1023"
  "places 2 (double_of (2 ^ 40)) 10989618719621 = 999"
  "places 1 (double_of (2 ^ 40)) 109896187196211 = 999"
  "places 0 (double_of (2 ^ 40)) 1125350151028735 = 1023"
  "places 2 (double_of (2 ^ 50)) 11253369568892025 = 999"
  "places 1 (double_of (2 ^ 50)) 112533695688920264 = 999"
  "places 0 (double_of (2 ^ 50)) 1152358554653425599 = 1023"
  "places 2 (double_of (2 ^ 60)) 9223372036854775807 = 800"
  by (simp_all add: double_eval)

lemmas IEC_numeral = IEC_places [simplified]

lemma formatIEC_0: "formatIEC 0 = ''0''"
proof -
  have "double_of (nat 0) < double_of 1024" by (simp add: double_eval)
  moreover have "show_int 0 = ''0''" by code_simp
  ultimately show ?thesis by (simp only: formatIEC_def Let_def if_True)
qed

lemma formatIEC_short:
  assumes "1 \<le> n" "n < 2 ^ 63"
  shows "length (formatIEC (int n)) \<le> 6"
  unfolding formatIEC_def Let_def nat_int IEC_units IEC_limits [OF assms(1)] if_P [OF IEC_last [OF assms]]
  apply (intro length_if)
  subgoal by (rule order_trans [OF length_show_int [of _ 4]]) simp_all
  subgoal using assms by (intro unit_branch [where u = 10234]) (simp_all add: IEC_numeral)
  subgoal using assms by (intro unit_branch [where u = 102348]) (simp_all add: IEC_numeral)
  subgoal using unit_le [of "1024" n 1048063 0] length_fixed_0 [of "places 0 (double_of (1024)) n"] by (simp add: printf_places IEC_numeral)
  subgoal using assms by (intro unit_branch [where u = 10480517]) (simp_all add: IEC_numeral)
  subgoal using assms by (intro unit_branch [where u = 104805171]) (simp_all add: IEC_numeral)
  subgoal using unit_le [of "2 ^ 20" n 1073217535 0] length_fixed_0 [of "places 0 (double_of (2 ^ 20)) n"] by (simp add: printf_places IEC_numeral)
  subgoal using assms by (intro unit_branch [where u = 10732049530]) (simp_all add: IEC_numeral)
  subgoal using assms by (intro unit_branch [where u = 107320495308]) (simp_all add: IEC_numeral)
  subgoal using unit_le [of "2 ^ 30" n 1098974756863 0] length_fixed_0 [of "places 0 (double_of (2 ^ 30)) n"] by (simp add: printf_places IEC_numeral)
  subgoal using assms by (intro unit_branch [where u = 10989618719621]) (simp_all add: IEC_numeral)
  subgoal using assms by (intro unit_branch [where u = 109896187196211]) (simp_all add: IEC_numeral)
  subgoal using unit_le [of "2 ^ 40" n 1125350151028735 0] length_fixed_0 [of "places 0 (double_of (2 ^ 40)) n"] by (simp add: printf_places IEC_numeral)
  subgoal using assms by (intro unit_branch [where u = 11253369568892025]) (simp_all add: IEC_numeral)
  subgoal using assms by (intro unit_branch [where u = 112533695688920264]) (simp_all add: IEC_numeral)
  subgoal using unit_le [of "2 ^ 50" n 1152358554653425599 0] length_fixed_0 [of "places 0 (double_of (2 ^ 50)) n"] by (simp add: printf_places IEC_numeral)
  subgoal using assms by (intro unit_branch [where u = 9223372036854775807]) (simp_all add: IEC_numeral)
  done

subsection \<open>Properties\<close>

text \<open>
  C23. Width of \<^verbatim>\<open>formatSI\<close>.  The header promises at most five characters for counts from zero on.  That holds
  for every 64-bit count but eight: just below 99.95 peta the conversion to double rounds up to the limit
  itself and \<^verbatim>\<open>100.0P\<close> is printed.
\<close>

theorem formatSI_width:
  assumes "0 \<le> s" "s < 2 ^ 63"
  shows "if 99949999999999992 \<le> s \<and> s < 99950000000000000 then formatSI s = ''100.0P'' else length (formatSI s) \<le> 5"
proof -
  obtain n where n: "s = int n" using nonneg_int_cases [OF assms(1)] by blast
  show ?thesis using formatSI_short [of n] formatSI_long [of n] assms(2) unfolding n by auto
qed

theorem formatSI_width_witness:
  "formatSI 99949999999999993 = ''100.0P'' \<and> length (formatSI 9223372036854775807) \<le> 5"
  using formatSI_width [of 99949999999999993] formatSI_width [of 9223372036854775807] by simp

text \<open>
  Width of \<^verbatim>\<open>formatIEC\<close>.  At most six characters are printed for every 64-bit count from zero on, as the
  header promises.
\<close>

lemma formatIEC_width:
  assumes "0 \<le> s" "s < 2 ^ 63"
  shows "length (formatIEC s) \<le> 6"
proof (cases "s = 0")
  case True
  then show ?thesis by (simp add: formatIEC_0)
next
  case False
  then show ?thesis using formatIEC_short [of "nat s"] assms by simp
qed

end
