(* ===== verification/Base_LogStream.thy ===== *)
theory Base_LogStream
  imports Base_StringPiece
begin

section \<open>Log streams\<close>

text \<open>
  \<^verbatim>\<open>muduo/base/LogStream.h\<close> and \<^verbatim>\<open>LogStream.cc\<close>: the fixed array that every log line is formatted into, and the
  conversions of integers and pointers.  A write outside of the array is \<open>None\<close>.
\<close>

subsection \<open>The fixed buffer\<close>

definition kSmallBuffer :: nat where "kSmallBuffer = 4000"
definition kLargeBuffer :: nat where "kLargeBuffer = 4000 * 1000"

record FixedBuffer =
  fb_data :: "char list"
  fb_cur :: nat

definition FixedBuffer_new :: "nat \<Rightarrow> FixedBuffer" where
  "FixedBuffer_new n = \<lparr>fb_data = replicate n (CHR 0x00), fb_cur = 0\<rparr>"

definition avail :: "FixedBuffer \<Rightarrow> nat" where
  "avail b = length (fb_data b) - fb_cur b"

definition FixedBuffer_length :: "FixedBuffer \<Rightarrow> nat" where
  "FixedBuffer_length b = fb_cur b"

definition FixedBuffer_reset :: "FixedBuffer \<Rightarrow> FixedBuffer" where
  "FixedBuffer_reset b = b\<lparr>fb_cur := 0\<rparr>"

definition FixedBuffer_bzero :: "FixedBuffer \<Rightarrow> FixedBuffer" where
  "FixedBuffer_bzero b = b\<lparr>fb_data := replicate (length (fb_data b)) (CHR 0x00)\<rparr>"

definition FixedBuffer_add :: "nat \<Rightarrow> FixedBuffer \<Rightarrow> FixedBuffer" where
  "FixedBuffer_add len b = b\<lparr>fb_cur := fb_cur b + len\<rparr>"

text \<open>Writing characters from \<^verbatim>\<open>cur_\<close> on.\<close>

definition poke :: "char list \<Rightarrow> FixedBuffer \<Rightarrow> FixedBuffer option" where
  "poke cs b = do {
     cassert (fb_cur b + length cs \<le> length (fb_data b));
     Some (b\<lparr>fb_data := copy_to cs (fb_cur b) (fb_data b)\<rparr>)
   }"

text \<open>
  \<open>mem\<close> is the memory at \<^verbatim>\<open>buf\<close> and \<open>len\<close> the \<^verbatim>\<open>size_t\<close> argument, to which a negative length converts as a huge
  one.
\<close>

definition FixedBuffer_append :: "char list \<Rightarrow> nat \<Rightarrow> FixedBuffer \<Rightarrow> FixedBuffer option" where
  "FixedBuffer_append mem len b =
     (if avail b > len
      then do {
        cassert (len \<le> length mem);
        b \<leftarrow> poke (take len mem) b;
        Some (FixedBuffer_add len b)
      }
      else Some b)"

definition int_to_size :: "int \<Rightarrow> nat" where
  "int_to_size i = nat (i mod 2 ^ 64)"

definition debugString :: "FixedBuffer \<Rightarrow> FixedBuffer option" where
  "debugString b = poke [CHR 0x00] b"

definition FixedBuffer_toString :: "FixedBuffer \<Rightarrow> string" where
  "FixedBuffer_toString b = take (fb_cur b) (fb_data b)"

definition FixedBuffer_toStringPiece :: "FixedBuffer \<Rightarrow> StringPiece" where
  "FixedBuffer_toStringPiece b = StringPiece_set (fb_data b) (size_to_int (FixedBuffer_length b))"

subsection \<open>Numbers\<close>

definition digits_table :: string where
  "digits_table = ''9876543210123456789''"

text \<open>\<^verbatim>\<open>zero[lsd]\<close>, where \<^verbatim>\<open>zero\<close> points at the middle of the table and \<^verbatim>\<open>lsd\<close> may be negative.\<close>

definition zero_at :: "int \<Rightarrow> char" where
  "zero_at lsd = digits_table ! nat (9 + lsd)"

function convert_loop :: "int \<Rightarrow> string" where
  "convert_loop i =
     (let lsd = i smod 10;
          i' = i sdiv 10
      in zero_at lsd # (if i' \<noteq> 0 then convert_loop i' else []))"
  by auto
termination
proof (relation "measure (\<lambda>i. nat \<bar>i\<bar>)")
  fix i lsd i' :: int
  assume "i' = i sdiv 10" "i' \<noteq> 0"
  then show "(i', i) \<in> measure (\<lambda>i. nat \<bar>i\<bar>)"
    by (cases "0 \<le> i") (auto simp: signed_divide_int_def sgn_if)
qed simp

declare convert_loop.simps [simp del]

definition convert :: "int \<Rightarrow> string" where
  "convert v = rev (convert_loop v @ (if v < 0 then ''-'' else []))"

definition digitsHex :: string where
  "digitsHex = ''0123456789ABCDEF''"

function convertHex_loop :: "nat \<Rightarrow> string" where
  "convertHex_loop i = digitsHex ! (i mod 16) # (if i div 16 \<noteq> 0 then convertHex_loop (i div 16) else [])"
  by auto
termination by (relation "measure id") auto

declare convertHex_loop.simps [simp del]

definition convertHex :: "nat \<Rightarrow> string" where
  "convertHex v = rev (convertHex_loop v)"

subsection \<open>The stream\<close>

definition kMaxNumericSize :: nat where "kMaxNumericSize = 32"

text \<open>\<^verbatim>\<open>convert\<close> also writes the terminating zero, which \<^verbatim>\<open>add\<close> does not count.\<close>

definition formatInteger :: "int \<Rightarrow> FixedBuffer \<Rightarrow> FixedBuffer option" where
  "formatInteger v b =
     (if avail b \<ge> kMaxNumericSize
      then do {
        b \<leftarrow> poke (convert v @ [CHR 0x00]) b;
        Some (FixedBuffer_add (length (convert v)) b)
      }
      else Some b)"

definition LogStream_int :: "32 word \<Rightarrow> FixedBuffer \<Rightarrow> FixedBuffer option" where
  "LogStream_int v b = formatInteger (sint v) b"

definition LogStream_uint :: "32 word \<Rightarrow> FixedBuffer \<Rightarrow> FixedBuffer option" where
  "LogStream_uint v b = formatInteger (uint v) b"

definition LogStream_short :: "16 word \<Rightarrow> FixedBuffer \<Rightarrow> FixedBuffer option" where
  "LogStream_short v b = LogStream_int (scast v) b"

definition LogStream_ushort :: "16 word \<Rightarrow> FixedBuffer \<Rightarrow> FixedBuffer option" where
  "LogStream_ushort v b = LogStream_uint (ucast v) b"

definition LogStream_long :: "64 word \<Rightarrow> FixedBuffer \<Rightarrow> FixedBuffer option" where
  "LogStream_long v b = formatInteger (sint v) b"

definition LogStream_ulong :: "64 word \<Rightarrow> FixedBuffer \<Rightarrow> FixedBuffer option" where
  "LogStream_ulong v b = formatInteger (uint v) b"

definition LogStream_long_long :: "64 word \<Rightarrow> FixedBuffer \<Rightarrow> FixedBuffer option" where
  "LogStream_long_long v b = formatInteger (sint v) b"

definition LogStream_ulong_long :: "64 word \<Rightarrow> FixedBuffer \<Rightarrow> FixedBuffer option" where
  "LogStream_ulong_long v b = formatInteger (uint v) b"

definition LogStream_pointer :: "64 word \<Rightarrow> FixedBuffer \<Rightarrow> FixedBuffer option" where
  "LogStream_pointer p b =
     (if avail b \<ge> kMaxNumericSize
      then do {
        let s = convertHex (unat p);
        b \<leftarrow> poke (''0x'' @ s @ [CHR 0x00]) b;
        Some (FixedBuffer_add (length s + 2) b)
      }
      else Some b)"

text \<open>
  \<open>text\<close> is what \<^verbatim>\<open>%.12g\<close> prints for the number; \<^verbatim>\<open>snprintf\<close> stores at most 31 characters of it and a zero, and
  returns its full length.
\<close>

definition LogStream_double :: "string \<Rightarrow> FixedBuffer \<Rightarrow> FixedBuffer option" where
  "LogStream_double text b =
     (if avail b \<ge> kMaxNumericSize
      then do {
        b \<leftarrow> poke (take (kMaxNumericSize - 1) text @ [CHR 0x00]) b;
        Some (FixedBuffer_add (length text) b)
      }
      else Some b)"

definition LogStream_bool :: "bool \<Rightarrow> FixedBuffer \<Rightarrow> FixedBuffer option" where
  "LogStream_bool v b = FixedBuffer_append (if v then ''1'' else ''0'') 1 b"

definition LogStream_char :: "char \<Rightarrow> FixedBuffer \<Rightarrow> FixedBuffer option" where
  "LogStream_char v b = FixedBuffer_append [v] 1 b"

text \<open>A C string is the characters before its terminating zero; \<open>None\<close> is the null pointer.\<close>

definition LogStream_cstring :: "string option \<Rightarrow> FixedBuffer \<Rightarrow> FixedBuffer option" where
  "LogStream_cstring str b = (case str of
      Some s \<Rightarrow> FixedBuffer_append s (length s) b
    | None \<Rightarrow> FixedBuffer_append ''(null)'' 6 b)"

definition LogStream_string :: "string \<Rightarrow> FixedBuffer \<Rightarrow> FixedBuffer option" where
  "LogStream_string v b = FixedBuffer_append v (length v) b"

definition LogStream_piece :: "StringPiece \<Rightarrow> FixedBuffer \<Rightarrow> FixedBuffer option" where
  "LogStream_piece v b = FixedBuffer_append (sp_ptr v) (int_to_size (sp_length v)) b"

definition LogStream_buffer :: "FixedBuffer \<Rightarrow> FixedBuffer \<Rightarrow> FixedBuffer option" where
  "LogStream_buffer v b = LogStream_piece (FixedBuffer_toStringPiece v) b"

definition LogStream_append :: "char list \<Rightarrow> int \<Rightarrow> FixedBuffer \<Rightarrow> FixedBuffer option" where
  "LogStream_append mem len b = FixedBuffer_append mem (int_to_size len) b"

text \<open>\<^verbatim>\<open>Fmt\<close>: what \<^verbatim>\<open>snprintf\<close> printed for the format and the number, which has to fit.\<close>

record Fmt =
  fmt_buf :: string
  fmt_length :: int

definition Fmt_new :: "string \<Rightarrow> Fmt option" where
  "Fmt_new text = do {
     cassert (length text < 32);
     Some \<lparr>fmt_buf = text @ [CHR 0x00], fmt_length = int (length text)\<rparr>
   }"

definition LogStream_Fmt :: "Fmt \<Rightarrow> FixedBuffer \<Rightarrow> FixedBuffer option" where
  "LogStream_Fmt f b = LogStream_append (fmt_buf f) (fmt_length f) b"

subsection \<open>The conversions\<close>

lemma zero_at_digit: "\<bar>d\<bar> < 10 \<Longrightarrow> zero_at d = digit_char (nat \<bar>d\<bar>)"
proof -
  assume "\<bar>d\<bar> < 10"
  then have "d \<in> {-9 .. 9}" by auto
  moreover have "\<forall>d \<in> {-9 .. 9}. zero_at d = digit_char (nat \<bar>d\<bar>)" by code_simp
  ultimately show ?thesis by blast
qed

lemma sdivmod_10:
  fixes i :: int
  shows "nat \<bar>i smod 10\<bar> = nat \<bar>i\<bar> mod 10" "nat \<bar>i sdiv 10\<bar> = nat \<bar>i\<bar> div 10" "\<bar>i smod 10\<bar> < 10"
  by (cases i rule: int_cases2;
      simp add: signed_modulo_int_def signed_divide_int_def sgn_if abs_mult nat_mod_distrib nat_div_distrib)+

lemma convert_loop_show: "rev (convert_loop i) = show_nat (nat \<bar>i\<bar>)"
proof (induction i rule: convert_loop.induct)
  case (1 i)
  let ?n = "nat \<bar>i\<bar>"
  have z: "zero_at (i smod 10) = digit_char (?n mod 10)" using zero_at_digit sdivmod_10 by simp
  have "i sdiv 10 \<noteq> 0 \<longleftrightarrow> \<not> ?n < 10" using sdivmod_10(2) [of i] by (auto simp: div_eq_0_iff)
  then show ?case
    using "1.IH" [OF refl refl] z sdivmod_10(2) [of i] by (subst convert_loop.simps, subst show_nat.simps) (auto simp: Let_def)
qed

lemma convert_show: "convert v = show_int v"
  using convert_loop_show [of v] by (simp add: convert_def show_int_def)

lemma length_convert: "- (2 ^ 63) \<le> v \<Longrightarrow> v < 2 ^ 64 \<Longrightarrow> length (convert v) \<le> 20"
  using length_show_nat [of 20 "nat v"] length_show_nat [of 19 "nat (- v)"]
  by (auto simp: convert_show show_int_def nat_less_iff)

definition hex_val :: "char \<Rightarrow> nat" where
  "hex_val c = (let n = of_char c in if n < 58 then n - 48 else n - 55)"

definition nat_of_hex :: "string \<Rightarrow> nat" where
  "nat_of_hex = foldl (\<lambda>n c. 16 * n + hex_val c) 0"

lemma hex_val_digit: "d < 16 \<Longrightarrow> hex_val (digitsHex ! d) = d"
proof -
  assume "d < 16"
  then have "d \<in> set [0 ..< 16]" by simp
  moreover have "\<forall>d \<in> set [0 ..< 16]. hex_val (digitsHex ! d) = d" by code_simp
  ultimately show ?thesis by blast
qed

lemma nat_of_hex_convert: "nat_of_hex (convertHex v) = v"
proof -
  have "foldl (\<lambda>n c. 16 * n + hex_val c) 0 (rev (convertHex_loop i)) = i" for i
  proof (induction i rule: convertHex_loop.induct)
    case (1 i)
    then show ?case by (subst convertHex_loop.simps) (auto simp: hex_val_digit div_eq_0_iff)
  qed
  then show ?thesis by (simp add: nat_of_hex_def convertHex_def)
qed

lemma length_convertHex_loop: "0 < k \<Longrightarrow> i < 16 ^ k \<Longrightarrow> length (convertHex_loop i) \<le> k"
proof (induction i arbitrary: k rule: convertHex_loop.induct)
  case (1 i)
  obtain j where j: "k = Suc j" using "1.prems"(1) by (cases k) auto
  then have "i div 16 < 16 ^ j" using "1.prems"(2) by (simp add: div_less_iff_less_mult mult.commute)
  then show ?case using "1.IH" [of j] j by (subst convertHex_loop.simps) (cases j; auto)
qed

lemma length_convertHex: "v < 2 ^ 64 \<Longrightarrow> length (convertHex v) \<le> 16"
  using length_convertHex_loop [of 16 v] by (simp add: convertHex_def)

subsection \<open>Runs of the stream\<close>

datatype log_op = LBool bool | LShort "16 word" | LUshort "16 word" | LInt "32 word" | LUint "32 word"
  | LLong "64 word" | LUlong "64 word"
  | LLongLong "64 word" | LUlongLong "64 word" | LPointer "64 word" | LDouble string | LChar char
  | LCstring "string option" | LString string | LPiece StringPiece | LBuffer FixedBuffer
  | LAppend "char list" int | LReset

fun log_step :: "log_op \<Rightarrow> FixedBuffer \<Rightarrow> FixedBuffer option" where
  "log_step (LBool v) b = LogStream_bool v b"
| "log_step (LShort v) b = LogStream_short v b"
| "log_step (LUshort v) b = LogStream_ushort v b"
| "log_step (LInt v) b = LogStream_int v b"
| "log_step (LUint v) b = LogStream_uint v b"
| "log_step (LLong v) b = LogStream_long v b"
| "log_step (LUlong v) b = LogStream_ulong v b"
| "log_step (LLongLong v) b = LogStream_long_long v b"
| "log_step (LUlongLong v) b = LogStream_ulong_long v b"
| "log_step (LPointer v) b = LogStream_pointer v b"
| "log_step (LDouble v) b = LogStream_double v b"
| "log_step (LChar v) b = LogStream_char v b"
| "log_step (LCstring v) b = LogStream_cstring v b"
| "log_step (LString v) b = LogStream_string v b"
| "log_step (LPiece v) b = LogStream_piece v b"
| "log_step (LBuffer v) b = LogStream_buffer v b"
| "log_step (LAppend mem len) b = LogStream_append mem len b"
| "log_step LReset b = Some (FixedBuffer_reset b)"

text \<open>
  The specification: every insertion has a text and a demand of room, and appends the whole text or
  nothing.
\<close>

fun log_text :: "log_op \<Rightarrow> string" where
  "log_text (LBool v) = (if v then ''1'' else ''0'')"
| "log_text (LShort v) = show_int (sint v)"
| "log_text (LUshort v) = show_int (uint v)"
| "log_text (LInt v) = show_int (sint v)"
| "log_text (LUint v) = show_int (uint v)"
| "log_text (LLong v) = show_int (sint v)"
| "log_text (LUlong v) = show_int (uint v)"
| "log_text (LLongLong v) = show_int (sint v)"
| "log_text (LUlongLong v) = show_int (uint v)"
| "log_text (LPointer v) = ''0x'' @ convertHex (unat v)"
| "log_text (LDouble v) = v"
| "log_text (LChar v) = [v]"
| "log_text (LCstring v) = (case v of Some s \<Rightarrow> s | None \<Rightarrow> ''(null)'')"
| "log_text (LString v) = v"
| "log_text (LPiece v) = take (nat (sp_length v)) (sp_ptr v)"
| "log_text (LBuffer v) = FixedBuffer_toString v"
| "log_text (LAppend mem len) = take (nat len) mem"
| "log_text LReset = []"

fun log_numeric :: "log_op \<Rightarrow> bool" where
  "log_numeric (LBool _) = False"
| "log_numeric (LChar _) = False"
| "log_numeric (LCstring _) = False"
| "log_numeric (LString _) = False"
| "log_numeric (LPiece _) = False"
| "log_numeric (LBuffer _) = False"
| "log_numeric (LAppend _ _) = False"
| "log_numeric LReset = False"
| "log_numeric _ = True"

definition log_spec :: "nat \<Rightarrow> log_op \<Rightarrow> string \<Rightarrow> string" where
  "log_spec n x xs =
     (if x = LReset then []
      else if (if log_numeric x then 32 else length (log_text x) + 1) \<le> n - length xs then xs @ log_text x
      else xs)"

definition FixedBuffer_ok :: "nat \<Rightarrow> FixedBuffer \<Rightarrow> bool" where
  "FixedBuffer_ok n b \<longleftrightarrow> length (fb_data b) = n \<and> fb_cur b \<le> n"

fun log_op_ok :: "log_op \<Rightarrow> bool" where
  "log_op_ok (LDouble v) \<longleftrightarrow> length v < 32"
| "log_op_ok (LPiece v) \<longleftrightarrow> StringPiece_ok v \<and> sp_length v < 2 ^ 31"
| "log_op_ok (LBuffer v) \<longleftrightarrow> FixedBuffer_ok (length (fb_data v)) v \<and> length (fb_data v) < 2 ^ 31"
| "log_op_ok (LAppend mem len) \<longleftrightarrow> 0 \<le> len \<and> len < 2 ^ 31 \<and> nat len \<le> length mem"
| "log_op_ok _ \<longleftrightarrow> True"

definition log_rel :: "nat \<Rightarrow> FixedBuffer \<Rightarrow> string \<Rightarrow> bool" where
  "log_rel n b xs \<longleftrightarrow> FixedBuffer_ok n b \<and> FixedBuffer_toString b = xs"

lemma log_rel_length: "log_rel n b xs \<Longrightarrow> fb_cur b = length xs \<and> length (fb_data b) = n \<and> length xs \<le> n"
  by (auto simp: log_rel_def FixedBuffer_ok_def FixedBuffer_toString_def)

lemma log_rel_avail: "log_rel n b xs \<Longrightarrow> avail b = n - length xs"
  using log_rel_length by (simp add: avail_def)

lemma poke_add:
  assumes "log_rel n b xs" "length xs + length cs + length ext \<le> n"
  shows "\<exists>b1. poke (cs @ ext) b = Some b1 \<and> log_rel n (FixedBuffer_add (length cs) b1) (xs @ cs)"
  using assms log_rel_length [OF assms(1)]
  by (auto simp: poke_def FixedBuffer_add_def log_rel_def FixedBuffer_ok_def FixedBuffer_toString_def copy_to_def)

lemma append_rel:
  assumes "log_rel n b xs" "len \<le> length mem"
  shows "\<exists>b'. FixedBuffer_append mem len b = Some b'
    \<and> log_rel n b' (if len + 1 \<le> n - length xs then xs @ take len mem else xs)"
proof (cases "len + 1 \<le> n - length xs")
  case True
  then have "length xs + len \<le> n" by simp
  then obtain b1 where "poke (take len mem) b = Some b1" "log_rel n (FixedBuffer_add len b1) (xs @ take len mem)"
    using poke_add [OF assms(1), of "take len mem" "[]"] assms(2) by auto
  then show ?thesis using True assms(2) log_rel_avail [OF assms(1)] by (simp add: FixedBuffer_append_def)
qed (use assms log_rel_avail [OF assms(1)] in \<open>simp add: FixedBuffer_append_def\<close>)

text \<open>The numeric insertions share one shape.\<close>

definition put_number :: "string \<Rightarrow> FixedBuffer \<Rightarrow> FixedBuffer option" where
  "put_number t b =
     (if avail b \<ge> kMaxNumericSize
      then do { b \<leftarrow> poke (t @ [CHR 0x00]) b; Some (FixedBuffer_add (length t) b) }
      else Some b)"

lemma number_rel:
  assumes "log_rel n b xs" "length t < 32"
  shows "\<exists>b'. put_number t b = Some b' \<and> log_rel n b' (if 32 \<le> n - length xs then xs @ t else xs)"
proof (cases "32 \<le> n - length xs")
  case True
  then have "length xs + length t + 1 \<le> n" using assms(2) by simp
  then obtain b1 where "poke (t @ [CHR 0x00]) b = Some b1" "log_rel n (FixedBuffer_add (length t) b1) (xs @ t)"
    using poke_add [OF assms(1), of t "[CHR 0x00]"] by auto
  then show ?thesis using True log_rel_avail [OF assms(1)] by (simp add: put_number_def kMaxNumericSize_def)
qed (use assms log_rel_avail [OF assms(1)] in \<open>simp add: put_number_def kMaxNumericSize_def\<close>)

lemma put_number_eqs:
  "formatInteger v b = put_number (show_int v) b"
  "LogStream_pointer p b = put_number (''0x'' @ convertHex (unat p)) b"
  "length d < 32 \<Longrightarrow> LogStream_double d b = put_number d b"
  by (simp_all add: formatInteger_def LogStream_pointer_def LogStream_double_def put_number_def convert_show
      kMaxNumericSize_def Let_def)

lemma word_text_bounds:
  "length (show_int (sint (w :: 16 word))) < 32" "length (show_int (uint (w :: 16 word))) < 32"
  "length (show_int (sint (x :: 32 word))) < 32" "length (show_int (uint (x :: 32 word))) < 32"
  "length (show_int (sint (y :: 64 word))) < 32" "length (show_int (uint (y :: 64 word))) < 32"
  "length (convertHex (unat y)) < 30"
  using length_convert [of "sint w"] length_convert [of "uint w"] length_convert [of "sint x"] length_convert [of "uint x"]
    length_convert [of "sint y"] length_convert [of "uint y"] length_convertHex [of "unat y"]
    sint_ge [of w] sint_lt [of w] sint_ge [of x] sint_lt [of x] sint_ge [of y] sint_lt [of y]
    uint_lt2p [of w] uint_lt2p [of x] uint_lt2p [of y]
    unsigned_less [of y, where 'a = nat] uint_ge_0 [of w] uint_ge_0 [of x] uint_ge_0 [of y]
  by (simp_all add: convert_show)

lemmas log_insertions = LogStream_bool_def LogStream_short_def LogStream_ushort_def LogStream_int_def LogStream_uint_def
  LogStream_long_def LogStream_ulong_def LogStream_long_long_def LogStream_ulong_long_def LogStream_char_def LogStream_cstring_def LogStream_string_def LogStream_piece_def
  LogStream_buffer_def LogStream_append_def FixedBuffer_toStringPiece_def StringPiece_set_def

lemma log_step_number:
  assumes "log_numeric x" "log_op_ok x"
  shows "log_step x b = put_number (log_text x) b" "length (log_text x) < 32"
  using assms word_text_bounds
  by (cases x; simp add: log_insertions put_number_eqs sint_up_scast uint_up_ucast is_up)+

lemma log_step_text:
  assumes "\<not> log_numeric x" "x \<noteq> LReset" "log_op_ok x"
  shows "\<exists>mem len. log_step x b = FixedBuffer_append mem len b \<and> len \<le> length mem \<and> take len mem = log_text x"
  using assms
  by (cases x; simp add: log_insertions int_to_size_def StringPiece_ok_def FixedBuffer_ok_def FixedBuffer_length_def
      FixedBuffer_toString_def size_to_int_small split: option.split; force)

lemma log_step_rel:
  assumes "log_rel n b xs" "log_op_ok x"
  shows "\<exists>b'. log_step x b = Some b' \<and> log_rel n b' (log_spec n x xs)"
proof (cases "x = LReset")
  case True
  then show ?thesis using assms(1)
    by (simp add: log_spec_def FixedBuffer_reset_def log_rel_def FixedBuffer_ok_def FixedBuffer_toString_def)
next
  case False
  show ?thesis
  proof (cases "log_numeric x")
    case True
    then show ?thesis using False number_rel [OF assms(1)] log_step_number [OF True assms(2)] by (simp add: log_spec_def)
  next
    case str: False
    obtain mem len where "log_step x b = FixedBuffer_append mem len b" "len \<le> length mem" "take len mem = log_text x"
      using log_step_text [OF str False assms(2)] by blast
    moreover from this have "length (log_text x) = len" by (metis length_take min.absorb2)
    ultimately show ?thesis using append_rel [OF assms(1), of len mem] str False by (auto simp: log_spec_def)
  qed
qed

lemma log_run_rel:
  "log_rel n b xs \<Longrightarrow> \<forall>x \<in> set ops. log_op_ok x \<Longrightarrow>
   \<exists>b'. run_ops log_step ops b = Some b' \<and> log_rel n b' (foldl (\<lambda>xs x. log_spec n x xs) xs ops)"
proof (induction ops arbitrary: b xs)
  case (Cons x ops)
  obtain b1 where "log_step x b = Some b1" "log_rel n b1 (log_spec n x xs)"
    using log_step_rel [OF Cons.prems(1), of x] Cons.prems(2) by auto
  then show ?case using Cons.IH [of b1 "log_spec n x xs"] Cons.prems(2) by simp
qed simp

lemma log_rel_new: "log_rel n (FixedBuffer_new n) []"
  by (simp add: log_rel_def FixedBuffer_new_def FixedBuffer_ok_def FixedBuffer_toString_def)

subsection \<open>Properties\<close>

text \<open>
  C24. No overflow.  Whatever is inserted into a log stream, in whatever order, nothing is ever written outside of
  the array, and the contents are those of the specification: every insertion appears whole and unchanged,
  or, when the room does not suffice, not at all.
\<close>

theorem LogStream_refines:
  assumes "\<forall>x \<in> set ops. log_op_ok x"
  shows "\<exists>b. run_ops log_step ops (FixedBuffer_new n) = Some b \<and> length (fb_data b) = n \<and> fb_cur b \<le> n
    \<and> FixedBuffer_toString b = foldl (\<lambda>xs x. log_spec n x xs) [] ops"
  using log_run_rel [OF log_rel_new assms, of n] by (auto simp: log_rel_def FixedBuffer_ok_def)

theorem LogStream_refines_witness:
  "\<exists>b. run_ops log_step [LString ''x = '', LLong (- (2 ^ 63)), LString ''a text that does not fit any more''] (FixedBuffer_new 40)
      = Some b \<and> FixedBuffer_toString b = ''x = -9223372036854775808''"
proof -
  let ?ops = "[LString ''x = '', LLong (- (2 ^ 63)), LString ''a text that does not fit any more'']"
  have "sint (- (2 ^ 63) :: 64 word) = - (2 ^ 63)" by code_simp
  moreover have "show_int (- (2 ^ 63)) = ''-9223372036854775808''" 
    by (simp add: show_int_def show_nat.simps digit_char_def) code_simp
  ultimately have "foldl (\<lambda>xs x. log_spec 40 x xs) [] ?ops = ''x = -9223372036854775808''" by (simp add: log_spec_def)
  then show ?thesis using LogStream_refines [of ?ops 40] by auto
qed

text \<open>
  Numbers are printed exactly.  The table-driven conversion prints the decimal representation of every
  integer, the most negative ones included, whose absolute value the type cannot hold; the hexadecimal
  form of a pointer reads back to the pointer; and 64-bit values of both kinds stay within the bytes that
  are reserved for them.
\<close>

lemma LogStream_numbers:
  "convert v = show_int v \<and> nat_of_hex (convertHex p) = p
   \<and> length (convert (sint (w :: 64 word))) + 1 \<le> kMaxNumericSize
   \<and> length (convert (uint w)) + 1 \<le> kMaxNumericSize
   \<and> length (''0x'' @ convertHex (unat w)) + 1 \<le> kMaxNumericSize"
  using word_text_bounds(5-7) [of w] nat_of_hex_convert [of p] by (simp add: convert_show kMaxNumericSize_def)

end
