(* ===== verification/Net_TcpClient.thy ===== *)
theory Net_TcpClient
  imports Muduo_Prelude "HOL-Library.Multiset"
begin

section \<open>Connecting to a server\<close>

text \<open>
  \<^verbatim>\<open>muduo/net/Connector.cc\<close> and \<^verbatim>\<open>TcpClient.cc\<close>: establishing a connection without blocking, retrying with growing
  delays, and the client that owns the connection.

  \<open>cn_functors\<close> is the part of the loop's pending functors that belongs to the client, and \<open>cn_timers\<close> its pending
  timers, each with a mark that is set once the loop has finished the iteration that added the timer.
  \<open>cn_channel\<close> is the descriptor of \<^verbatim>\<open>channel_\<close>, or \<open>None\<close> for the null pointer, and \<open>cn_enabled\<close> tells whether that
  channel is registered with the poller.  The results of \<^verbatim>\<open>socket\<close>, \<^verbatim>\<open>connect\<close> and \<^verbatim>\<open>getsockopt\<close> are arguments.  The
  last fields are histories: the sockets created, those closed, those given to \<^verbatim>\<open>newConnectionCallback_\<close>, and the
  delays waited since the last (re)start.
\<close>

subsection \<open>The connector\<close>

datatype States = kDisconnected | kConnecting | kConnected

datatype client_functor = StartInLoop | StopInLoop | ResetChannel | ForceClose nat | ConnectDestroyed nat

definition kMaxRetryDelayMs :: int where "kMaxRetryDelayMs = 30 * 1000"
definition kInitRetryDelayMs :: int where "kInitRetryDelayMs = 500"

record Connector =
  cn_connect :: bool
  cn_state :: States
  cn_channel :: "int option"
  cn_enabled :: bool
  retryDelayMs :: int
  cn_timers :: "(int \<times> bool) list"
  cn_functors :: "client_functor list"
  cn_created :: "int list"
  cn_closed :: "int list"
  cn_given :: "int list"
  cn_delays :: "int list"

definition Connector_new :: Connector where
  "Connector_new = \<lparr>cn_connect = False, cn_state = kDisconnected, cn_channel = None, cn_enabled = False,
     retryDelayMs = kInitRetryDelayMs, cn_timers = [], cn_functors = [],
     cn_created = [], cn_closed = [], cn_given = [], cn_delays = []\<rparr>"

definition Connector_dtor :: "Connector \<Rightarrow> unit option" where
  "Connector_dtor c = cassert (cn_channel c = None)"

definition cn_queueInLoop :: "client_functor \<Rightarrow> Connector \<Rightarrow> Connector" where
  "cn_queueInLoop f c = c\<lparr>cn_functors := cn_functors c @ [f]\<rparr>"

definition cn_close :: "int \<Rightarrow> Connector \<Rightarrow> Connector" where
  "cn_close sockfd c = c\<lparr>cn_closed := cn_closed c @ [sockfd]\<rparr>"

definition Connector_retry :: "int \<Rightarrow> Connector \<Rightarrow> Connector" where
  "Connector_retry sockfd c =
     (let c = (cn_close sockfd c)\<lparr>cn_state := kDisconnected\<rparr>
      in if cn_connect c
         then c\<lparr>cn_timers := cn_timers c @ [(retryDelayMs c, False)],
                cn_delays := cn_delays c @ [retryDelayMs c],
                retryDelayMs := min (retryDelayMs c * 2) kMaxRetryDelayMs\<rparr>
         else c)"

definition connecting :: "int \<Rightarrow> Connector \<Rightarrow> Connector option" where
  "connecting sockfd c = do {
     let c = c\<lparr>cn_state := kConnecting\<rparr>;
     cassert (cn_channel c = None);
     Some (c\<lparr>cn_channel := Some sockfd, cn_enabled := True\<rparr>)
   }"

text \<open>The error numbers of Linux: in progress, interrupted and already connected; and those worth a retry.\<close>

definition connect_pending :: "int list" where
  "connect_pending = [0, 115, 4, 106]"

definition connect_retry :: "int list" where
  "connect_retry = [11, 98, 99, 111, 101]"

definition Connector_connect :: "int \<Rightarrow> int \<Rightarrow> Connector \<Rightarrow> Connector option" where
  "Connector_connect sockfd savedErrno c =
     (let c = c\<lparr>cn_created := cn_created c @ [sockfd]\<rparr>
      in if savedErrno \<in> set connect_pending then connecting sockfd c
         else if savedErrno \<in> set connect_retry then Some (Connector_retry sockfd c)
         else Some (cn_close sockfd c))"

definition startInLoop :: "int \<Rightarrow> int \<Rightarrow> Connector \<Rightarrow> Connector option" where
  "startInLoop sockfd savedErrno c = do {
     cassert (cn_state c = kDisconnected);
     (if cn_connect c then Connector_connect sockfd savedErrno c else Some c)
   }"

text \<open>\<^verbatim>\<open>runInLoop\<close> calls at once in the thread of the loop and queues in any other.\<close>

definition Connector_start :: "bool \<Rightarrow> int \<Rightarrow> int \<Rightarrow> Connector \<Rightarrow> Connector option" where
  "Connector_start in_loop sockfd savedErrno c =
     (let c = c\<lparr>cn_connect := True\<rparr>
      in if in_loop then startInLoop sockfd savedErrno c else Some (cn_queueInLoop StartInLoop c))"

text \<open>\<^verbatim>\<open>disableAll\<close> and \<^verbatim>\<open>remove\<close> need the channel to exist and to be registered.\<close>

definition removeAndResetChannel :: "Connector \<Rightarrow> (int \<times> Connector) option" where
  "removeAndResetChannel c = do {
     sockfd \<leftarrow> cn_channel c;
     cassert (cn_enabled c);
     Some (sockfd, cn_queueInLoop ResetChannel (c\<lparr>cn_enabled := False\<rparr>))
   }"

text \<open>Destroying a channel that is still registered fails an assertion of its destructor.\<close>

definition resetChannel :: "Connector \<Rightarrow> Connector option" where
  "resetChannel c = do {
     cassert (\<not> cn_enabled c);
     Some (c\<lparr>cn_channel := None\<rparr>)
   }"

definition Connector_stop :: "Connector \<Rightarrow> Connector" where
  "Connector_stop c = cn_queueInLoop StopInLoop (c\<lparr>cn_connect := False\<rparr>)"

definition stopInLoop :: "Connector \<Rightarrow> Connector option" where
  "stopInLoop c =
     (if cn_state c = kConnecting
      then do {
        (sockfd, c) \<leftarrow> removeAndResetChannel (c\<lparr>cn_state := kDisconnected\<rparr>);
        Some (Connector_retry sockfd c)
      }
      else Some c)"

definition Connector_restart :: "int \<Rightarrow> int \<Rightarrow> Connector \<Rightarrow> Connector option" where
  "Connector_restart sockfd savedErrno c =
     startInLoop sockfd savedErrno
       (c\<lparr>cn_state := kDisconnected, retryDelayMs := kInitRetryDelayMs, cn_connect := True, cn_delays := []\<rparr>)"

text \<open>The second component is the socket that is given to \<^verbatim>\<open>newConnectionCallback_\<close>.\<close>

definition Connector_handleWrite :: "int \<Rightarrow> bool \<Rightarrow> Connector \<Rightarrow> (Connector \<times> int option) option" where
  "Connector_handleWrite err selfConnect c =
     (if cn_state c = kConnecting
      then do {
        (sockfd, c) \<leftarrow> removeAndResetChannel c;
        (if err \<noteq> 0 then Some (Connector_retry sockfd c, None)
         else if selfConnect then Some (Connector_retry sockfd c, None)
         else do {
           let c = c\<lparr>cn_state := kConnected\<rparr>;
           Some (if cn_connect c then (c\<lparr>cn_given := cn_given c @ [sockfd]\<rparr>, Some sockfd)
                 else (cn_close sockfd c, None))
         })
      }
      else do {
        cassert (cn_state c = kDisconnected);
        Some (c, None)
      })"

definition Connector_handleError :: "Connector \<Rightarrow> Connector option" where
  "Connector_handleError c =
     (if cn_state c = kConnecting
      then do {
        (sockfd, c) \<leftarrow> removeAndResetChannel c;
        Some (Connector_retry sockfd c)
      }
      else Some c)"

subsection \<open>The client\<close>

text \<open>A connection is known by its number and its name.  \<open>peer\<close> is the printed address of the peer.\<close>

record TcpClient =
  connector :: Connector
  tc_name :: string
  tc_retry :: bool
  tc_connect :: bool
  tc_nextConnId :: nat
  connection :: "(nat \<times> string) option"

definition TcpClient_new :: "string \<Rightarrow> TcpClient" where
  "TcpClient_new nameArg = \<lparr>connector = Connector_new, tc_name = nameArg, tc_retry = False, tc_connect = True,
     tc_nextConnId = 1, connection = None\<rparr>"

definition tc_queueInLoop :: "client_functor \<Rightarrow> TcpClient \<Rightarrow> TcpClient" where
  "tc_queueInLoop f t = t\<lparr>connector := cn_queueInLoop f (connector t)\<rparr>"

definition with_connector :: "(Connector \<Rightarrow> Connector option) \<Rightarrow> TcpClient \<Rightarrow> TcpClient option" where
  "with_connector f t = do { c \<leftarrow> f (connector t); Some (t\<lparr>connector := c\<rparr>) }"

definition TcpClient_connect :: "bool \<Rightarrow> int \<Rightarrow> int \<Rightarrow> TcpClient \<Rightarrow> TcpClient option" where
  "TcpClient_connect in_loop sockfd savedErrno t =
     with_connector (Connector_start in_loop sockfd savedErrno) (t\<lparr>tc_connect := True\<rparr>)"

text \<open>The second component tells whether \<^verbatim>\<open>shutdown()\<close> is called on the connection.\<close>

definition TcpClient_disconnect :: "TcpClient \<Rightarrow> TcpClient \<times> bool" where
  "TcpClient_disconnect t = (t\<lparr>tc_connect := False\<rparr>, connection t \<noteq> None)"

definition TcpClient_stop :: "TcpClient \<Rightarrow> TcpClient" where
  "TcpClient_stop t = t\<lparr>tc_connect := False, connector := Connector_stop (connector t)\<rparr>"

definition enableRetry :: "TcpClient \<Rightarrow> TcpClient" where
  "enableRetry t = t\<lparr>tc_retry := True\<rparr>"

definition client_conn_name :: "string \<Rightarrow> string \<Rightarrow> nat \<Rightarrow> string" where
  "client_conn_name name peer n = name @ take 31 ('':'' @ peer @ ''#'' @ show_nat n)"

definition TcpClient_newConnection :: "string \<Rightarrow> TcpClient \<Rightarrow> TcpClient" where
  "TcpClient_newConnection peer t =
     t\<lparr>connection := Some (tc_nextConnId t, client_conn_name (tc_name t) peer (tc_nextConnId t)),
       tc_nextConnId := tc_nextConnId t + 1\<rparr>"

definition TcpClient_removeConnection :: "nat \<Rightarrow> int \<Rightarrow> int \<Rightarrow> TcpClient \<Rightarrow> TcpClient option" where
  "TcpClient_removeConnection n sockfd savedErrno t = do {
     cassert (map_option fst (connection t) = Some n);
     let t = tc_queueInLoop (ConnectDestroyed n) (t\<lparr>connection := None\<rparr>);
     (if tc_retry t \<and> tc_connect t
      then with_connector (Connector_restart sockfd savedErrno) t
      else Some t)
   }"

text \<open>The write handler of the connector's channel, with the callback that the client installed.\<close>

definition TcpClient_handleWrite :: "int \<Rightarrow> bool \<Rightarrow> string \<Rightarrow> TcpClient \<Rightarrow> TcpClient option" where
  "TcpClient_handleWrite err selfConnect peer t = do {
     (c, given) \<leftarrow> Connector_handleWrite err selfConnect (connector t);
     let t = t\<lparr>connector := c\<rparr>;
     Some (if given \<noteq> None then TcpClient_newConnection peer t else t)
   }"

text \<open>\<^verbatim>\<open>forceCloseInLoop\<close> closes the connection unless it is closed already.\<close>

fun run_client_functor :: "int \<Rightarrow> int \<Rightarrow> client_functor \<Rightarrow> TcpClient \<Rightarrow> TcpClient option" where
  "run_client_functor sockfd savedErrno StartInLoop t = with_connector (startInLoop sockfd savedErrno) t"
| "run_client_functor sockfd savedErrno StopInLoop t = with_connector stopInLoop t"
| "run_client_functor sockfd savedErrno ResetChannel t = with_connector resetChannel t"
| "run_client_functor sockfd savedErrno (ForceClose n) t =
     (if map_option fst (connection t) = Some n then TcpClient_removeConnection n sockfd savedErrno t else Some t)"
| "run_client_functor sockfd savedErrno (ConnectDestroyed n) t = Some t"

subsection \<open>Runs\<close>

text \<open>
  The loop alternates between handling events and running the functors that were pending when it started to
  run them: \<open>cw_batch\<close> is \<open>None\<close> while events are handled.  \<open>cw_fresh\<close> marks a connection of this iteration, whose
  channel cannot be active before the next one.
\<close>

record client_world =
  cw_client :: TcpClient
  cw_started :: bool
  cw_batch :: "client_functor list option"
  cw_fresh :: bool

datatype client_event =
  EConnect bool int int
| EDisconnect
| EStop
| EEnableRetry
| EForceClose
| EWritable int bool string
| EError
| ETimer nat int int
| EPeerClose int int
| EBegin
| EFunctor int int
| EEnd

definition client_new :: "string \<Rightarrow> client_world" where
  "client_new name = \<lparr>cw_client = TcpClient_new name, cw_started = False, cw_batch = None, cw_fresh = False\<rparr>"

abbreviation cw_connector :: "client_world \<Rightarrow> Connector" where
  "cw_connector w \<equiv> connector (cw_client w)"

text \<open>
  When an event can happen.  The user calls \<^verbatim>\<open>connect()\<close> once, and \<^verbatim>\<open>disconnect()\<close> and \<^verbatim>\<open>stop()\<close> after that.  A retry timer
  waits for at least half a second and does not expire in the iteration that adds it.
\<close>

fun client_enabled :: "client_event \<Rightarrow> client_world \<Rightarrow> bool" where
  "client_enabled (EConnect _ _ _) w \<longleftrightarrow> \<not> cw_started w"
| "client_enabled EDisconnect w \<longleftrightarrow> cw_started w"
| "client_enabled EStop w \<longleftrightarrow> cw_started w"
| "client_enabled EEnableRetry w \<longleftrightarrow> True"
| "client_enabled EForceClose w \<longleftrightarrow> connection (cw_client w) \<noteq> None"
| "client_enabled (EWritable _ _ _) w \<longleftrightarrow> cw_batch w = None \<and> cn_enabled (cw_connector w)"
| "client_enabled EError w \<longleftrightarrow> cw_batch w = None \<and> cn_enabled (cw_connector w)"
| "client_enabled (ETimer i _ _) w \<longleftrightarrow> cw_batch w = None \<and> i < length (cn_timers (cw_connector w))
     \<and> snd (cn_timers (cw_connector w) ! i)"
| "client_enabled (EPeerClose _ _) w \<longleftrightarrow> cw_batch w = None \<and> connection (cw_client w) \<noteq> None \<and> \<not> cw_fresh w"
| "client_enabled EBegin w \<longleftrightarrow> cw_batch w = None"
| "client_enabled (EFunctor _ _) w \<longleftrightarrow> (\<exists>f fs. cw_batch w = Some (f # fs))"
| "client_enabled EEnd w \<longleftrightarrow> cw_batch w = Some []"

definition set_client :: "client_world \<Rightarrow> TcpClient option \<Rightarrow> client_world option" where
  "set_client w r = map_option (\<lambda>t. w\<lparr>cw_client := t\<rparr>) r"

definition drop_timer :: "nat \<Rightarrow> Connector \<Rightarrow> Connector" where
  "drop_timer i c = c\<lparr>cn_timers := take i (cn_timers c) @ drop (Suc i) (cn_timers c)\<rparr>"

definition age_timers :: "Connector \<Rightarrow> Connector" where
  "age_timers c = c\<lparr>cn_timers := map (\<lambda>(d, _). (d, True)) (cn_timers c)\<rparr>"

fun client_exec :: "client_event \<Rightarrow> client_world \<Rightarrow> client_world option" where
  "client_exec (EConnect in_loop fd errno) w =
     set_client (w\<lparr>cw_started := True\<rparr>) (TcpClient_connect in_loop fd errno (cw_client w))"
| "client_exec EDisconnect w = set_client w (Some (fst (TcpClient_disconnect (cw_client w))))"
| "client_exec EStop w = set_client w (Some (TcpClient_stop (cw_client w)))"
| "client_exec EEnableRetry w = set_client w (Some (enableRetry (cw_client w)))"
| "client_exec EForceClose w = set_client w
     (case connection (cw_client w) of
        Some (n, _) \<Rightarrow> Some (tc_queueInLoop (ForceClose n) (cw_client w)) | None \<Rightarrow> Some (cw_client w))"
| "client_exec (EWritable err self peer) w =
     set_client (w\<lparr>cw_fresh := True\<rparr>) (TcpClient_handleWrite err self peer (cw_client w))"
| "client_exec EError w = set_client w (with_connector Connector_handleError (cw_client w))"
| "client_exec (ETimer i fd errno) w =
     set_client w (with_connector (\<lambda>c. startInLoop fd errno (drop_timer i c)) (cw_client w))"
| "client_exec (EPeerClose fd errno) w = set_client w
     (case connection (cw_client w) of
        Some (n, _) \<Rightarrow> TcpClient_removeConnection n fd errno (cw_client w) | None \<Rightarrow> None)"
| "client_exec EBegin w = Some (w\<lparr>cw_batch := Some (cn_functors (cw_connector w)),
     cw_client := (cw_client w)\<lparr>connector := (cw_connector w)\<lparr>cn_functors := []\<rparr>\<rparr>\<rparr>)"
| "client_exec (EFunctor fd errno) w = (case cw_batch w of
     Some (f # fs) \<Rightarrow> set_client (w\<lparr>cw_batch := Some fs\<rparr>) (run_client_functor fd errno f (cw_client w))
   | _ \<Rightarrow> None)"
| "client_exec EEnd w = Some (w\<lparr>cw_batch := None, cw_fresh := False,
     cw_client := (cw_client w)\<lparr>connector := age_timers (cw_connector w)\<rparr>\<rparr>)"

inductive client_reachable :: "string \<Rightarrow> client_world \<Rightarrow> bool" for name where
  new: "client_reachable name (client_new name)"
| step: "client_reachable name w \<Longrightarrow> client_enabled ev w \<Longrightarrow> client_exec ev w = Some w' \<Longrightarrow> client_reachable name w'"

subsection \<open>Histories of the connector\<close>

text \<open>Every socket is closed once, given away once, or the one that is connecting; the delays double up to a limit.\<close>

definition backoff :: "nat \<Rightarrow> int" where
  "backoff k = min (500 * 2 ^ k) 30000"

definition ledger :: "Connector \<Rightarrow> bool" where
  "ledger c \<longleftrightarrow> mset (cn_created c) = mset (cn_closed c) + mset (cn_given c)
     + (if cn_enabled c then (case cn_channel c of Some fd \<Rightarrow> {#fd#} | None \<Rightarrow> {#}) else {#})"

definition delays_ok :: "Connector \<Rightarrow> bool" where
  "delays_ok c \<longleftrightarrow> cn_delays c = map backoff [0 ..< length (cn_delays c)] \<and> retryDelayMs c = backoff (length (cn_delays c))"

lemma backoff_Suc: "min (backoff k * 2) kMaxRetryDelayMs = backoff (Suc k)"
  by (simp add: backoff_def kMaxRetryDelayMs_def)

lemma delays_ok_retry [simp]: "delays_ok c \<Longrightarrow> delays_ok (Connector_retry fd c)"
  using backoff_Suc by (auto simp: delays_ok_def Connector_retry_def cn_close_def Let_def)

subsection \<open>The invariant\<close>

abbreviation batch_list :: "client_functor list option \<Rightarrow> client_functor list" where
  "batch_list batch \<equiv> (case batch of Some fs \<Rightarrow> fs | None \<Rightarrow> [])"

text \<open>
  How many things are under way that will start, or have started, an attempt: never more than one.  And the old
  channel is gone whenever something may start one: a timer of an earlier iteration, or the functors of this
  batch after the one that resets the channel.
\<close>

definition attempts :: "client_functor list \<Rightarrow> Connector \<Rightarrow> nat" where
  "attempts pend c = length (cn_timers c) + count_list pend StartInLoop + (if cn_state c \<noteq> kDisconnected then 1 else 0)"

definition dead_channel :: "Connector \<Rightarrow> bool" where
  "dead_channel c \<longleftrightarrow> cn_channel c \<noteq> None \<and> \<not> cn_enabled c"

definition reset_first :: "client_functor list option \<Rightarrow> Connector \<Rightarrow> bool" where
  "reset_first batch c \<longleftrightarrow> cn_channel c = None \<or> (case batch of Some fs \<Rightarrow> ResetChannel \<in> set fs | None \<Rightarrow> False)"

definition connector_inv :: "bool \<Rightarrow> client_functor list option \<Rightarrow> Connector \<Rightarrow> bool" where
  "connector_inv started batch c \<longleftrightarrow>
     (cn_enabled c \<longleftrightarrow> cn_state c = kConnecting) \<and> (cn_enabled c \<longrightarrow> cn_channel c \<noteq> None)
     \<and> count_list (batch_list batch @ cn_functors c) ResetChannel = (if dead_channel c then 1 else 0)
     \<and> attempts (batch_list batch @ cn_functors c) c \<le> (if started then 1 else 0)
     \<and> (StartInLoop \<notin> set (batch_list batch @ cn_functors c) \<or> cn_channel c = None)
     \<and> ((if batch = None then \<forall>t \<in> set (cn_timers c). \<not> snd t else cn_timers c = []) \<or> reset_first batch c)
     \<and> (started \<or> cn_channel c = None)"

fun ordered :: "nat \<Rightarrow> client_functor list \<Rightarrow> bool" where
  "ordered i [] \<longleftrightarrow> True"
| "ordered i (f # fs) \<longleftrightarrow> (if f = ForceClose i then ResetChannel \<notin> set fs else ordered i fs)"

definition connection_inv :: "client_world \<Rightarrow> bool" where
  "connection_inv w \<longleftrightarrow> (case connection (cw_client w) of
      None \<Rightarrow> True
    | Some (i, _) \<Rightarrow> cn_state (cw_connector w) = kConnected \<and> i < tc_nextConnId (cw_client w)
        \<and> ordered i (batch_list (cw_batch w) @ cn_functors (cw_connector w))
        \<and> (cw_batch w = None \<and> cw_fresh w \<or> reset_first (cw_batch w) (cw_connector w)))"

definition client_inv :: "client_world \<Rightarrow> bool" where
  "client_inv w \<longleftrightarrow> connector_inv (cw_started w) (cw_batch w) (cw_connector w) \<and> connection_inv w
     \<and> ledger (cw_connector w) \<and> delays_ok (cw_connector w)
     \<and> (StopInLoop \<notin> set (batch_list (cw_batch w) @ cn_functors (cw_connector w))
          \<or> \<not> cn_connect (cw_connector w) \<and> \<not> tc_connect (cw_client w))
     \<and> (\<forall>i. ForceClose i \<in> set (batch_list (cw_batch w) @ cn_functors (cw_connector w)) \<longrightarrow> i < tc_nextConnId (cw_client w))
     \<and> (StopInLoop \<notin> set (batch_list (cw_batch w) @ cn_functors (cw_connector w)) \<or> cw_started w)"

lemma ordered_snoc [simp]: "ordered i fs \<Longrightarrow> g \<noteq> ResetChannel \<Longrightarrow> ordered i (fs @ [g])"
  by (induction fs) auto

lemma ordered_absent: "ForceClose i \<notin> set fs \<Longrightarrow> ordered i fs"
  by (induction fs) auto

lemma count_list_snoc [simp]: "count_list (fs @ [g]) f = count_list fs f + (if g = f then 1 else 0)"
  by (induction fs) auto

lemma count_list_eq_0: "count_list fs f = 0 \<longleftrightarrow> f \<notin> set fs"
  by (simp add: count_list_0_iff)

lemma Connector_retry_simps [simp]:
  "cn_state (Connector_retry fd c) = kDisconnected" "cn_channel (Connector_retry fd c) = cn_channel c"
  "cn_enabled (Connector_retry fd c) = cn_enabled c" "cn_functors (Connector_retry fd c) = cn_functors c"
  "cn_connect (Connector_retry fd c) = cn_connect c" "cn_created (Connector_retry fd c) = cn_created c"
  "cn_closed (Connector_retry fd c) = cn_closed c @ [fd]" "cn_given (Connector_retry fd c) = cn_given c"
  "cn_timers (Connector_retry fd c) = cn_timers c @ (if cn_connect c then [(retryDelayMs c, False)] else [])"
  by (simp_all add: Connector_retry_def cn_close_def Let_def)

lemmas connector_inv_defs = connector_inv_def attempts_def dead_channel_def reset_first_def

text \<open>The four outcomes of starting an attempt.\<close>

lemma startInLoop_cases:
  assumes "cn_state c = kDisconnected" "cn_channel c = None"
  obtains "startInLoop fd errno c = Some c"
  | "startInLoop fd errno c = Some (c\<lparr>cn_created := cn_created c @ [fd], cn_state := kConnecting,
       cn_channel := Some fd, cn_enabled := True\<rparr>)"
  | "startInLoop fd errno c = Some (Connector_retry fd (c\<lparr>cn_created := cn_created c @ [fd]\<rparr>))"
  | "startInLoop fd errno c = Some (cn_close fd (c\<lparr>cn_created := cn_created c @ [fd]\<rparr>))"
  using assms
  by (cases "cn_connect c"; cases "errno \<in> set connect_pending"; cases "errno \<in> set connect_retry")
    (auto simp: startInLoop_def Connector_connect_def connecting_def Let_def)

lemma startInLoop_ok:
  assumes "connector_inv True batch c" "attempts (batch_list batch @ cn_functors c) c = 0" "cn_channel c = None"
    and "ledger c" "delays_ok c"
  shows "\<exists>c'. startInLoop fd errno c = Some c' \<and> connector_inv True batch c' \<and> ledger c' \<and> delays_ok c'
    \<and> cn_functors c' = cn_functors c \<and> cn_connect c' = cn_connect c"
proof -
  have st: "cn_state c = kDisconnected" "\<not> cn_enabled c" "cn_timers c = []" "count_list (batch_list batch @ cn_functors c) StartInLoop = 0"
    using assms(1,2) by (auto simp: connector_inv_def attempts_def split: if_splits)
  show ?thesis
    using assms st delays_ok_retry [of "c\<lparr>cn_created := cn_created c @ [fd]\<rparr>" fd]
    by (cases rule: startInLoop_cases [OF st(1) assms(3), of fd errno])
      (auto simp: connector_inv_defs ledger_def delays_ok_def cn_close_def count_list_eq_0 simp del: count_list_append)
qed

text \<open>Giving up an attempt.\<close>

lemma giveup_ok:
  assumes "connector_inv True batch c" "cn_state c = kConnecting" "batch = None \<or> \<not> cn_connect c" "ledger c" "delays_ok c"
  shows "\<exists>fd c'. removeAndResetChannel c = Some (fd, c') \<and> connector_inv True batch (Connector_retry fd c')
    \<and> ledger (Connector_retry fd c') \<and> delays_ok (Connector_retry fd c')
    \<and> cn_functors (Connector_retry fd c') = cn_functors c @ [ResetChannel] \<and> cn_connect (Connector_retry fd c') = cn_connect c"
proof -
  obtain fd where fd: "cn_channel c = Some fd" "cn_enabled c" using assms(1,2) by (auto simp: connector_inv_def)
  let ?c = "cn_queueInLoop ResetChannel (c\<lparr>cn_enabled := False\<rparr>)"
  have t: "cn_timers c = []" "count_list (batch_list batch @ cn_functors c) StartInLoop = 0"
    using assms(1,2) by (auto simp: connector_inv_def attempts_def split: if_splits)
  have "removeAndResetChannel c = Some (fd, ?c)" using fd by (simp add: removeAndResetChannel_def)
  moreover have "delays_ok (Connector_retry fd ?c)"
    using assms(5) by (intro delays_ok_retry) (simp add: delays_ok_def cn_queueInLoop_def)
  moreover have "ledger (Connector_retry fd ?c)" using assms(4) fd by (simp add: ledger_def cn_queueInLoop_def)
  moreover have "connector_inv True batch (Connector_retry fd ?c)"
    using assms(1-3) fd t by (auto simp: connector_inv_defs cn_queueInLoop_def count_list_eq_0 split: option.splits)
  ultimately show ?thesis by (simp add: cn_queueInLoop_def)
qed

lemma histories_simps [simp]:
  "ledger (cn_queueInLoop f c) = ledger c" "delays_ok (cn_queueInLoop f c) = delays_ok c"
  "ledger (c\<lparr>cn_connect := x\<rparr>) = ledger c" "delays_ok (c\<lparr>cn_connect := x\<rparr>) = delays_ok c"
  "ledger (c\<lparr>cn_functors := fs\<rparr>) = ledger c" "delays_ok (c\<lparr>cn_functors := fs\<rparr>) = delays_ok c"
  "ledger (drop_timer i c) = ledger c" "delays_ok (drop_timer i c) = delays_ok c"
  "ledger (age_timers c) = ledger c" "delays_ok (age_timers c) = delays_ok c"
  by (simp_all add: ledger_def delays_ok_def cn_queueInLoop_def drop_timer_def age_timers_def)

lemma connector_inv_queue:
  "connector_inv started batch c \<Longrightarrow> f \<noteq> StartInLoop \<Longrightarrow> f \<noteq> ResetChannel \<Longrightarrow> connector_inv started batch (cn_queueInLoop f c)"
  by (auto simp: connector_inv_defs cn_queueInLoop_def split: option.splits)

lemma connector_inv_connect [simp]:
  "connector_inv started batch (c\<lparr>cn_connect := x\<rparr>) = connector_inv started batch c"
  by (simp add: connector_inv_defs)

lemmas client_inv_defs = client_inv_def connection_inv_def reset_first_def

lemma queue_fields [simp]:
  "cn_state (cn_queueInLoop f c) = cn_state c" "cn_channel (cn_queueInLoop f c) = cn_channel c"
  "cn_connect (cn_queueInLoop f c) = cn_connect c" "cn_functors (cn_queueInLoop f c) = cn_functors c @ [f]"
  "cn_timers (cn_queueInLoop f c) = cn_timers c" "cn_enabled (cn_queueInLoop f c) = cn_enabled c"
  "cn_created (cn_queueInLoop f c) = cn_created c" "cn_closed (cn_queueInLoop f c) = cn_closed c"
  "cn_given (cn_queueInLoop f c) = cn_given c" "cn_delays (cn_queueInLoop f c) = cn_delays c"
  "retryDelayMs (cn_queueInLoop f c) = retryDelayMs c"
  by (simp_all add: cn_queueInLoop_def)

lemma queue_ok:
  assumes "client_inv w" "f \<noteq> StartInLoop" "f \<noteq> ResetChannel"
    and "f \<noteq> StopInLoop \<or> \<not> cn_connect (cw_connector w) \<and> \<not> tc_connect (cw_client w) \<and> cw_started w"
    and "\<And>i. f = ForceClose i \<Longrightarrow> i < tc_nextConnId (cw_client w)"
  shows "client_inv (w\<lparr>cw_client := tc_queueInLoop f (cw_client w)\<rparr>)"
proof -
  have "connector_inv (cw_started w) (cw_batch w) (cn_queueInLoop f (cw_connector w))"
    using assms(1-3) by (simp add: client_inv_def connector_inv_queue)
  moreover have "connection_inv (w\<lparr>cw_client := tc_queueInLoop f (cw_client w)\<rparr>)"
    using assms(1,3) ordered_snoc [of _ "batch_list (cw_batch w) @ cn_functors (cw_connector w)" f]
    by (auto simp: client_inv_def connection_inv_def reset_first_def tc_queueInLoop_def split: option.splits)
  ultimately show ?thesis using assms(1,4,5) by (auto simp: client_inv_def tc_queueInLoop_def)
qed

lemma flags_ok:
  assumes "client_inv w"
  shows "client_inv (w\<lparr>cw_client := (cw_client w)\<lparr>tc_connect := False\<rparr>\<rparr>)"
    and "client_inv (w\<lparr>cw_client := (cw_client w)\<lparr>tc_retry := True\<rparr>\<rparr>)"
    and "client_inv (w\<lparr>cw_client := (cw_client w)\<lparr>tc_connect := False, connector := (cw_connector w)\<lparr>cn_connect := False\<rparr>\<rparr>\<rparr>)"
  using assms by (cases "connection (cw_client w)"; auto simp: client_inv_defs)+

text \<open>Calls of the user.\<close>

lemma calls_ok:
  assumes "client_inv w" "client_enabled ev w" "ev \<in> {EDisconnect, EStop, EEnableRetry, EForceClose}"
  shows "\<exists>w'. client_exec ev w = Some w' \<and> client_inv w'"
proof -
  consider "ev = EDisconnect" | "ev = EStop" | "ev = EEnableRetry" | n m where "ev = EForceClose" "connection (cw_client w) = Some (n, m)"
    using assms(2,3) by auto
  then show ?thesis
  proof cases
    case 2
    then show ?thesis using queue_ok [OF flags_ok(3) [OF assms(1)], of StopInLoop] assms(2)
      by (simp add: set_client_def TcpClient_stop_def Connector_stop_def tc_queueInLoop_def)
  next
    case 4
    then have "n < tc_nextConnId (cw_client w)" using assms(1) by (simp add: client_inv_def connection_inv_def)
    then show ?thesis using 4 queue_ok [OF assms(1), of "ForceClose n"] by (simp add: set_client_def)
  qed (use flags_ok [OF assms(1)] in \<open>simp_all add: set_client_def TcpClient_disconnect_def enableRetry_def\<close>)
qed

lemma connect_ok:
  assumes "client_inv w" "client_enabled (EConnect l fd errno) w"
  shows "\<exists>w'. client_exec (EConnect l fd errno) w = Some w' \<and> client_inv w'"
proof -
  let ?c = "(cw_connector w)\<lparr>cn_connect := True\<rparr>"
  have inv: "connector_inv False (cw_batch w) (cw_connector w)" "ledger (cw_connector w)" "delays_ok (cw_connector w)"
    using assms by (simp_all add: client_inv_def)
  have c: "connector_inv True (cw_batch w) ?c" "attempts (batch_list (cw_batch w) @ cn_functors ?c) ?c = 0" "cn_channel ?c = None"
    using inv(1) by (auto simp: connector_inv_defs split: if_splits)
  have none: "connection (cw_client w) = None"
    using assms inv(1) by (auto simp: client_inv_defs connector_inv_def attempts_def split: option.splits)
  have stop: "StopInLoop \<notin> set (batch_list (cw_batch w) @ cn_functors (cw_connector w))" using assms by (auto simp: client_inv_def)
  show ?thesis
  proof (cases l)
    case True
    obtain c' where "startInLoop fd errno ?c = Some c'" "connector_inv True (cw_batch w) c'" "ledger c'" "delays_ok c'"
      "cn_functors c' = cn_functors ?c" using startInLoop_ok [OF c] inv by auto
    then show ?thesis using True none stop assms(1)
      by (simp add: set_client_def TcpClient_connect_def with_connector_def Connector_start_def client_inv_defs)
  next
    case False
    have "connector_inv True (cw_batch w) (cn_queueInLoop StartInLoop ?c)"
      using c by (auto simp: connector_inv_defs cn_queueInLoop_def split: option.splits)
    then show ?thesis using False none stop assms(1) inv
      by (simp add: set_client_def TcpClient_connect_def with_connector_def Connector_start_def client_inv_defs)
  qed
qed

text \<open>Events on the channel of the connector.\<close>

lemma connecting_facts:
  assumes "client_inv w" "cn_enabled (cw_connector w)"
  shows "cn_state (cw_connector w) = kConnecting" "connection (cw_client w) = None" "cw_started w"
  using assms by (auto simp: client_inv_defs connector_inv_def attempts_def split: option.splits if_splits)

lemma giveup_client_ok:
  assumes "client_inv w" "cn_enabled (cw_connector w)" "cw_batch w = None \<or> \<not> cn_connect (cw_connector w)"
  shows "\<exists>fd c'. removeAndResetChannel (cw_connector w) = Some (fd, c')
    \<and> client_inv (w\<lparr>cw_client := (cw_client w)\<lparr>connector := Connector_retry fd c'\<rparr>\<rparr>)"
proof -
  note f = connecting_facts [OF assms(1,2)]
  have "connector_inv True (cw_batch w) (cw_connector w)" "ledger (cw_connector w)" "delays_ok (cw_connector w)"
    using assms(1) f(3) by (simp_all add: client_inv_def)
  then obtain fd c' where "removeAndResetChannel (cw_connector w) = Some (fd, c')"
    "connector_inv True (cw_batch w) (Connector_retry fd c')" "ledger (Connector_retry fd c')" "delays_ok (Connector_retry fd c')"
    "cn_functors (Connector_retry fd c') = cn_functors (cw_connector w) @ [ResetChannel]"
    "cn_connect (Connector_retry fd c') = cn_connect (cw_connector w)"
    using giveup_ok [OF _ f(1) assms(3)] by metis
  then show ?thesis using assms(1) f by (auto simp: client_inv_def connection_inv_def)
qed

lemma connected_ok:
  assumes "client_inv w" "cn_enabled (cw_connector w)" "cw_batch w = None" "removeAndResetChannel (cw_connector w) = Some (fd, c)"
  shows "client_inv (w\<lparr>cw_fresh := True, cw_client := TcpClient_newConnection peer
      ((cw_client w)\<lparr>connector := c\<lparr>cn_state := kConnected, cn_given := cn_given c @ [fd]\<rparr>\<rparr>)\<rparr>)"
    and "client_inv (w\<lparr>cw_fresh := True, cw_client := (cw_client w)\<lparr>connector := cn_close fd (c\<lparr>cn_state := kConnected\<rparr>)\<rparr>\<rparr>)"
proof -
  note f = connecting_facts [OF assms(1,2)]
  have c: "c = cn_queueInLoop ResetChannel ((cw_connector w)\<lparr>cn_enabled := False\<rparr>)" "cn_channel (cw_connector w) = Some fd"
    using assms(2,4) by (auto simp: removeAndResetChannel_def bind_eq_Some_conv)
  have inv: "connector_inv True None (c\<lparr>cn_state := kConnected, cn_given := g\<rparr>)"
    "connector_inv True None (c\<lparr>cn_state := kConnected, cn_closed := g\<rparr>)" for g
    using assms(1,2,3) f c by (auto simp: client_inv_def connector_inv_defs split: if_splits)
  have fc: "ForceClose (tc_nextConnId (cw_client w)) \<notin> set (cn_functors (cw_connector w))"
    using assms(1) by (auto simp: client_inv_def)
  show "client_inv (w\<lparr>cw_fresh := True, cw_client := TcpClient_newConnection peer
      ((cw_client w)\<lparr>connector := c\<lparr>cn_state := kConnected, cn_given := cn_given c @ [fd]\<rparr>\<rparr>)\<rparr>)"
    using assms(1-3) f c inv(1) fc
    by (auto simp: client_inv_def connection_inv_def TcpClient_newConnection_def ledger_def delays_ok_def ordered_absent less_Suc_eq)
  show "client_inv (w\<lparr>cw_fresh := True, cw_client := (cw_client w)\<lparr>connector := cn_close fd (c\<lparr>cn_state := kConnected\<rparr>)\<rparr>\<rparr>)"
    using assms(1-3) f c inv(2) by (auto simp: client_inv_def connection_inv_def cn_close_def ledger_def delays_ok_def)
qed

lemma channel_ok:
  assumes "client_inv w" "client_enabled ev w" "ev = EError \<or> ev = EWritable err self peer"
  shows "\<exists>w'. client_exec ev w = Some w' \<and> client_inv w'"
proof -
  have en: "cn_enabled (cw_connector w)" "cw_batch w = None" using assms(2,3) by auto
  note st = connecting_facts(1) [OF assms(1) en(1)]
  obtain fd c where g: "removeAndResetChannel (cw_connector w) = Some (fd, c)"
    "client_inv (w\<lparr>cw_client := (cw_client w)\<lparr>connector := Connector_retry fd c\<rparr>\<rparr>)"
    using giveup_client_ok [OF assms(1) en(1)] en(2) by blast
  have fresh: "client_inv (w\<lparr>cw_fresh := True, cw_client := (cw_client w)\<lparr>connector := Connector_retry fd c\<rparr>\<rparr>)"
    using g(2) connecting_facts(2) [OF assms(1) en(1)] by (simp add: client_inv_def connection_inv_def)
  show ?thesis using assms(3) st g fresh connected_ok(1) [OF assms(1) en g(1), of peer] connected_ok(2) [OF assms(1) en g(1)]
    by (auto simp: set_client_def with_connector_def Connector_handleError_def TcpClient_handleWrite_def
        Connector_handleWrite_def Let_def)
qed

text \<open>Starting an attempt from a timer, from the functor, or after the connection was lost.\<close>

lemma start_client_ok:
  assumes "client_inv w" "connection (cw_client w) = None" "cw_started w"
    and "connector_inv True (cw_batch w) c" "attempts (batch_list (cw_batch w) @ cn_functors c) c = 0" "cn_channel c = None"
    and "ledger c" "delays_ok c" "cn_functors c = cn_functors (cw_connector w)"
    and "cn_connect c = cn_connect (cw_connector w) \<or> tc_connect (cw_client w)"
  shows "\<exists>w'. set_client w (with_connector (\<lambda>_. startInLoop fd errno c) (cw_client w)) = Some w' \<and> client_inv w'"
proof -
  obtain c' where c': "startInLoop fd errno c = Some c'" "connector_inv True (cw_batch w) c'" "ledger c'" "delays_ok c'"
    "cn_functors c' = cn_functors c" "cn_connect c' = cn_connect c"
    using startInLoop_ok [OF assms(4-8)] by blast
  then have "client_inv (w\<lparr>cw_client := (cw_client w)\<lparr>connector := c'\<rparr>\<rparr>)"
    using assms by (auto simp: client_inv_def connection_inv_def)
  then show ?thesis using c'(1) by (simp add: set_client_def with_connector_def)
qed

lemma timer_ok:
  assumes "client_inv w" "client_enabled (ETimer i fd errno) w"
  shows "\<exists>w'. client_exec (ETimer i fd errno) w = Some w' \<and> client_inv w'"
proof -
  let ?c = "drop_timer i (cw_connector w)"
  have t: "i < length (cn_timers (cw_connector w))" "snd (cn_timers (cw_connector w) ! i)" "cw_batch w = None"
    using assms(2) by auto
  then have old: "\<not> (\<forall>t \<in> set (cn_timers (cw_connector w)). \<not> snd t)" using nth_mem by blast
  have inv: "connector_inv (cw_started w) None (cw_connector w)" using assms(1) t(3) by (simp add: client_inv_def)
  then have "cw_started w \<and> length (cn_timers (cw_connector w)) = 1 \<and> cn_state (cw_connector w) = kDisconnected
      \<and> count_list (cn_functors (cw_connector w)) StartInLoop = 0"
    using t(1) by (auto simp: connector_inv_def attempts_def split: if_splits)
  then have c: "cw_started w" "length (cn_timers (cw_connector w)) = 1" "cn_channel (cw_connector w) = None"
    "StartInLoop \<notin> set (cn_functors (cw_connector w))" "cn_state (cw_connector w) = kDisconnected"
    using inv old by (auto simp: connector_inv_def reset_first_def count_list_eq_0)
  then have "cn_timers ?c = []" using t(1) by (simp add: drop_timer_def)
  then have "connector_inv True None ?c" "attempts (cn_functors ?c) ?c = 0"
    using inv c by (auto simp: connector_inv_defs drop_timer_def count_list_eq_0)
  moreover have "connection (cw_client w) = None" using assms(1) c(5) by (auto simp: client_inv_def connection_inv_def split: option.splits)
  ultimately show ?thesis
    using start_client_ok [OF assms(1), of ?c fd errno] assms(1) c t(3)
    by (simp add: client_inv_def with_connector_def) (simp add: drop_timer_def)
qed

lemma removeConnection_ok:
  assumes "client_inv w" "connection (cw_client w) = Some (n, m)" "cn_channel (cw_connector w) = None"
  shows "\<exists>w'. set_client w (TcpClient_removeConnection n fd errno (cw_client w)) = Some w' \<and> client_inv w'"
proof -
  let ?t = "tc_queueInLoop (ConnectDestroyed n) ((cw_client w)\<lparr>connection := None\<rparr>)"
  let ?w = "w\<lparr>cw_client := ?t\<rparr>"
  let ?c = "(connector ?t)\<lparr>cn_state := kDisconnected, retryDelayMs := kInitRetryDelayMs, cn_connect := True, cn_delays := []\<rparr>"
  have "client_inv (w\<lparr>cw_client := (cw_client w)\<lparr>connection := None\<rparr>\<rparr>)"
    using assms(1) by (simp add: client_inv_def connection_inv_def)
  then have w: "client_inv ?w" using queue_ok [of "w\<lparr>cw_client := (cw_client w)\<lparr>connection := None\<rparr>\<rparr>" "ConnectDestroyed n"] by simp
  have st: "cn_state (cw_connector w) = kConnected" using assms(1,2) by (simp add: client_inv_def connection_inv_def)
  have inv: "connector_inv (cw_started w) (cw_batch w) (connector ?t)" "ledger (connector ?t)" using w by (simp_all add: client_inv_def)
  then have "connector_inv True (cw_batch w) ?c" "attempts (batch_list (cw_batch w) @ cn_functors ?c) ?c = 0" "cw_started w"
    using st assms(3) by (auto simp: connector_inv_defs tc_queueInLoop_def count_list_eq_0 split: if_splits)
  moreover have "ledger ?c" "delays_ok ?c"
    using inv(2) by (simp_all add: ledger_def delays_ok_def backoff_def kInitRetryDelayMs_def)
  ultimately have restart: "tc_connect ?t \<Longrightarrow>
      \<exists>w'. set_client ?w (with_connector (\<lambda>_. startInLoop fd errno ?c) ?t) = Some w' \<and> client_inv w'"
    using start_client_ok [OF w, of ?c fd errno] assms(3) by (simp add: tc_queueInLoop_def)
  show ?thesis
    using assms(2) w restart
    by (auto simp: TcpClient_removeConnection_def Let_def set_client_def with_connector_def Connector_restart_def)
qed

text \<open>The phases of the loop.\<close>

lemma ordered_no_reset: "ResetChannel \<notin> set fs \<Longrightarrow> ordered i fs"
  by (induction fs) auto

lemma pop_ok:
  assumes "client_inv w" "cw_batch w = Some (f # fs)" "f \<noteq> ResetChannel"
  shows "client_inv (w\<lparr>cw_batch := Some fs\<rparr>)"
proof -
  have "connector_inv (cw_started w) (Some fs) (cw_connector w)"
    using assms by (auto simp: client_inv_def connector_inv_defs split: if_splits)
  moreover have "connection_inv (w\<lparr>cw_batch := Some fs\<rparr>)"
    using assms by (auto simp: client_inv_defs ordered_no_reset split: option.splits if_splits)
  ultimately show ?thesis using assms(1,2) by (auto simp: client_inv_def)
qed

lemma reset_ok:
  assumes "client_inv w" "cw_batch w = Some (ResetChannel # fs)"
  shows "\<exists>w'. client_exec (EFunctor fd errno) w = Some w' \<and> client_inv w'"
proof -
  let ?c = "(cw_connector w)\<lparr>cn_channel := None\<rparr>"
  have c: "dead_channel (cw_connector w)" "count_list (fs @ cn_functors (cw_connector w)) ResetChannel = 0"
    using assms by (auto simp: client_inv_def connector_inv_def split: if_splits)
  then have "connector_inv (cw_started w) (Some fs) ?c"
    using assms by (auto simp: client_inv_def connector_inv_defs split: if_splits)
  moreover have "connection_inv (w\<lparr>cw_batch := Some fs, cw_client := (cw_client w)\<lparr>connector := ?c\<rparr>\<rparr>)"
    using assms by (auto simp: client_inv_defs split: option.splits)
  moreover have "ledger ?c" "delays_ok ?c" using assms(1) c(1) by (auto simp: client_inv_def ledger_def delays_ok_def dead_channel_def)
  ultimately have "client_inv (w\<lparr>cw_batch := Some fs, cw_client := (cw_client w)\<lparr>connector := ?c\<rparr>\<rparr>)"
    using assms by (auto simp: client_inv_def)
  then show ?thesis using assms(2) c(1) by (simp add: set_client_def with_connector_def resetChannel_def dead_channel_def)
qed

lemma stopInLoop_eq:
  "removeAndResetChannel c = Some (fd, c') \<Longrightarrow> cn_state c = kConnecting \<Longrightarrow> stopInLoop c = Some (Connector_retry fd c')"
  by (auto simp: stopInLoop_def removeAndResetChannel_def bind_eq_Some_conv Connector_retry_def cn_close_def cn_queueInLoop_def Let_def)

lemma stop_ok:
  assumes "client_inv w" "cw_batch w = Some (StopInLoop # fs)"
  shows "\<exists>w'. client_exec (EFunctor fd errno) w = Some w' \<and> client_inv w'"
proof (cases "cn_state (cw_connector w) = kConnecting")
  case True
  let ?w = "w\<lparr>cw_batch := Some fs\<rparr>"
  have w: "client_inv ?w" using pop_ok [OF assms] by simp
  have "cn_enabled (cw_connector w)" "\<not> cn_connect (cw_connector w)"
    using assms True by (auto simp: client_inv_def connector_inv_def)
  then obtain sockfd c' where "removeAndResetChannel (cw_connector w) = Some (sockfd, c')"
    "client_inv (?w\<lparr>cw_client := (cw_client w)\<lparr>connector := Connector_retry sockfd c'\<rparr>\<rparr>)"
    using giveup_client_ok [OF w] by auto
  then show ?thesis using assms(2) stopInLoop_eq True by (simp add: set_client_def with_connector_def)
next
  case False
  then show ?thesis using assms pop_ok [OF assms] by (simp add: set_client_def with_connector_def stopInLoop_def)
qed

lemma no_connection:
  assumes "client_inv w" "cn_state (cw_connector w) = kDisconnected"
  shows "connection (cw_client w) = None"
proof (cases "connection (cw_client w)")
  case (Some p)
  then show ?thesis using assms by (cases p) (simp add: client_inv_def connection_inv_def)
qed

lemma pending_start:
  assumes "connector_inv started (Some (StartInLoop # fs)) c"
  shows "started" "cn_state c = kDisconnected" "cn_channel c = None" "attempts (fs @ cn_functors c) c = 0"
  using assms by (auto simp: connector_inv_def attempts_def simp del: count_list_append split: if_splits)

lemma start_functor_ok:
  assumes "client_inv w" "cw_batch w = Some (StartInLoop # fs)"
  shows "\<exists>w'. client_exec (EFunctor fd errno) w = Some w' \<and> client_inv w'"
proof -
  let ?w = "w\<lparr>cw_batch := Some fs\<rparr>"
  have w: "client_inv ?w" using pop_ok [OF assms] by simp
  have inv: "connector_inv (cw_started w) (Some (StartInLoop # fs)) (cw_connector w)" using assms by (simp add: client_inv_def)
  note p = pending_start [OF inv]
  have c: "connector_inv True (Some fs) (cw_connector w)" "ledger (cw_connector w)" "delays_ok (cw_connector w)"
    using w p(1) by (simp_all add: client_inv_def)
  have "\<exists>w'. set_client ?w (with_connector (\<lambda>_. startInLoop fd errno (cw_connector ?w)) (cw_client ?w)) = Some w' \<and> client_inv w'"
    by (rule start_client_ok [OF w]) (simp_all add: p c no_connection [OF assms(1) p(2)])
  then show ?thesis using assms(2) by (simp add: with_connector_def)
qed

lemma force_close_ok:
  assumes "client_inv w" "cw_batch w = Some (ForceClose n # fs)"
  shows "\<exists>w'. client_exec (EFunctor fd errno) w = Some w' \<and> client_inv w'"
proof (cases "map_option fst (connection (cw_client w)) = Some n")
  case True
  then obtain m where m: "connection (cw_client w) = Some (n, m)" by auto
  then have "cn_channel (cw_connector w) = None"
    using assms by (auto simp: client_inv_def connection_inv_def connector_inv_def dead_channel_def count_list_eq_0 split: if_splits)
  then show ?thesis using removeConnection_ok [of "w\<lparr>cw_batch := Some fs\<rparr>" n m fd errno] pop_ok [OF assms] m assms(2) by simp
next
  case False
  then show ?thesis using assms(2) pop_ok [OF assms] by (simp add: set_client_def)
qed

lemma functor_ok:
  assumes "client_inv w" "client_enabled (EFunctor fd errno) w"
  shows "\<exists>w'. client_exec (EFunctor fd errno) w = Some w' \<and> client_inv w'"
proof -
  obtain f fs where f: "cw_batch w = Some (f # fs)" using assms(2) by auto
  show ?thesis
  proof (cases f)
    case (ConnectDestroyed n)
    then show ?thesis using pop_ok [OF assms(1) f] f by (simp add: set_client_def)
  qed (use f assms(1) reset_ok stop_ok start_functor_ok force_close_ok in blast)+
qed

lemma pending_reset: "connector_inv started None c \<Longrightarrow> dead_channel c \<Longrightarrow> ResetChannel \<in> set (cn_functors c)"
  using count_list_eq_0 [of "cn_functors c" ResetChannel] by (fastforce simp: connector_inv_def)

lemma begin_inv:
  assumes "connector_inv started None c"
  shows "connector_inv started (Some (cn_functors c)) (c\<lparr>cn_functors := []\<rparr>)"
proof (cases "cn_enabled c")
  case True
  then have "cn_timers c = []" using assms by (auto simp: connector_inv_def attempts_def split: if_splits)
  then show ?thesis using assms by (auto simp: connector_inv_defs)
next
  case False
  then have "reset_first (Some (cn_functors c)) c" using pending_reset [OF assms]
    by (cases "cn_channel c") (simp_all add: reset_first_def dead_channel_def)
  then show ?thesis using assms by (auto simp: connector_inv_defs)
qed

lemma begin_ok:
  assumes "client_inv w" "cw_batch w = None"
  shows "\<exists>w'. client_exec EBegin w = Some w' \<and> client_inv w'"
proof -
  have inv: "connector_inv (cw_started w) None (cw_connector w)" using assms by (simp add: client_inv_def)
  have "reset_first (Some (cn_functors (cw_connector w))) (cw_connector w)" if "connection (cw_client w) \<noteq> None"
    using pending_reset [OF inv] connecting_facts(2) [OF assms(1)] that
    by (cases "cn_channel (cw_connector w)") (auto simp: reset_first_def dead_channel_def)
  then have "connection_inv (w\<lparr>cw_batch := Some (cn_functors (cw_connector w)),
      cw_client := (cw_client w)\<lparr>connector := (cw_connector w)\<lparr>cn_functors := []\<rparr>\<rparr>\<rparr>)"
    using assms by (cases "connection (cw_client w)") (auto simp: client_inv_def connection_inv_def reset_first_def)
  then show ?thesis using assms begin_inv [OF inv] by (simp add: client_inv_def)
qed

lemma end_ok:
  assumes "client_inv w" "cw_batch w = Some []"
  shows "\<exists>w'. client_exec EEnd w = Some w' \<and> client_inv w'"
proof -
  let ?c = "age_timers (cw_connector w)"
  have "connector_inv (cw_started w) None ?c"
    using assms by (auto simp: client_inv_def connector_inv_defs age_timers_def split: if_splits)
  moreover have "connection_inv (w\<lparr>cw_batch := None, cw_fresh := False, cw_client := (cw_client w)\<lparr>connector := ?c\<rparr>\<rparr>)"
    using assms by (cases "connection (cw_client w)") (auto simp: client_inv_def connection_inv_def reset_first_def age_timers_def)
  ultimately show ?thesis using assms by (simp add: client_inv_def) (simp add: age_timers_def)
qed

lemma peer_close_ok:
  assumes "client_inv w" "client_enabled (EPeerClose fd errno) w"
  shows "\<exists>w'. client_exec (EPeerClose fd errno) w = Some w' \<and> client_inv w'"
proof -
  obtain n m where c: "connection (cw_client w) = Some (n, m)" "cw_batch w = None" "\<not> cw_fresh w" using assms(2) by auto
  then have "cn_channel (cw_connector w) = None" using assms(1) by (simp add: client_inv_def connection_inv_def reset_first_def)
  then show ?thesis using removeConnection_ok [OF assms(1) c(1)] c(1) by simp
qed

lemma client_step_ok:
  assumes "client_inv w" "client_enabled ev w"
  shows "\<exists>w'. client_exec ev w = Some w' \<and> client_inv w'"
proof (cases ev)
  case (EConnect l fd errno)
  then show ?thesis using connect_ok assms by simp
next
  case (EWritable err self peer)
  then show ?thesis using channel_ok [OF assms] by simp
next
  case (ETimer i fd errno)
  then show ?thesis using timer_ok assms by simp
next
  case (EPeerClose fd errno)
  then show ?thesis using peer_close_ok assms by simp
next
  case (EFunctor fd errno)
  then show ?thesis using functor_ok assms by simp
next
  case EBegin
  then show ?thesis using begin_ok assms by simp
next
  case EEnd
  then show ?thesis using end_ok assms by simp
next
  case EError
  then show ?thesis using channel_ok [OF assms] by simp
qed (rule calls_ok [OF assms]; simp)+

lemma client_inv_new: "client_inv (client_new name)"
  by (simp add: client_inv_def connection_inv_def connector_inv_defs client_new_def TcpClient_new_def Connector_new_def
      ledger_def delays_ok_def backoff_def kInitRetryDelayMs_def)

lemma client_reachable_inv: "client_reachable name w \<Longrightarrow> client_inv w"
proof (induction rule: client_reachable.induct)
  case (step w ev w')
  then show ?case using client_step_ok [of w ev] by auto
qed (rule client_inv_new)

definition client_try :: "client_event \<Rightarrow> client_world \<Rightarrow> client_world option" where
  "client_try ev w = (if client_enabled ev w then client_exec ev w else None)"

lemma client_reachable_run:
  "client_reachable name w \<Longrightarrow> run_ops client_try evs w = Some w' \<Longrightarrow> client_reachable name w'"
  by (induction evs arbitrary: w) (auto simp: client_try_def bind_eq_Some_conv intro: client_reachable.step split: if_splits)

lemmas client_run_simps = client_try_def client_new_def TcpClient_new_def Connector_new_def set_client_def with_connector_def
  TcpClient_connect_def TcpClient_handleWrite_def TcpClient_newConnection_def TcpClient_removeConnection_def tc_queueInLoop_def
  Connector_start_def startInLoop_def Connector_connect_def connecting_def connect_pending_def connect_retry_def
  Connector_retry_def Connector_handleWrite_def removeAndResetChannel_def resetChannel_def cn_queueInLoop_def cn_close_def
  drop_timer_def age_timers_def Connector_restart_def Let_def kInitRetryDelayMs_def kMaxRetryDelayMs_def enableRetry_def

subsection \<open>Properties\<close>


definition client_demo :: "client_event list" where
  "client_demo = [EEnableRetry, EConnect True 7 111, EBegin, EEnd, ETimer 0 8 111, EBegin, EEnd, ETimer 0 9 115,
     EWritable 0 False ''10.0.0.1:80'', EBegin, EFunctor 0 0, EEnd]"

lemma client_demo_run:
  "\<exists>w. run_ops client_try client_demo (client_new ''c'') = Some w
     \<and> connection (cw_client w) = Some (1, ''c:10.0.0.1:80#1'') \<and> cw_batch w = None \<and> \<not> cw_fresh w
     \<and> cn_created (cw_connector w) = [7, 8, 9] \<and> cn_closed (cw_connector w) = [7, 8] \<and> cn_given (cw_connector w) = [9]
     \<and> cn_enabled (cw_connector w) = False \<and> cn_delays (cw_connector w) = [500, 1000]"
proof -
  have "client_conn_name ''c'' ''10.0.0.1:80'' 1 = ''c:10.0.0.1:80#1''" by code_simp
  then show ?thesis by (simp add: client_demo_def client_run_simps)
qed


text \<open>
  C26. Sockets and delays.  At every moment each socket that the connector created has been closed exactly once,
  or given to the client exactly once, or is the one whose connection is pending: none leaks and none is closed
  twice.  And the delays waited since the last (re)start are 500 ms, doubled each time up to 30 seconds.
\<close>

theorem Connector_sockets_backoff:
  assumes "client_reachable name w"
  shows "mset (cn_created (cw_connector w)) = mset (cn_closed (cw_connector w)) + mset (cn_given (cw_connector w))
      + (if cn_enabled (cw_connector w) then {#the (cn_channel (cw_connector w))#} else {#})
    \<and> cn_delays (cw_connector w) = map (\<lambda>k. min (500 * 2 ^ k) 30000) [0 ..< length (cn_delays (cw_connector w))]"
proof -
  have inv: "client_inv w" using assms by (rule client_reachable_inv)
  have "backoff = (\<lambda>k. min (500 * 2 ^ k) 30000)" by (rule ext) (simp add: backoff_def)
  moreover have "cn_enabled (cw_connector w) \<Longrightarrow> \<exists>fd. cn_channel (cw_connector w) = Some fd"
    using inv by (simp add: client_inv_def connector_inv_def)
  ultimately show ?thesis using inv by (auto simp: client_inv_def ledger_def delays_ok_def)
qed

theorem Connector_sockets_backoff_witness:
  "\<exists>w. run_ops client_try client_demo (client_new ''c'') = Some w \<and> cn_created (cw_connector w) = [7, 8, 9]
     \<and> mset [7, 8, 9] = mset (cn_closed (cw_connector w)) + mset (cn_given (cw_connector w))"
proof -
  obtain w where w: "run_ops client_try client_demo (client_new ''c'') = Some w" "cn_created (cw_connector w) = [7, 8, 9]"
    "\<not> cn_enabled (cw_connector w)" using client_demo_run by auto
  show ?thesis
    using Connector_sockets_backoff [OF client_reachable_run [OF client_reachable.new w(1)]] w by auto
qed



end
