(* ===== verification/Base_ThreadPool.thy ===== *)
theory Base_ThreadPool
  imports Muduo_Prelude
begin

section \<open>Blocking queues and the thread pool\<close>

text \<open>
  \<^verbatim>\<open>muduo/base/BlockingQueue.h\<close>, \<^verbatim>\<open>BoundedBlockingQueue.h\<close>, \<^verbatim>\<open>CountDownLatch.cc\<close> and \<^verbatim>\<open>ThreadPool.cc\<close>: queues that
  are protected by a mutex, with condition variables for the threads that have to wait.

  A step is what a thread does between taking the mutex and releasing it, which \<^verbatim>\<open>Condition::wait\<close> also does.  A
  thread that waits is asleep until it is notified, or for no reason at all, and then awake until it gets the
  mutex and tests its condition again.  Takers that wait are counted; a thread that waits to put an element is
  represented by the element.  The last two fields of the monitor are histories.
\<close>

subsection \<open>Queues with waiting threads\<close>

record 'a monitor =
  mq_queue :: "'a list"
  takersAsleep :: nat
  takersAwake :: nat
  puttersAsleep :: "'a list"
  puttersAwake :: "'a list"
  mq_put :: "'a list"
  mq_taken :: "'a list"

definition monitor_new :: "'a monitor" where
  "monitor_new = \<lparr>mq_queue = [], takersAsleep = 0, takersAwake = 0, puttersAsleep = [], puttersAwake = [],
     mq_put = [], mq_taken = []\<rparr>"

text \<open>\<^verbatim>\<open>notify\<close> wakes one sleeping thread, if there is one, and \<^verbatim>\<open>notifyAll\<close> all of them.  Which one is up to the system.\<close>

definition notEmpty_notify :: "('a, 'b) monitor_scheme \<Rightarrow> ('a, 'b) monitor_scheme" where
  "notEmpty_notify m = (if takersAsleep m = 0 then m
     else m\<lparr>takersAsleep := takersAsleep m - 1, takersAwake := takersAwake m + 1\<rparr>)"

definition notEmpty_notifyAll :: "('a, 'b) monitor_scheme \<Rightarrow> ('a, 'b) monitor_scheme" where
  "notEmpty_notifyAll m = m\<lparr>takersAsleep := 0, takersAwake := takersAwake m + takersAsleep m\<rparr>"

definition remove_nth :: "nat \<Rightarrow> 'a list \<Rightarrow> 'a list" where
  "remove_nth i xs = take i xs @ drop (Suc i) xs"

definition notFull_notify :: "nat \<Rightarrow> ('a, 'b) monitor_scheme \<Rightarrow> ('a, 'b) monitor_scheme" where
  "notFull_notify i m = (if puttersAsleep m = [] then m
     else (let i = i mod length (puttersAsleep m)
           in m\<lparr>puttersAwake := puttersAwake m @ [puttersAsleep m ! i], puttersAsleep := remove_nth i (puttersAsleep m)\<rparr>))"

definition push_back :: "'a \<Rightarrow> ('a, 'b) monitor_scheme \<Rightarrow> ('a, 'b) monitor_scheme" where
  "push_back x m = m\<lparr>mq_queue := mq_queue m @ [x], mq_put := mq_put m @ [x]\<rparr>"

definition pop_front :: "('a, 'b) monitor_scheme \<Rightarrow> ('a \<times> ('a, 'b) monitor_scheme) option" where
  "pop_front m = (case mq_queue m of
      [] \<Rightarrow> None
    | x # xs \<Rightarrow> Some (x, m\<lparr>mq_queue := xs, mq_taken := mq_taken m @ [x]\<rparr>))"

text \<open>The unbounded queue.\<close>

definition BlockingQueue_put :: "'a \<Rightarrow> 'a monitor \<Rightarrow> 'a monitor" where
  "BlockingQueue_put x m = notEmpty_notify (push_back x m)"

text \<open>One test of the loop in \<^verbatim>\<open>take\<close>: the thread falls asleep, or takes the first element.\<close>

definition BlockingQueue_take :: "'a monitor \<Rightarrow> 'a monitor option" where
  "BlockingQueue_take m =
     (if mq_queue m = [] then Some (m\<lparr>takersAsleep := takersAsleep m + 1\<rparr>)
      else do { (x, m) \<leftarrow> pop_front m; Some m })"

text \<open>The bounded queue.\<close>

definition BoundedBlockingQueue_full :: "nat \<Rightarrow> ('a, 'b) monitor_scheme \<Rightarrow> bool" where
  "BoundedBlockingQueue_full maxSize m \<longleftrightarrow> length (mq_queue m) = maxSize"

definition BoundedBlockingQueue_put :: "nat \<Rightarrow> 'a \<Rightarrow> 'a monitor \<Rightarrow> 'a monitor" where
  "BoundedBlockingQueue_put maxSize x m =
     (if BoundedBlockingQueue_full maxSize m then m\<lparr>puttersAsleep := puttersAsleep m @ [x]\<rparr>
      else notEmpty_notify (push_back x m))"

definition BoundedBlockingQueue_take :: "nat \<Rightarrow> 'a monitor \<Rightarrow> 'a monitor option" where
  "BoundedBlockingQueue_take i m =
     (if mq_queue m = [] then Some (m\<lparr>takersAsleep := takersAsleep m + 1\<rparr>)
      else do { (x, m) \<leftarrow> pop_front m; Some (notFull_notify i m) })"

subsection \<open>The latch\<close>

record CountDownLatch =
  latch_count :: int
  latchAsleep :: nat
  latchAwake :: nat
  latchPassed :: nat

definition CountDownLatch_new :: "int \<Rightarrow> CountDownLatch" where
  "CountDownLatch_new count = \<lparr>latch_count = count, latchAsleep = 0, latchAwake = 0, latchPassed = 0\<rparr>"

definition CountDownLatch_wait :: "CountDownLatch \<Rightarrow> CountDownLatch" where
  "CountDownLatch_wait l =
     (if latch_count l > 0 then l\<lparr>latchAsleep := latchAsleep l + 1\<rparr> else l\<lparr>latchPassed := latchPassed l + 1\<rparr>)"

definition CountDownLatch_countDown :: "CountDownLatch \<Rightarrow> CountDownLatch" where
  "CountDownLatch_countDown l =
     (let l = l\<lparr>latch_count := latch_count l - 1\<rparr>
      in if latch_count l = 0 then l\<lparr>latchAsleep := 0, latchAwake := latchAwake l + latchAsleep l\<rparr> else l)"

subsection \<open>The thread pool\<close>

text \<open>
  Worker threads are counted by where they are: at the top of their loop, running a task, or finished; those that
  wait are takers of the monitor.  \<open>tp_ran\<close> lists the tasks that callers ran themselves.
\<close>

record 'a ThreadPool = "'a monitor" +
  tp_threads :: nat
  maxQueueSize :: nat
  tp_running :: bool
  workersTop :: nat
  workersBusy :: nat
  workersDone :: nat
  tp_ran :: "'a list"

definition ThreadPool_new :: "'a ThreadPool" where
  "ThreadPool_new = \<lparr>mq_queue = [], takersAsleep = 0, takersAwake = 0, puttersAsleep = [], puttersAwake = [],
     mq_put = [], mq_taken = [], tp_threads = 0, maxQueueSize = 0, tp_running = False,
     workersTop = 0, workersBusy = 0, workersDone = 0, tp_ran = []\<rparr>"

definition setMaxQueueSize :: "nat \<Rightarrow> 'a ThreadPool \<Rightarrow> 'a ThreadPool" where
  "setMaxQueueSize maxSize p = p\<lparr>maxQueueSize := maxSize\<rparr>"

definition ThreadPool_start :: "nat \<Rightarrow> 'a ThreadPool \<Rightarrow> 'a ThreadPool option" where
  "ThreadPool_start numThreads p = do {
     cassert (tp_threads p = 0);
     Some (p\<lparr>tp_running := True, tp_threads := numThreads, workersTop := numThreads\<rparr>)
   }"

text \<open>The first part of \<^verbatim>\<open>stop\<close>, before it joins the threads.\<close>

definition ThreadPool_stop :: "'a ThreadPool \<Rightarrow> 'a ThreadPool" where
  "ThreadPool_stop p = notEmpty_notifyAll (p\<lparr>tp_running := False\<rparr>)"

definition ThreadPool_queueSize :: "'a ThreadPool \<Rightarrow> nat" where
  "ThreadPool_queueSize p = length (mq_queue p)"

definition isFull :: "'a ThreadPool \<Rightarrow> bool" where
  "isFull p \<longleftrightarrow> maxQueueSize p > 0 \<and> length (mq_queue p) \<ge> maxQueueSize p"

text \<open>One test of the loop in \<^verbatim>\<open>run\<close>.\<close>

definition run_locked :: "'a \<Rightarrow> 'a ThreadPool \<Rightarrow> 'a ThreadPool" where
  "run_locked task p =
     (if isFull p then p\<lparr>puttersAsleep := puttersAsleep p @ [task]\<rparr>
      else notEmpty_notify (push_back task p))"

definition ThreadPool_run :: "'a \<Rightarrow> 'a ThreadPool \<Rightarrow> 'a ThreadPool" where
  "ThreadPool_run task p = (if tp_threads p = 0 then p\<lparr>tp_ran := tp_ran p @ [task]\<rparr> else run_locked task p)"

text \<open>One test of the loop in \<^verbatim>\<open>take\<close>: the worker falls asleep, or returns with a task, or without one.\<close>

definition ThreadPool_take :: "nat \<Rightarrow> 'a ThreadPool \<Rightarrow> 'a ThreadPool option" where
  "ThreadPool_take i p =
     (if mq_queue p = [] \<and> tp_running p then Some (p\<lparr>takersAsleep := takersAsleep p + 1\<rparr>)
      else if mq_queue p \<noteq> []
      then do {
        (task, p) \<leftarrow> pop_front p;
        let p = (if maxQueueSize p > 0 then notFull_notify i p else p);
        Some (p\<lparr>workersBusy := workersBusy p + 1\<rparr>)
      }
      else Some (p\<lparr>workersTop := workersTop p + 1\<rparr>))"

definition runInThread_top :: "nat \<Rightarrow> 'a ThreadPool \<Rightarrow> 'a ThreadPool option" where
  "runInThread_top i p =
     (let p = p\<lparr>workersTop := workersTop p - 1\<rparr>
      in if tp_running p then ThreadPool_take i p else Some (p\<lparr>workersDone := workersDone p + 1\<rparr>))"

definition runInThread_return :: "'a ThreadPool \<Rightarrow> 'a ThreadPool" where
  "runInThread_return p = p\<lparr>workersBusy := workersBusy p - 1, workersTop := workersTop p + 1\<rparr>"

datatype 'a pool_event =
  PRun 'a | PPutterWakes nat | PPutterSpurious nat | PWorkerTop nat | PWorkerWakes nat | PWorkerSpurious | PWorkerReturns | PStop

fun pool_enabled :: "'a pool_event \<Rightarrow> 'a ThreadPool \<Rightarrow> bool" where
  "pool_enabled (PRun task) p \<longleftrightarrow> True"
| "pool_enabled (PPutterWakes i) p \<longleftrightarrow> i < length (puttersAwake p)"
| "pool_enabled (PPutterSpurious i) p \<longleftrightarrow> puttersAsleep p \<noteq> []"
| "pool_enabled (PWorkerTop i) p \<longleftrightarrow> 0 < workersTop p"
| "pool_enabled (PWorkerWakes i) p \<longleftrightarrow> 0 < takersAwake p"
| "pool_enabled PWorkerSpurious p \<longleftrightarrow> 0 < takersAsleep p"
| "pool_enabled PWorkerReturns p \<longleftrightarrow> 0 < workersBusy p"
| "pool_enabled PStop p \<longleftrightarrow> True"

fun pool_exec :: "'a pool_event \<Rightarrow> 'a ThreadPool \<Rightarrow> 'a ThreadPool option" where
  "pool_exec (PRun task) p = Some (ThreadPool_run task p)"
| "pool_exec (PPutterWakes i) p =
     Some (run_locked (puttersAwake p ! i) (p\<lparr>puttersAwake := remove_nth i (puttersAwake p)\<rparr>))"
| "pool_exec (PPutterSpurious i) p = Some (notFull_notify i p)"
| "pool_exec (PWorkerTop i) p = runInThread_top i p"
| "pool_exec (PWorkerWakes i) p = ThreadPool_take i (p\<lparr>takersAwake := takersAwake p - 1\<rparr>)"
| "pool_exec PWorkerSpurious p = Some (notEmpty_notify p)"
| "pool_exec PWorkerReturns p = Some (runInThread_return p)"
| "pool_exec PStop p = Some (ThreadPool_stop p)"

inductive pool_reachable :: "nat \<Rightarrow> nat \<Rightarrow> 'a ThreadPool \<Rightarrow> bool" for n maxSize where
  start: "ThreadPool_start n (setMaxQueueSize maxSize ThreadPool_new) = Some p \<Longrightarrow> pool_reachable n maxSize p"
| step: "pool_reachable n maxSize p \<Longrightarrow> pool_enabled ev p \<Longrightarrow> pool_exec ev p = Some p' \<Longrightarrow> pool_reachable n maxSize p'"

subsection \<open>The contract of a monitor\<close>

text \<open>
  Elements leave in the order in which they came; the bound is kept; and no wake-up is lost: while a taker sleeps
  there are at least as many takers awake as elements, and while a putter sleeps at least as many putters awake as
  free places.
\<close>

definition monitor_ok :: "nat option \<Rightarrow> ('a, 'b) monitor_scheme \<Rightarrow> bool" where
  "monitor_ok cap m \<longleftrightarrow> mq_put m = mq_taken m @ mq_queue m
     \<and> (takersAsleep m = 0 \<or> length (mq_queue m) \<le> takersAwake m)
     \<and> (case cap of
          None \<Rightarrow> puttersAsleep m = []
        | Some n \<Rightarrow> length (mq_queue m) \<le> n \<and> (puttersAsleep m = [] \<or> n - length (mq_queue m) \<le> length (puttersAwake m)))"

definition at_cap :: "nat option \<Rightarrow> ('a, 'b) monitor_scheme \<Rightarrow> bool" where
  "at_cap cap m \<longleftrightarrow> (case cap of None \<Rightarrow> False | Some n \<Rightarrow> n \<le> length (mq_queue m))"

lemma length_remove_nth [simp]: "i < length xs \<Longrightarrow> length (remove_nth i xs) = length xs - 1"
  by (auto simp: remove_nth_def)

lemma notify_fields [simp]:
  "mq_queue (notEmpty_notify m) = mq_queue m" "mq_queue (notFull_notify i m) = mq_queue m"
  "puttersAsleep (notEmpty_notify m) = puttersAsleep m" "puttersAwake (notEmpty_notify m) = puttersAwake m"
  "takersAsleep (notFull_notify i m) = takersAsleep m" "takersAwake (notFull_notify i m) = takersAwake m"
  by (simp_all add: notEmpty_notify_def notFull_notify_def Let_def)

lemma monitor_put:
  assumes "monitor_ok cap m" "\<not> at_cap cap m"
  shows "monitor_ok cap (notEmpty_notify (push_back x m))"
  using assms by (auto simp: monitor_ok_def at_cap_def notEmpty_notify_def push_back_def split: option.splits)

lemma monitor_put_waits:
  assumes "monitor_ok cap m" "at_cap cap m"
  shows "monitor_ok cap (m\<lparr>puttersAsleep := puttersAsleep m @ [x]\<rparr>)"
  using assms by (auto simp: monitor_ok_def at_cap_def split: option.splits)

text \<open>A putter that tests again is not counted as awake while it does.\<close>

lemma monitor_put_again:
  assumes "monitor_ok cap m" "i < length (puttersAwake m)"
  defines "m' \<equiv> m\<lparr>puttersAwake := remove_nth i (puttersAwake m)\<rparr>"
  shows "if at_cap cap m' then monitor_ok cap (m'\<lparr>puttersAsleep := puttersAsleep m' @ [x]\<rparr>)
    else monitor_ok cap (notEmpty_notify (push_back x m'))"
  using assms by (auto simp: monitor_ok_def at_cap_def notEmpty_notify_def push_back_def split: option.splits)

lemma monitor_take_waits:
  "monitor_ok cap m \<Longrightarrow> mq_queue m = [] \<Longrightarrow> monitor_ok cap (m\<lparr>takersAwake := k, takersAsleep := takersAsleep m + 1\<rparr>)"
  by (auto simp: monitor_ok_def split: option.splits)

lemma monitor_take:
  assumes "monitor_ok cap m" "mq_queue m = x # xs" "takersAwake m \<le> Suc k"
  shows "monitor_ok cap ((if cap = None then id else notFull_notify i)
    (m\<lparr>takersAwake := k, mq_queue := xs, mq_taken := mq_taken m @ [x]\<rparr>))"
proof (cases cap)
  case None
  then show ?thesis using assms by (auto simp: monitor_ok_def)
next
  case (Some n)
  have "i mod length (puttersAsleep m) < length (puttersAsleep m)" if "puttersAsleep m \<noteq> []" using that by simp
  then show ?thesis using assms Some by (auto simp: monitor_ok_def notFull_notify_def Let_def)
qed

lemma monitor_spurious:
  assumes "monitor_ok cap m"
  shows "monitor_ok cap (notEmpty_notify m)" "monitor_ok cap (notFull_notify i m)"
proof -
  show "monitor_ok cap (notEmpty_notify m)" using assms by (auto simp: monitor_ok_def notEmpty_notify_def split: option.splits)
  have "i mod length (puttersAsleep m) < length (puttersAsleep m)" if "puttersAsleep m \<noteq> []" using that by simp
  then show "monitor_ok cap (notFull_notify i m)"
    using assms by (auto simp: monitor_ok_def notFull_notify_def Let_def split: option.splits)
qed

subsection \<open>Queues\<close>

datatype 'a queue_event = QPut 'a | QPutterWakes nat | QPutterSpurious nat | QTake nat | QTakerWakes nat | QTakerSpurious

fun queue_enabled :: "'a queue_event \<Rightarrow> 'a monitor \<Rightarrow> bool" where
  "queue_enabled (QPut x) m \<longleftrightarrow> True"
| "queue_enabled (QPutterWakes i) m \<longleftrightarrow> i < length (puttersAwake m)"
| "queue_enabled (QPutterSpurious i) m \<longleftrightarrow> puttersAsleep m \<noteq> []"
| "queue_enabled (QTake i) m \<longleftrightarrow> True"
| "queue_enabled (QTakerWakes i) m \<longleftrightarrow> 0 < takersAwake m"
| "queue_enabled QTakerSpurious m \<longleftrightarrow> 0 < takersAsleep m"

fun queue_exec ::
  "('a \<Rightarrow> 'a monitor \<Rightarrow> 'a monitor) \<Rightarrow> (nat \<Rightarrow> 'a monitor \<Rightarrow> 'a monitor option) \<Rightarrow> 'a queue_event \<Rightarrow> 'a monitor \<Rightarrow> 'a monitor option"
where
  "queue_exec put get (QPut x) m = Some (put x m)"
| "queue_exec put get (QPutterWakes i) m = Some (put (puttersAwake m ! i) (m\<lparr>puttersAwake := remove_nth i (puttersAwake m)\<rparr>))"
| "queue_exec put get (QPutterSpurious i) m = Some (notFull_notify i m)"
| "queue_exec put get (QTake i) m = get i m"
| "queue_exec put get (QTakerWakes i) m = get i (m\<lparr>takersAwake := takersAwake m - 1\<rparr>)"
| "queue_exec put get QTakerSpurious m = Some (notEmpty_notify m)"

definition queue_step where
  "queue_step put get ev m = (if queue_enabled ev m then queue_exec put get ev m else Some m)"

text \<open>What both queues promise of one test of their loops, and what follows for every interleaving.\<close>

locale blocking_queue =
  fixes cap :: "nat option"
    and put :: "'a \<Rightarrow> 'a monitor \<Rightarrow> 'a monitor"
    and get :: "nat \<Rightarrow> 'a monitor \<Rightarrow> 'a monitor option"
  assumes put_room: "\<not> at_cap cap m \<Longrightarrow> put x m = notEmpty_notify (push_back x m)"
    and put_full: "at_cap cap m \<Longrightarrow> length (mq_queue m) \<le> the cap \<Longrightarrow> put x m = m\<lparr>puttersAsleep := puttersAsleep m @ [x]\<rparr>"
    and get_empty: "mq_queue m = [] \<Longrightarrow> get i m = Some (m\<lparr>takersAsleep := takersAsleep m + 1\<rparr>)"
    and get_item: "mq_queue m = x # xs \<Longrightarrow>
      get i m = Some ((if cap = None then id else notFull_notify i) (m\<lparr>mq_queue := xs, mq_taken := mq_taken m @ [x]\<rparr>))"
begin

lemma bound: "monitor_ok cap m \<Longrightarrow> cap = None \<or> length (mq_queue m) \<le> the cap"
  by (auto simp: monitor_ok_def split: option.splits)

lemma put_again:
  assumes "monitor_ok cap m" "i < length (puttersAwake m)"
  shows "monitor_ok cap (put x (m\<lparr>puttersAwake := remove_nth i (puttersAwake m)\<rparr>))"
proof -
  let ?m = "m\<lparr>puttersAwake := remove_nth i (puttersAwake m)\<rparr>"
  have b: "cap = None \<or> length (mq_queue ?m) \<le> the cap" using bound [OF assms(1)] by simp
  show ?thesis
  proof (cases "at_cap cap ?m")
    case True
    then have "cap \<noteq> None" by (auto simp: at_cap_def split: option.splits)
    then show ?thesis using True b put_full [OF True] monitor_put_again [OF assms, of x] by auto
  next
    case False
    then show ?thesis using put_room [OF False] monitor_put_again [OF assms, of x] by simp
  qed
qed

lemma put_ok:
  assumes "monitor_ok cap m"
  shows "monitor_ok cap (put x m)"
proof (cases "at_cap cap m")
  case True
  then have "cap \<noteq> None" by (auto simp: at_cap_def split: option.splits)
  then show ?thesis using put_full [OF True] bound [OF assms] monitor_put_waits [OF assms True] by auto
next
  case False
  then show ?thesis using put_room [OF False] monitor_put [OF assms False] by simp
qed

lemma get_ok:
  assumes "monitor_ok cap m" "takersAwake m \<le> Suc k"
  shows "\<exists>m'. get i (m\<lparr>takersAwake := k\<rparr>) = Some m' \<and> monitor_ok cap m'"
proof (cases "mq_queue m")
  case Nil
  then show ?thesis using get_empty [of "m\<lparr>takersAwake := k\<rparr>"] monitor_take_waits [OF assms(1) Nil] by simp
next
  case (Cons x xs)
  then show ?thesis using get_item [of "m\<lparr>takersAwake := k\<rparr>"] monitor_take [OF assms(1) Cons assms(2)] by simp
qed

lemma step_ok:
  assumes "monitor_ok cap m"
  shows "\<exists>m'. queue_step put get ev m = Some m' \<and> monitor_ok cap m'"
proof (cases ev)
  case (QTake i)
  then show ?thesis using get_ok [OF assms, of "takersAwake m" i] by (simp add: queue_step_def)
next
  case (QTakerWakes i)
  then show ?thesis using get_ok [OF assms, of "takersAwake m - 1" i] assms by (simp add: queue_step_def)
qed (use assms put_ok put_again monitor_spurious in \<open>auto simp: queue_step_def\<close>)

lemma run_ok: "monitor_ok cap m \<Longrightarrow> \<exists>m'. run_ops (queue_step put get) evs m = Some m' \<and> monitor_ok cap m'"
proof (induction evs arbitrary: m)
  case (Cons ev evs)
  then show ?case using step_ok [OF Cons.prems, of ev] by auto
qed simp

end

lemma pop_front_Cons: "mq_queue m = x # xs \<Longrightarrow> pop_front m = Some (x, m\<lparr>mq_queue := xs, mq_taken := mq_taken m @ [x]\<rparr>)"
  by (simp add: pop_front_def)

interpretation bq: blocking_queue None BlockingQueue_put "\<lambda>_. BlockingQueue_take"
  by unfold_locales (simp_all add: BlockingQueue_put_def BlockingQueue_take_def at_cap_def pop_front_Cons)

interpretation bbq: blocking_queue "Some n" "BoundedBlockingQueue_put n" BoundedBlockingQueue_take for n
  by unfold_locales
    (auto simp: BoundedBlockingQueue_put_def BoundedBlockingQueue_take_def BoundedBlockingQueue_full_def at_cap_def pop_front_Cons)

subsection \<open>The invariant of the pool\<close>

definition pool_cap :: "nat \<Rightarrow> nat option" where
  "pool_cap maxSize = (if maxSize = 0 then None else Some maxSize)"

definition pool_inv :: "nat \<Rightarrow> nat \<Rightarrow> 'a ThreadPool \<Rightarrow> bool" where
  "pool_inv n maxSize p \<longleftrightarrow> tp_threads p = n \<and> maxQueueSize p = maxSize \<and> monitor_ok (pool_cap maxSize) p
     \<and> workersTop p + workersBusy p + workersDone p + takersAsleep p + takersAwake p = n
     \<and> (tp_running p \<or> takersAsleep p = 0) \<and> (\<not> tp_running p \<or> workersDone p = 0)"

lemma at_cap_isFull: "maxQueueSize p = maxSize \<Longrightarrow> at_cap (pool_cap maxSize) p = isFull p"
  by (auto simp: at_cap_def pool_cap_def isFull_def)

lemma pool_fields [simp]:
  "tp_threads (notEmpty_notify p) = tp_threads p" "maxQueueSize (notEmpty_notify p) = maxQueueSize p"
  "workersTop (notEmpty_notify p) = workersTop p" "workersBusy (notEmpty_notify p) = workersBusy p"
  "workersDone (notEmpty_notify p) = workersDone p" "tp_running (notEmpty_notify p) = tp_running p"
  "tp_threads (notFull_notify i p) = tp_threads p" "maxQueueSize (notFull_notify i p) = maxQueueSize p"
  "workersTop (notFull_notify i p) = workersTop p" "workersBusy (notFull_notify i p) = workersBusy p"
  "workersDone (notFull_notify i p) = workersDone p" "tp_running (notFull_notify i p) = tp_running p"
  by (simp_all add: notEmpty_notify_def notFull_notify_def Let_def)

lemma notify_takers:
  "takersAsleep (notEmpty_notify p) + takersAwake (notEmpty_notify p) = takersAsleep p + takersAwake p"
  by (simp add: notEmpty_notify_def)

lemma notify_none: "takersAsleep m = 0 \<Longrightarrow> notEmpty_notify m = m"
  by (simp add: notEmpty_notify_def)

lemma monitor_ok_workers [simp]:
  "monitor_ok cap (p\<lparr>workersTop := a\<rparr>) = monitor_ok cap p" "monitor_ok cap (p\<lparr>workersBusy := a\<rparr>) = monitor_ok cap p"
  "monitor_ok cap (p\<lparr>workersDone := a\<rparr>) = monitor_ok cap p" "monitor_ok cap (p\<lparr>tp_running := r\<rparr>) = monitor_ok cap p"
  "monitor_ok cap (p\<lparr>tp_ran := ts\<rparr>) = monitor_ok cap p"
  by (cases cap; simp add: monitor_ok_def)+

lemma notify_inv:
  assumes "pool_inv n maxSize p"
  shows "pool_inv n maxSize (notEmpty_notify p)" "pool_inv n maxSize (notFull_notify i p)"
  using assms monitor_spurious [of "pool_cap maxSize" p] notify_takers [of p] notify_none [of p] by (auto simp: pool_inv_def)

lemma pool_inv_monitor:
  assumes "pool_inv n maxSize p" "monitor_ok (pool_cap maxSize) (q :: 'a ThreadPool)"
    and "tp_threads q = n" "maxQueueSize q = maxSize" "tp_running q = tp_running p"
    and "workersTop q + workersBusy q + takersAsleep q + takersAwake q = workersTop p + workersBusy p + takersAsleep p + takersAwake p"
    and "workersDone q = workersDone p" "tp_running q \<or> takersAsleep q = 0"
  shows "pool_inv n maxSize q"
  using assms by (simp add: pool_inv_def)

lemma push_fields [simp]:
  "tp_threads (push_back x p) = tp_threads p" "maxQueueSize (push_back x p) = maxQueueSize p" "tp_running (push_back x p) = tp_running p"
  "workersTop (push_back x p) = workersTop p" "workersBusy (push_back x p) = workersBusy p" "workersDone (push_back x p) = workersDone p"
  "takersAsleep (push_back x p) = takersAsleep p" "takersAwake (push_back x p) = takersAwake p"
  by (simp_all add: push_back_def)

lemma run_locked_fields:
  "tp_threads (run_locked t p) = tp_threads p" "maxQueueSize (run_locked t p) = maxQueueSize p" "tp_running (run_locked t p) = tp_running p"
  "workersTop (run_locked t p) = workersTop p" "workersBusy (run_locked t p) = workersBusy p" "workersDone (run_locked t p) = workersDone p"
  "takersAsleep (run_locked t p) + takersAwake (run_locked t p) = takersAsleep p + takersAwake p"
  "takersAsleep p = 0 \<Longrightarrow> takersAsleep (run_locked t p) = 0"
  using notify_takers [of "push_back t p"] by (simp_all add: run_locked_def notify_none)

lemma run_locked_inv:
  assumes "pool_inv n maxSize p" "monitor_ok (pool_cap maxSize) (run_locked t q)"
    and "q = p \<or> (\<exists>ts. q = p\<lparr>puttersAwake := ts\<rparr>)"
  shows "pool_inv n maxSize (run_locked t q)"
proof (rule pool_inv_monitor [OF assms(1,2)])
  show "workersTop (run_locked t q) + workersBusy (run_locked t q) + takersAsleep (run_locked t q) + takersAwake (run_locked t q)
      = workersTop p + workersBusy p + takersAsleep p + takersAwake p"
    using assms(3) run_locked_fields(4,5,7) [where t = t and p = q] by auto
  show "tp_running (run_locked t q) \<or> takersAsleep (run_locked t q) = 0"
    using assms(1,3) run_locked_fields(3,8) [where t = t and p = q] by (auto simp: pool_inv_def)
qed (use assms(1,3) run_locked_fields [where t = t and p = q] in \<open>auto simp: pool_inv_def\<close>)

lemma run_inv: "pool_inv n maxSize p \<Longrightarrow> pool_inv n maxSize (ThreadPool_run t p)"
proof -
  assume p: "pool_inv n maxSize p"
  then have m: "monitor_ok (pool_cap maxSize) p" "at_cap (pool_cap maxSize) p = isFull p"
    using at_cap_isFull by (auto simp: pool_inv_def)
  then have "monitor_ok (pool_cap maxSize) (run_locked t p)"
    using monitor_put [OF m(1)] monitor_put_waits [OF m(1)] by (simp add: run_locked_def)
  then show ?thesis using run_locked_inv [OF p] p by (auto simp: ThreadPool_run_def pool_inv_def)
qed

lemma putter_inv:
  assumes "pool_inv n maxSize p" "i < length (puttersAwake p)"
  shows "pool_inv n maxSize (run_locked t (p\<lparr>puttersAwake := remove_nth i (puttersAwake p)\<rparr>))"
proof (rule run_locked_inv [OF assms(1)])
  let ?q = "p\<lparr>puttersAwake := remove_nth i (puttersAwake p)\<rparr>"
  have m: "monitor_ok (pool_cap maxSize) p" "at_cap (pool_cap maxSize) ?q = isFull ?q"
    using assms(1) at_cap_isFull [of ?q maxSize] by (auto simp: pool_inv_def)
  show "monitor_ok (pool_cap maxSize) (run_locked t ?q)"
    using monitor_put_again [OF m(1) assms(2), of t] m(2) by (simp add: run_locked_def split: if_splits)
qed auto

text \<open>A worker that tests: \<open>k\<close> and \<open>j\<close> are the takers awake and the workers at the top without it.\<close>

lemma take_cases:
  fixes p :: "'a ThreadPool"
  assumes "maxQueueSize p = maxSize"
  obtains (sleep) "mq_queue p = []" "tp_running p" "ThreadPool_take i p = Some (p\<lparr>takersAsleep := takersAsleep p + 1\<rparr>)"
  | (item) x xs where "mq_queue p = x # xs" "ThreadPool_take i p = Some
      (let q = (if pool_cap maxSize = None then id else notFull_notify i) (p\<lparr>mq_queue := xs, mq_taken := mq_taken p @ [x]\<rparr>)
       in q\<lparr>workersBusy := workersBusy p + 1\<rparr>)"
  | (none) "mq_queue p = []" "\<not> tp_running p" "ThreadPool_take i p = Some (p\<lparr>workersTop := workersTop p + 1\<rparr>)"
proof (cases "mq_queue p")
  case Nil
  then show ?thesis using sleep none by (cases "tp_running p") (simp_all add: ThreadPool_take_def)
next
  case (Cons x xs)
  then show ?thesis using item [OF Cons] assms pop_front_Cons [OF Cons] by (simp add: ThreadPool_take_def pool_cap_def Let_def)
qed

lemma take_inv:
  fixes p :: "'a ThreadPool"
  assumes "pool_inv n maxSize p" "takersAwake q \<le> takersAwake p" "takersAwake p \<le> Suc (takersAwake q)"
    and q: "q = p\<lparr>takersAwake := k, workersTop := j\<rparr>" "Suc (takersAwake q + workersTop q) = takersAwake p + workersTop p"
  shows "\<exists>p'. ThreadPool_take i q = Some p' \<and> pool_inv n maxSize p'"
proof -
  have p: "monitor_ok (pool_cap maxSize) p" "maxQueueSize q = maxSize" "tp_threads q = n"
    using assms(1) q(1) by (simp_all add: pool_inv_def)
  have k: "takersAwake p \<le> Suc k" using assms(3) q(1) by simp
  from p(2) show ?thesis
  proof (cases rule: take_cases [of q maxSize i])
    case sleep
    then have "monitor_ok (pool_cap maxSize) (q\<lparr>takersAsleep := takersAsleep q + 1\<rparr>)"
      using monitor_take_waits [OF p(1), of k] q(1) by (cases "pool_cap maxSize") (simp_all add: monitor_ok_def)
    then show ?thesis using assms sleep p by (auto simp: pool_inv_def)
  next
    case (item x xs)
    have "mq_queue p = x # xs" using item(1) q(1) by simp
    note m = monitor_take [OF p(1) this k, of i]
    let ?f = "if pool_cap maxSize = None then id else notFull_notify i"
    have "monitor_ok (pool_cap maxSize) (?f (q\<lparr>mq_queue := xs, mq_taken := mq_taken q @ [x]\<rparr>))"
      using m q(1) by (cases "pool_cap maxSize") (auto simp: monitor_ok_def notFull_notify_def Let_def)
    then show ?thesis using assms item(2) p by (auto simp: pool_inv_def Let_def)
  next
    case none
    then have "monitor_ok (pool_cap maxSize) q"
      using p(1) assms q(1) by (cases "pool_cap maxSize") (auto simp: monitor_ok_def pool_inv_def)
    then show ?thesis using assms none p by (auto simp: pool_inv_def)
  qed
qed

lemma top_inv:
  assumes "pool_inv n maxSize p" "0 < workersTop p"
  shows "\<exists>p'. runInThread_top i p = Some p' \<and> pool_inv n maxSize p'"
proof (cases "tp_running p")
  case True
  let ?q = "p\<lparr>takersAwake := takersAwake p, workersTop := workersTop p - 1\<rparr>"
  have "runInThread_top i p = ThreadPool_take i ?q" using True by (simp add: runInThread_top_def)
  then show ?thesis using take_inv [OF assms(1), where q = ?q and k = "takersAwake p" and j = "workersTop p - 1" and i = i] assms(2) by simp
next
  case False
  then show ?thesis using assms by (simp add: runInThread_top_def pool_inv_def)
qed

lemma wake_inv:
  assumes "pool_inv n maxSize p" "0 < takersAwake p"
  shows "\<exists>p'. ThreadPool_take i (p\<lparr>takersAwake := takersAwake p - 1\<rparr>) = Some p' \<and> pool_inv n maxSize p'"
proof -
  let ?q = "p\<lparr>takersAwake := takersAwake p - 1, workersTop := workersTop p\<rparr>"
  have "p\<lparr>takersAwake := takersAwake p - 1\<rparr> = ?q" by simp
  then show ?thesis using take_inv [OF assms(1), where q = ?q and k = "takersAwake p - 1" and j = "workersTop p" and i = i] assms(2) by simp
qed

lemma stop_inv: "pool_inv n maxSize p \<Longrightarrow> pool_inv n maxSize (ThreadPool_stop p)"
  by (cases "pool_cap maxSize") (auto simp: pool_inv_def ThreadPool_stop_def notEmpty_notifyAll_def monitor_ok_def)

lemma pool_step_inv:
  assumes "pool_inv n maxSize p" "pool_enabled ev p"
  shows "\<exists>p'. pool_exec ev p = Some p' \<and> pool_inv n maxSize p'"
proof (cases ev)
  case PWorkerReturns
  then show ?thesis using assms by (auto simp: runInThread_return_def pool_inv_def)
qed (use assms run_inv putter_inv notify_inv top_inv wake_inv stop_inv in auto)

lemma pool_reachable_inv: "pool_reachable n maxSize p \<Longrightarrow> pool_inv n maxSize p"
proof (induction rule: pool_reachable.induct)
  case (start p)
  then show ?case
    by (auto simp: ThreadPool_start_def setMaxQueueSize_def ThreadPool_new_def pool_inv_def monitor_ok_def split: option.splits)
next
  case (step p ev p')
  then show ?case using pool_step_inv [of n maxSize p ev] by auto
qed

definition pool_try :: "'a pool_event \<Rightarrow> 'a ThreadPool \<Rightarrow> 'a ThreadPool option" where
  "pool_try ev p = (if pool_enabled ev p then pool_exec ev p else None)"

lemma pool_reachable_run:
  "pool_reachable n maxSize p \<Longrightarrow> run_ops pool_try evs p = Some p' \<Longrightarrow> pool_reachable n maxSize p'"
  by (induction evs arbitrary: p) (auto simp: pool_try_def bind_eq_Some_conv intro: pool_reachable.step split: if_splits)

lemma run_pool_Cons:
  "run_ops pool_try (ev # evs) p = Some p' \<Longrightarrow> \<exists>p1. pool_enabled ev p \<and> pool_exec ev p = Some p1 \<and> run_ops pool_try evs p1 = Some p'"
  by (cases "pool_enabled ev p"; cases "pool_exec ev p"; simp add: pool_try_def [of ev p])

subsection \<open>After stop\<close>

fun is_worker :: "'a pool_event \<Rightarrow> bool" where
  "is_worker (PWorkerTop _) = True"
| "is_worker (PWorkerWakes _) = True"
| "is_worker PWorkerSpurious = True"
| "is_worker PWorkerReturns = True"
| "is_worker _ = False"

definition work_left :: "'a ThreadPool \<Rightarrow> nat" where
  "work_left p = 3 * takersAwake p + 2 * workersBusy p + workersTop p"

lemma work_left_simps [simp]:
  "work_left (notFull_notify i p) = work_left p" "takersAsleep p = 0 \<Longrightarrow> work_left (notEmpty_notify p) = work_left p"
  by (simp_all add: work_left_def notFull_notify_def notify_none Let_def)

lemma run_locked_work: "takersAsleep p = 0 \<Longrightarrow> work_left (run_locked t p) = work_left p"
  by (auto simp: run_locked_def work_left_def notify_none push_back_def)

lemma take_work:
  fixes p :: "'a ThreadPool"
  assumes "\<not> tp_running p" "ThreadPool_take i p = Some p'"
  shows "work_left p' \<le> work_left p + 2 \<and> \<not> tp_running p' \<and> takersAsleep p' = takersAsleep p"
  using refl [of "maxQueueSize p"]
proof (cases rule: take_cases [of p "maxQueueSize p" i])
  case (item x xs)
  then show ?thesis using assms by (auto simp: work_left_def notFull_notify_def Let_def)
qed (use assms in \<open>auto simp: work_left_def\<close>)

lemma stopped_step:
  assumes "pool_inv n maxSize p" "\<not> tp_running p" "pool_enabled ev p" "pool_exec ev p = Some p'"
  shows "\<not> tp_running p' \<and> work_left p' + (if is_worker ev then 1 else 0) \<le> work_left p"
proof -
  have asleep: "takersAsleep p = 0" using assms(1,2) by (simp add: pool_inv_def)
  show ?thesis
  proof (cases ev)
    case (PWorkerWakes i)
    then show ?thesis using take_work [of "p\<lparr>takersAwake := takersAwake p - 1\<rparr>" i p'] assms(2-4) by (auto simp: work_left_def)
  next
    case (PWorkerTop i)
    then show ?thesis using assms(2-4) by (auto simp: runInThread_top_def work_left_def)
  next
    case (PRun t)
    then show ?thesis using assms(2,4) run_locked_work [OF asleep, of t] run_locked_fields(3) [of t p]
      by (auto simp: ThreadPool_run_def work_left_def split: if_splits)
  next
    case (PPutterWakes i)
    let ?q = "p\<lparr>puttersAwake := remove_nth i (puttersAwake p)\<rparr>"
    have "work_left ?q = work_left p" by (simp add: work_left_def)
    then show ?thesis using PPutterWakes assms(2,4) asleep run_locked_work [of ?q "puttersAwake p ! i"]
        run_locked_fields(3) [of "puttersAwake p ! i" ?q] by auto
  qed (use assms(2-4) asleep in \<open>auto simp: runInThread_return_def ThreadPool_stop_def notEmpty_notifyAll_def work_left_def notFull_notify_def Let_def\<close>)
qed

lemma stopped_run:
  assumes "pool_reachable n maxSize p" "\<not> tp_running p" "run_ops pool_try evs p = Some p'"
  shows "\<not> tp_running p' \<and> length (filter is_worker evs) + work_left p' \<le> work_left p"
  using assms
proof (induction evs arbitrary: p)
  case (Cons ev evs)
  obtain p1 where p1: "pool_enabled ev p" "pool_exec ev p = Some p1" "run_ops pool_try evs p1 = Some p'"
    using run_pool_Cons [OF Cons.prems(3)] by blast
  have "pool_reachable n maxSize p1" using Cons.prems(1) p1 by (blast intro: pool_reachable.step)
  then show ?case
    using Cons.IH p1 stopped_step [OF pool_reachable_inv [OF Cons.prems(1)] Cons.prems(2) p1(1,2)] by fastforce
qed simp

text \<open>When the queue is full and every worker is gone, nothing ever changes for those who want to put.\<close>

definition stranded :: "nat \<Rightarrow> 'a ThreadPool \<Rightarrow> bool" where
  "stranded n p \<longleftrightarrow> 0 < n \<and> tp_threads p = n \<and> \<not> tp_running p \<and> workersDone p = n \<and> isFull p"

lemma stranded_step:
  assumes "pool_inv n maxSize p" "stranded n p" "pool_enabled ev p" "pool_exec ev p = Some p'"
  shows "stranded n p' \<and> mq_put p' = mq_put p
    \<and> length (puttersAsleep p) + length (puttersAwake p) \<le> length (puttersAsleep p') + length (puttersAwake p')"
proof -
  have "workersTop p = 0" "workersBusy p = 0" "takersAwake p = 0" "takersAsleep p = 0"
    using assms(1,2) by (auto simp: pool_inv_def stranded_def)
  moreover have "i mod length (puttersAsleep p) < length (puttersAsleep p)" if "puttersAsleep p \<noteq> []" for i using that by simp
  ultimately show ?thesis
    using assms(2-4)
    by (cases ev) (auto simp: stranded_def isFull_def ThreadPool_run_def run_locked_def ThreadPool_stop_def
        notEmpty_notifyAll_def notFull_notify_def Let_def)
qed

lemma stranded_run:
  assumes "pool_reachable n maxSize p" "stranded n p" "run_ops pool_try evs p = Some p'"
  shows "mq_put p' = mq_put p
    \<and> length (puttersAsleep p) + length (puttersAwake p) \<le> length (puttersAsleep p') + length (puttersAwake p')"
  using assms
proof (induction evs arbitrary: p)
  case (Cons ev evs)
  obtain p1 where p1: "pool_enabled ev p" "pool_exec ev p = Some p1" "run_ops pool_try evs p1 = Some p'"
    using run_pool_Cons [OF Cons.prems(3)] by blast
  have "pool_reachable n maxSize p1" using Cons.prems(1) p1 by (blast intro: pool_reachable.step)
  then show ?case
    using Cons.IH [OF _ _ p1(3)] stranded_step [OF pool_reachable_inv [OF Cons.prems(1)] Cons.prems(2) p1(1,2)] by fastforce
qed simp

subsection \<open>The latch opens for everyone\<close>

datatype latch_event = LWait | LCountDown | LSpurious | LWakes

fun latch_step :: "latch_event \<Rightarrow> CountDownLatch \<Rightarrow> CountDownLatch" where
  "latch_step LWait l = CountDownLatch_wait l"
| "latch_step LCountDown l = CountDownLatch_countDown l"
| "latch_step LSpurious l = (if latchAsleep l = 0 then l else l\<lparr>latchAsleep := latchAsleep l - 1, latchAwake := latchAwake l + 1\<rparr>)"
| "latch_step LWakes l = (if latchAwake l = 0 then l else CountDownLatch_wait (l\<lparr>latchAwake := latchAwake l - 1\<rparr>))"

lemma latch_step_ok:
  assumes "latchAsleep l = 0 \<or> 0 < latch_count l" "latchPassed l = 0 \<or> latch_count l \<le> 0"
  shows "(latchAsleep (latch_step ev l) = 0 \<or> 0 < latch_count (latch_step ev l))
    \<and> (latchPassed (latch_step ev l) = 0 \<or> latch_count (latch_step ev l) \<le> 0)"
  using assms by (cases ev) (auto simp: CountDownLatch_wait_def CountDownLatch_countDown_def Let_def)

text \<open>Nobody passes before the count is zero, and nobody sleeps afterwards.\<close>

lemma CountDownLatch_opens:
  "(latchAsleep (fold latch_step evs (CountDownLatch_new n)) = 0 \<or> 0 < latch_count (fold latch_step evs (CountDownLatch_new n)))
   \<and> (latchPassed (fold latch_step evs (CountDownLatch_new n)) = 0 \<or> latch_count (fold latch_step evs (CountDownLatch_new n)) \<le> 0)"
proof (induction evs rule: rev_induct)
  case (snoc ev evs)
  then show ?case using latch_step_ok [of "fold latch_step evs (CountDownLatch_new n)" ev] by simp
qed (simp add: CountDownLatch_new_def)

subsection \<open>Properties\<close>

text \<open>
  C28. The bounded queue.  For every interleaving of threads that put and take, with spurious wake-ups and every
  choice of the thread that is notified: elements leave in the order in which they came, none is lost or
  repeated, the bound is kept, and no wake-up is lost; while a taker sleeps there are at least as many takers awake
  as elements, and while a putter sleeps at least as many putters awake as free places.
\<close>

theorem BoundedBlockingQueue_correct:
  "\<exists>m. run_ops (queue_step (BoundedBlockingQueue_put n) BoundedBlockingQueue_take) evs monitor_new = Some m
     \<and> mq_put m = mq_taken m @ mq_queue m \<and> length (mq_queue m) \<le> n
     \<and> (takersAsleep m = 0 \<or> length (mq_queue m) \<le> takersAwake m)
     \<and> (puttersAsleep m = [] \<or> n - length (mq_queue m) \<le> length (puttersAwake m))"
proof -
  have "monitor_ok (Some n) monitor_new" by (simp add: monitor_ok_def monitor_new_def)
  then show ?thesis using bbq.run_ok [of n monitor_new evs] by (auto simp: monitor_ok_def)
qed

text \<open>
  C29. The pool does not get stuck.  In every reachable state of a running pool with threads the tasks have been
  taken in the order in which they were accepted, the bound of the queue is kept, the next step of every thread
  succeeds, and when no thread can move, then because there is nothing to do: the queue is empty and no caller
  waits to add a task.
\<close>

theorem ThreadPool_no_deadlock:
  assumes "pool_reachable n maxSize p" "0 < n"
  shows "mq_put p = mq_taken p @ mq_queue p \<and> (maxSize = 0 \<or> length (mq_queue p) \<le> maxSize)
    \<and> (\<forall>ev. pool_enabled ev p \<longrightarrow> pool_exec ev p \<noteq> None)
    \<and> (tp_running p \<and> takersAwake p = 0 \<and> workersTop p = 0 \<and> workersBusy p = 0 \<and> puttersAwake p = []
        \<longrightarrow> mq_queue p = [] \<and> puttersAsleep p = [])"
proof -
  have inv: "pool_inv n maxSize p" using assms(1) by (rule pool_reachable_inv)
  then have "\<forall>ev. pool_enabled ev p \<longrightarrow> pool_exec ev p \<noteq> None" using pool_step_inv by fastforce
  then show ?thesis using inv assms(2) by (auto simp: pool_inv_def monitor_ok_def pool_cap_def split: if_splits)
qed

definition pool_demo :: "nat pool_event list" where
  "pool_demo = [PRun 1, PWorkerTop 0, PRun 2, PRun 3]"

lemma pool_demo_run:
  "\<exists>p. run_ops pool_try pool_demo (ThreadPool_new\<lparr>maxQueueSize := 1, tp_running := True, tp_threads := 1, workersTop := 1\<rparr>) = Some p
     \<and> pool_reachable 1 1 p \<and> mq_put p = [1, 2] \<and> mq_queue p = [2] \<and> puttersAsleep p = [3]"
proof -
  let ?p = "ThreadPool_new\<lparr>maxQueueSize := 1, tp_running := True, tp_threads := 1, workersTop := 1\<rparr> :: nat ThreadPool"
  have "pool_reachable 1 1 ?p"
    by (rule pool_reachable.start) (simp add: ThreadPool_start_def setMaxQueueSize_def ThreadPool_new_def)
  moreover have "\<exists>p. run_ops pool_try pool_demo ?p = Some p \<and> mq_put p = [1, 2] \<and> mq_queue p = [2] \<and> puttersAsleep p = [3]"
    by (simp add: pool_demo_def pool_try_def ThreadPool_new_def ThreadPool_run_def run_locked_def isFull_def push_back_def
        notEmpty_notify_def notFull_notify_def runInThread_top_def ThreadPool_take_def pop_front_def Let_def)
  ultimately show ?thesis using pool_reachable_run by blast
qed

theorem ThreadPool_no_deadlock_witness:
  "\<exists>p :: nat ThreadPool. pool_reachable 1 1 p \<and> mq_put p = [1, 2] \<and> [1, 2] = mq_taken p @ [2] \<and> puttersAsleep p = [3]"
proof -
  obtain p :: "nat ThreadPool" where p: "pool_reachable 1 1 p" "mq_put p = [1, 2]" "mq_queue p = [2]" "puttersAsleep p = [3]"
    using pool_demo_run by blast
  show ?thesis using ThreadPool_no_deadlock [OF p(1)] p by auto
qed

text \<open>
  C30. \<^verbatim>\<open>stop()\<close> ends the workers.  Once a pool has been stopped, its workers make at most three steps each, however
  these are interleaved with anything else, provided that the tasks return; and when no worker can make another
  step all of them have finished, so that the joins in \<^verbatim>\<open>stop()\<close> return.
\<close>

theorem ThreadPool_stop_terminates:
  assumes "pool_reachable n maxSize p" "\<not> tp_running p" "run_ops pool_try evs p = Some p'"
  shows "length (filter is_worker evs) \<le> 3 * n
    \<and> ((\<forall>ev. is_worker ev \<longrightarrow> \<not> pool_enabled ev p') \<longrightarrow> workersDone p' = n)"
proof
  have inv: "pool_inv n maxSize p" "pool_inv n maxSize p'"
    using assms(1) pool_reachable_run [OF assms(1,3)] by (simp_all add: pool_reachable_inv)
  have "work_left p \<le> 3 * n" using inv(1) by (simp add: work_left_def pool_inv_def)
  then show "length (filter is_worker evs) \<le> 3 * n" using stopped_run [OF assms] by linarith
  show "(\<forall>ev. is_worker ev \<longrightarrow> \<not> pool_enabled ev p') \<longrightarrow> workersDone p' = n"
  proof
    assume none: "\<forall>ev. is_worker ev \<longrightarrow> \<not> pool_enabled ev p'"
    have "workersTop p' = 0" "takersAwake p' = 0" "takersAsleep p' = 0" "workersBusy p' = 0"
      using none [rule_format, of "PWorkerTop 0"] none [rule_format, of "PWorkerWakes 0"]
        none [rule_format, of PWorkerSpurious] none [rule_format, of PWorkerReturns] by simp_all
    then show "workersDone p' = n" using inv(2) by (simp add: pool_inv_def)
  qed
qed

lemma pool_demo_stop:
  "\<exists>p p' :: nat ThreadPool. pool_reachable 1 1 p \<and> \<not> tp_running p \<and> mq_put p = [1, 2] \<and> puttersAsleep p = [3]
     \<and> run_ops pool_try [PWorkerReturns, PWorkerTop 0] p = Some p' \<and> stranded 1 p' \<and> mq_put p' = [1, 2] \<and> puttersAsleep p' = [3]"
proof -
  let ?p = "ThreadPool_new\<lparr>maxQueueSize := 1, tp_running := True, tp_threads := 1, workersTop := 1\<rparr> :: nat ThreadPool"
  have s: "pool_reachable 1 1 ?p"
    by (rule pool_reachable.start) (simp add: ThreadPool_start_def setMaxQueueSize_def ThreadPool_new_def)
  have "\<exists>p p'. run_ops pool_try (pool_demo @ [PStop]) ?p = Some p \<and> \<not> tp_running p \<and> mq_put p = [1, 2] \<and> puttersAsleep p = [3]
     \<and> run_ops pool_try [PWorkerReturns, PWorkerTop 0] p = Some p' \<and> stranded 1 p' \<and> mq_put p' = [1, 2] \<and> puttersAsleep p' = [3]"
    by (simp add: pool_demo_def pool_try_def ThreadPool_new_def ThreadPool_run_def run_locked_def isFull_def push_back_def
        notEmpty_notify_def notFull_notify_def runInThread_top_def ThreadPool_take_def pop_front_def Let_def
        ThreadPool_stop_def notEmpty_notifyAll_def runInThread_return_def stranded_def)
  then show ?thesis using pool_reachable_run [OF s] by blast
qed

theorem ThreadPool_stop_terminates_witness:
  "\<exists>p p' :: nat ThreadPool. run_ops pool_try [PWorkerReturns, PWorkerTop 0] p = Some p' \<and> \<not> tp_running p \<and> workersDone p' = 1"
proof -
  obtain p p' :: "nat ThreadPool" where p: "pool_reachable 1 1 p" "\<not> tp_running p"
    "run_ops pool_try [PWorkerReturns, PWorkerTop 0] p = Some p'" "stranded 1 p'" using pool_demo_stop by blast
  have "pool_inv 1 1 p'" using pool_reachable_run [OF p(1,3)] by (rule pool_reachable_inv)
  then have "\<not> pool_enabled ev p'" if "is_worker ev" for ev
    using that p(4) by (cases ev) (auto simp: pool_inv_def stranded_def)
  then show ?thesis using ThreadPool_stop_terminates [OF p(1-3)] p(2,3) by blast
qed

text \<open>
  C31. \<^verbatim>\<open>stop()\<close> strands callers.  Callers that wait in \<^verbatim>\<open>run()\<close> for a place in a full queue are not notified by \<^verbatim>\<open>stop()\<close>:
  when the workers are gone and the queue is full, then whatever happens later no task is accepted any more and
  every one of these callers waits forever.
\<close>

theorem ThreadPool_stop_strands:
  assumes "pool_reachable n maxSize p" "0 < n" "\<not> tp_running p" "workersDone p = n" "isFull p" "run_ops pool_try evs p = Some p'"
  shows "mq_put p' = mq_put p
    \<and> length (puttersAsleep p) + length (puttersAwake p) \<le> length (puttersAsleep p') + length (puttersAwake p')"
proof (rule stranded_run [OF assms(1) _ assms(6)])
  show "stranded n p" using assms(2-5) pool_reachable_inv [OF assms(1)] by (simp add: stranded_def pool_inv_def)
qed

theorem ThreadPool_stop_strands_witness:
  "\<exists>p p' :: nat ThreadPool. run_ops pool_try [PPutterSpurious 0, PPutterWakes 0] p = Some p' \<and> mq_put p' = [1, 2]
     \<and> puttersAsleep p = [3] \<and> 1 \<le> length (puttersAsleep p') + length (puttersAwake p')"
proof -
  obtain p0 p :: "nat ThreadPool" where p0: "pool_reachable 1 1 p0" "run_ops pool_try [PWorkerReturns, PWorkerTop 0] p0 = Some p"
    "stranded 1 p" "mq_put p = [1, 2]" "puttersAsleep p = [3]" using pool_demo_stop by blast
  have r: "pool_reachable 1 1 p" using pool_reachable_run [OF p0(1,2)] .
  have "\<exists>p'. run_ops pool_try [PPutterSpurious 0, PPutterWakes 0] p = Some p'"
    using p0(5) by (simp add: pool_try_def notFull_notify_def remove_nth_def Let_def)
  then obtain p' where p': "run_ops pool_try [PPutterSpurious 0, PPutterWakes 0] p = Some p'" by blast
  have "mq_put p' = [1, 2] \<and> 1 \<le> length (puttersAsleep p') + length (puttersAwake p')"
    using ThreadPool_stop_strands [OF r _ _ _ _ p'] p0(3-5) by (simp add: stranded_def)
  then show ?thesis using p' p0(5) by blast
qed

end
