(* ===== verification/Net_ProtobufCodec.thy ===== *)
theory Net_ProtobufCodec
  imports Net_Buffer
begin

section \<open>Framing protobuf messages\<close>

text \<open>
  \<^verbatim>\<open>muduo/net/protobuf/ProtobufCodecLite.cc\<close>: messages with a length, a tag and a checksum on a byte stream.

  Serialisation and parsing of a message belong to the protobuf library and \<^verbatim>\<open>adler32\<close> to zlib; they are the
  parameters in the record \<open>proto\<close>.  The calls of the user's callbacks are returned as a list.
\<close>

record 'm proto =
  adler32 :: "char list \<Rightarrow> 32 word"
  serialize :: "'m \<Rightarrow> char list"
  parseArray :: "char list \<Rightarrow> 'm option"

definition kHeaderLen :: int where "kHeaderLen = 4"
definition kChecksumLen :: int where "kChecksumLen = 4"
definition kMaxMessageLen :: int where "kMaxMessageLen = 64 * 1024 * 1024"

datatype ErrorCode = kNoError | kInvalidLength | kCheckSumError | kInvalidNameLen | kUnknownMessageType | kParseError

definition errorCodeToString :: "ErrorCode \<Rightarrow> string" where
  "errorCodeToString errorCode = (case errorCode of
      kNoError \<Rightarrow> ''NoError''
    | kInvalidLength \<Rightarrow> ''InvalidLength''
    | kCheckSumError \<Rightarrow> ''CheckSumError''
    | kInvalidNameLen \<Rightarrow> ''InvalidNameLen''
    | kUnknownMessageType \<Rightarrow> ''UnknownMessageType''
    | kParseError \<Rightarrow> ''ParseError'')"

text \<open>\<open>rawCb\<close> is \<open>None\<close> for an empty function.\<close>

record ProtobufCodecLite =
  codec_tag :: string
  rawCb :: "(char list \<Rightarrow> bool) option"
  kMinMessageLen :: int

definition ProtobufCodecLite_new :: "string \<Rightarrow> (char list \<Rightarrow> bool) option \<Rightarrow> ProtobufCodecLite" where
  "ProtobufCodecLite_new tagArg raw = \<lparr>codec_tag = tagArg, rawCb = raw, kMinMessageLen = int (length tagArg) + kChecksumLen\<rparr>"

subsection \<open>Sending\<close>

definition serializeToBuffer :: "'m proto \<Rightarrow> 'm \<Rightarrow> Buffer \<Rightarrow> (nat \<times> Buffer) option" where
  "serializeToBuffer P message b = do {
     let byte_size = length (serialize P message);
     b \<leftarrow> ensureWritableBytes (byte_size + nat kChecksumLen) b;
     let b = b\<lparr>buffer := copy_to (serialize P message) (beginWrite b) (buffer b)\<rparr>;
     b \<leftarrow> hasWritten byte_size b;
     Some (byte_size, b)
   }"

definition codec_checksum :: "'m proto \<Rightarrow> char list \<Rightarrow> 32 word" where
  "codec_checksum P d = adler32 P d"

definition fillEmptyBuffer :: "endianness \<Rightarrow> 'm proto \<Rightarrow> ProtobufCodecLite \<Rightarrow> 'm \<Rightarrow> Buffer \<Rightarrow> Buffer option" where
  "fillEmptyBuffer e P C message b = do {
     cassert (readableBytes b = 0);
     b \<leftarrow> Buffer_append_piece (StringPiece_of_string (codec_tag C)) b;
     (byte_size, b) \<leftarrow> serializeToBuffer P message b;
     let checkSum = codec_checksum P (Buffer_contents b);
     b \<leftarrow> appendInt32 e checkSum b;
     cassert (readableBytes b = length (codec_tag C) + byte_size + nat kChecksumLen);
     let len = hostToNetwork32 e (of_nat (readableBytes b));
     prepend (word_to_mem e len) b
   }"

subsection \<open>Receiving\<close>

definition asInt32 :: "endianness \<Rightarrow> char list \<Rightarrow> 32 word" where
  "asInt32 e d = networkToHost32 e (mem_to_word e (take 4 d))"

text \<open>\<open>d\<close> is the range of \<open>len\<close> bytes at \<^verbatim>\<open>buf\<close>.\<close>

definition validateChecksum :: "endianness \<Rightarrow> 'm proto \<Rightarrow> char list \<Rightarrow> bool" where
  "validateChecksum e P d =
     (let expectedCheckSum = asInt32 e (drop (length d - nat kChecksumLen) d);
          checkSum = codec_checksum P (take (length d - nat kChecksumLen) d)
      in checkSum = expectedCheckSum)"

definition codec_parse :: "endianness \<Rightarrow> 'm proto \<Rightarrow> ProtobufCodecLite \<Rightarrow> char list \<Rightarrow> ErrorCode + 'm" where
  "codec_parse e P C d =
     (if validateChecksum e P d
      then (if take (length (codec_tag C)) d = codec_tag C
            then (let dataLen = length d - nat kChecksumLen - length (codec_tag C)
                  in case parseArray P (take dataLen (drop (length (codec_tag C)) d)) of
                       Some message \<Rightarrow> Inr message
                     | None \<Rightarrow> Inl kParseError)
            else Inl kUnknownMessageType)
      else Inl kCheckSumError)"

datatype 'm codec_call = MessageCallback 'm | ErrorCallback ErrorCode

definition raw_rejects :: "ProtobufCodecLite \<Rightarrow> char list \<Rightarrow> bool" where
  "raw_rejects C d = (case rawCb C of None \<Rightarrow> False | Some cb \<Rightarrow> \<not> cb d)"

partial_function (option) codec_onMessage ::
  "endianness \<Rightarrow> 'm proto \<Rightarrow> ProtobufCodecLite \<Rightarrow> Buffer \<Rightarrow> ('m codec_call list \<times> Buffer) option"
where
  "codec_onMessage e P C b =
     (if int (readableBytes b) \<ge> kMinMessageLen C + kHeaderLen
      then do {
        len \<leftarrow> map_option sint (peekInt32 e b);
        (if len > kMaxMessageLen \<or> len < kMinMessageLen C then Some ([ErrorCallback kInvalidLength], b)
         else if int (readableBytes b) \<ge> kHeaderLen + len
         then (let d = take (nat (kHeaderLen + len)) (drop (Buffer_peek b) (buffer b))
               in if raw_rejects C d
                  then do {
                    b \<leftarrow> retrieve (nat (kHeaderLen + len)) b;
                    codec_onMessage e P C b
                  }
                  else (case codec_parse e P C (drop (nat kHeaderLen) d) of
                      Inr message \<Rightarrow> do {
                        b \<leftarrow> retrieve (nat (kHeaderLen + len)) b;
                        (calls, b) \<leftarrow> codec_onMessage e P C b;
                        Some (MessageCallback message # calls, b)
                      }
                    | Inl errorCode \<Rightarrow> Some ([ErrorCallback errorCode], b)))
         else Some ([], b))
      }
      else Some ([], b))"

subsection \<open>A specification on byte strings\<close>

definition be_word32 :: "char list \<Rightarrow> 32 word" where
  "be_word32 cs = of_nat (le_value (rev cs))"

definition frame_body :: "'m proto \<Rightarrow> string \<Rightarrow> 'm \<Rightarrow> char list" where
  "frame_body P tag m = tag @ serialize P m @ be_bytes (adler32 P (tag @ serialize P m))"

definition frame :: "'m proto \<Rightarrow> string \<Rightarrow> 'm \<Rightarrow> char list" where
  "frame P tag m = be_bytes (of_nat (length (frame_body P tag m)) :: 32 word) @ frame_body P tag m"

text \<open>What the beginning of a byte string holds.\<close>

datatype 'm next_frame = Wait | Bad ErrorCode | Skip nat | Got 'm nat

definition next_frame :: "'m proto \<Rightarrow> ProtobufCodecLite \<Rightarrow> char list \<Rightarrow> 'm next_frame" where
  "next_frame P C bs =
     (let len = sint (be_word32 (take 4 bs)); n = nat (4 + len)
      in if int (length bs) < kMinMessageLen C + 4 then Wait
         else if len > kMaxMessageLen \<or> len < kMinMessageLen C then Bad kInvalidLength
         else if length bs < n then Wait
         else if raw_rejects C (take n bs) then Skip n
         else (case codec_parse BigEndian P C (drop 4 (take n bs)) of Inr m \<Rightarrow> Got m n | Inl err \<Rightarrow> Bad err))"

definition codec_ok :: "ProtobufCodecLite \<Rightarrow> bool" where
  "codec_ok C \<longleftrightarrow> 4 \<le> kMinMessageLen C"

lemma next_frame_bounds:
  assumes "codec_ok C"
  shows "next_frame P C bs = Skip n \<Longrightarrow> 8 \<le> n \<and> n \<le> length bs" "next_frame P C bs = Got m n \<Longrightarrow> 8 \<le> n \<and> n \<le> length bs"
  using assms by (auto simp: next_frame_def codec_ok_def Let_def split: if_splits sum.splits)

lemma next_frame_append:
  assumes "codec_ok C" "next_frame P C bs \<noteq> Wait"
  shows "next_frame P C (bs @ ys) = next_frame P C bs"
proof -
  let ?len = "sint (be_word32 (take 4 bs))"
  have room: "\<not> int (length bs) < kMinMessageLen C + 4" using assms(2) by (auto simp: next_frame_def Let_def)
  then have t: "take 4 (bs @ ys) = take 4 bs" using assms(1) by (simp add: codec_ok_def)
  show ?thesis
  proof (cases "?len > kMaxMessageLen \<or> ?len < kMinMessageLen C")
    case True
    then show ?thesis using room by (simp only: next_frame_def Let_def t) simp
  next
    case False
    then have n: "\<not> length bs < nat (4 + ?len)" using assms(2) room by (simp only: next_frame_def Let_def) (meson)
    then have "take (nat (4 + ?len)) (bs @ ys) = take (nat (4 + ?len)) bs" by simp
    then show ?thesis using room n False by (simp only: next_frame_def Let_def t) simp
  qed
qed

function decode :: "'m proto \<Rightarrow> ProtobufCodecLite \<Rightarrow> char list \<Rightarrow> 'm codec_call list \<times> char list" where
  "decode P C bs =
     (if codec_ok C
      then (case next_frame P C bs of
          Wait \<Rightarrow> ([], bs)
        | Bad err \<Rightarrow> ([ErrorCallback err], bs)
        | Skip n \<Rightarrow> decode P C (drop n bs)
        | Got m n \<Rightarrow> (let (calls, rest) = decode P C (drop n bs) in (MessageCallback m # calls, rest)))
      else ([], bs))"
  by auto
termination
proof (relation "measure (\<lambda>(P, C, bs). length bs)")
  fix P :: "'m proto" and C bs n
  assume "codec_ok C" "next_frame P C bs = Skip n"
  then show "((P, C, drop n bs), P, C, bs) \<in> measure (\<lambda>(P, C, bs). length bs)"
    using next_frame_bounds(1) [of C P bs n] by auto
next
  fix P :: "'m proto" and C bs m n
  assume "codec_ok C" "next_frame P C bs = Got m n"
  then show "((P, C, drop n bs), P, C, bs) \<in> measure (\<lambda>(P, C, bs). length bs)"
    using next_frame_bounds(2) [of C P bs m n] by auto
qed simp

declare decode.simps [simp del]

lemma be_word32_bytes [simp]: "be_word32 (be_bytes w) = w"
  by (simp add: be_word32_def be_bytes_def le_value_le_bytes)

lemma be_bytes_word32: "length cs = 4 \<Longrightarrow> be_bytes (be_word32 cs) = cs"
  using le_bytes_le_value [of "rev cs", where 'a = 32] by (simp add: be_word32_def be_bytes_def)

lemma peekInt32_word:
  assumes "Buffer_ok b" "4 \<le> length (Buffer_contents b)"
  shows "peekInt32 e b = Some (be_word32 (take 4 (Buffer_contents b)))"
proof (rule peek_ints(2) [OF assms(1)])
  have "length (take 4 (Buffer_contents b)) = 4" using assms(2) by simp
  then have "be_bytes (be_word32 (take 4 (Buffer_contents b))) = take 4 (Buffer_contents b)" by (rule be_bytes_word32)
  then show "Buffer_contents b = be_bytes (be_word32 (take 4 (Buffer_contents b))) @ drop 4 (Buffer_contents b)" by simp
qed

lemma asInt32_word:
  assumes "length (take 4 d) = 4"
  shows "asInt32 e d = be_word32 (take 4 d)"
proof -
  have "asInt32 e d = networkToHost32 e (mem_to_word e (be_bytes (be_word32 (take 4 d))))"
    using be_bytes_word32 [OF assms] by (simp add: asInt32_def)
  then show ?thesis by (simp add: endian_defs word_bytes)
qed

lemma codec_parse_host: "4 \<le> length d \<Longrightarrow> codec_parse e P C d = codec_parse BigEndian P C d"
  by (simp add: codec_parse_def validateChecksum_def asInt32_word kChecksumLen_def)

subsection \<open>The loop implements the specification\<close>

lemma onMessage_step:
  assumes "Buffer_ok b" "codec_ok C"
  shows "codec_onMessage e P C b = (case next_frame P C (Buffer_contents b) of
      Wait \<Rightarrow> Some ([], b)
    | Bad err \<Rightarrow> Some ([ErrorCallback err], b)
    | Skip n \<Rightarrow> do { b \<leftarrow> retrieve n b; codec_onMessage e P C b }
    | Got m n \<Rightarrow> do {
        b \<leftarrow> retrieve n b;
        (calls, b) \<leftarrow> codec_onMessage e P C b;
        Some (MessageCallback m # calls, b)
      })"
proof -
  let ?bs = "Buffer_contents b"
  have r: "readableBytes b = length ?bs" using assms(1) by (simp add: Buffer_ok_inv)
  show ?thesis
  proof (cases "int (length ?bs) < kMinMessageLen C + 4")
    case True
    then show ?thesis by (subst codec_onMessage.simps) (simp add: r next_frame_def kHeaderLen_def)
  next
    case False
    let ?len = "sint (be_word32 (take 4 ?bs))"
    have peek: "peekInt32 e b = Some (be_word32 (take 4 ?bs))"
      using peekInt32_word [OF assms(1)] False assms(2) by (simp add: codec_ok_def)
    have kmin: "4 \<le> kMinMessageLen C" using assms(2) by (simp add: codec_ok_def)
    show ?thesis
    proof (cases "?len > kMaxMessageLen \<or> ?len < kMinMessageLen C")
      case True
      have "next_frame P C ?bs = Bad kInvalidLength" using True False by (simp only: next_frame_def Let_def if_False if_True)
      then show ?thesis using False peek r True by (subst codec_onMessage.simps) (simp add: kHeaderLen_def)
    next
      case valid: False
      show ?thesis
      proof (cases "length ?bs < nat (4 + ?len)")
        case True
        have "next_frame P C ?bs = Wait" using True valid False by (simp only: next_frame_def Let_def if_False if_True)
        moreover have "\<not> 4 + ?len \<le> int (length ?bs)" using True by linarith
        ultimately show ?thesis using False peek r valid by (subst codec_onMessage.simps) (simp add: kHeaderLen_def)
      next
        case fits: False
        let ?d = "take (nat (4 + ?len)) ?bs"
        have d: "take (nat (4 + ?len)) (drop (Buffer_peek b) (buffer b)) = ?d"
          using take_contents [OF Buffer_ok_inv [OF assms(1)], of "nat (4 + ?len)"] fits r by simp
        have host: "codec_parse e P C (drop 4 ?d) = codec_parse BigEndian P C (drop 4 ?d)"
          using fits valid kmin by (intro codec_parse_host) (simp, linarith)
        have nf: "next_frame P C ?bs = (if raw_rejects C ?d then Skip (nat (4 + ?len))
            else (case codec_parse BigEndian P C (drop 4 ?d) of Inr m \<Rightarrow> Got m (nat (4 + ?len)) | Inl err \<Rightarrow> Bad err))"
          using fits valid False by (simp only: next_frame_def Let_def if_False)
        have "4 + ?len \<le> int (length ?bs)" using fits by linarith
        then show ?thesis unfolding nf using False peek r valid d host
          by (subst codec_onMessage.simps) (simp add: kHeaderLen_def Let_def split: sum.split)
      qed
    qed
  qed
qed

lemma onMessage_decode:
  assumes "Buffer_ok b" "codec_ok C"
  shows "\<exists>b'. codec_onMessage e P C b = Some (fst (decode P C (Buffer_contents b)), b') \<and> Buffer_ok b'
    \<and> Buffer_contents b' = snd (decode P C (Buffer_contents b))"
  using assms
proof (induction P C "Buffer_contents b" arbitrary: b rule: decode.induct)
  case (1 P C)
  let ?bs = "Buffer_contents b"
  show ?case
  proof (cases "next_frame P C ?bs")
    case (Skip n)
    obtain b1 where b1: "retrieve n b = Some b1" "Buffer_ok b1" "Buffer_contents b1 = drop n ?bs"
      using retrieve_ok [OF "1.prems"(1), of n] next_frame_bounds(1) [OF "1.prems"(2) Skip] by auto
    then show ?thesis
      using "1.hyps"(1) [OF "1.prems"(2) Skip b1(3) [symmetric] b1(2)] "1.prems" Skip onMessage_step [OF "1.prems", of e P]
      by (simp add: decode.simps [of P C ?bs])
  next
    case (Got m n)
    obtain b1 where b1: "retrieve n b = Some b1" "Buffer_ok b1" "Buffer_contents b1 = drop n ?bs"
      using retrieve_ok [OF "1.prems"(1), of n] next_frame_bounds(2) [OF "1.prems"(2) Got] by auto
    then show ?thesis
      using "1.hyps"(2) [OF "1.prems"(2) Got b1(3) [symmetric] b1(2)] "1.prems" Got onMessage_step [OF "1.prems", of e P]
      by (auto simp: decode.simps [of P C ?bs] split: prod.splits)
  qed (use "1.prems" onMessage_step [OF "1.prems", of e P] in \<open>simp_all add: decode.simps [of P C ?bs]\<close>)
qed

subsection \<open>Deliveries\<close>

fun codec_feed :: "endianness \<Rightarrow> 'm proto \<Rightarrow> ProtobufCodecLite \<Rightarrow> char list list \<Rightarrow> Buffer \<Rightarrow> ('m codec_call list \<times> Buffer) option" where
  "codec_feed e P C [] b = Some ([], b)"
| "codec_feed e P C (d # ds) b = do {
     b \<leftarrow> Buffer_append d b;
     (calls, b) \<leftarrow> codec_onMessage e P C b;
     (calls', b) \<leftarrow> codec_feed e P C ds b;
     Some (calls @ calls', b)
   }"

fun is_error :: "'m codec_call \<Rightarrow> bool" where
  "is_error (ErrorCallback _) = True"
| "is_error (MessageCallback _) = False"

lemma decode_append:
  assumes "codec_ok C" "list_all (\<lambda>c. \<not> is_error c) (fst (decode P C bs))"
  shows "decode P C (bs @ ys) =
    (fst (decode P C bs) @ fst (decode P C (snd (decode P C bs) @ ys)), snd (decode P C (snd (decode P C bs) @ ys)))"
  using assms
proof (induction P C bs rule: decode.induct)
  case (1 P C bs)
  note app = next_frame_append [OF "1.prems"(1), of P bs ys]
  show ?case
  proof (cases "next_frame P C bs")
    case Wait
    then show ?thesis using "1.prems"(1) by (simp add: decode.simps [of P C bs])
  next
    case (Bad err)
    then show ?thesis using "1.prems" by (simp add: decode.simps [of P C bs])
  next
    case (Skip n)
    have "n \<le> length bs" using next_frame_bounds(1) [OF "1.prems"(1) Skip] by simp
    then show ?thesis using "1.IH"(1) [OF "1.prems"(1) Skip "1.prems"(1)] "1.prems" Skip app
      by (simp add: decode.simps [of P C bs] decode.simps [of P C "bs @ ys"])
  next
    case (Got m n)
    have "n \<le> length bs" using next_frame_bounds(2) [OF "1.prems"(1) Got] by simp
    then show ?thesis using "1.IH"(2) [OF "1.prems"(1) Got "1.prems"(1)] "1.prems" Got app
      by (simp add: decode.simps [of P C bs] decode.simps [of P C "bs @ ys"] split_beta)
  qed
qed

lemma decode_prefix_ok:
  assumes "codec_ok C" "list_all (\<lambda>c. \<not> is_error c) (fst (decode P C (bs @ ys)))"
  shows "list_all (\<lambda>c. \<not> is_error c) (fst (decode P C bs))"
  using assms
proof (induction P C bs rule: decode.induct)
  case (1 P C bs)
  note app = next_frame_append [OF "1.prems"(1), of P bs ys]
  show ?case
  proof (cases "next_frame P C bs")
    case (Skip n)
    have "n \<le> length bs" using next_frame_bounds(1) [OF "1.prems"(1) Skip] by simp
    then show ?thesis using "1.IH"(1) [OF "1.prems"(1) Skip "1.prems"(1)] "1.prems" Skip app
      by (simp add: decode.simps [of P C bs] decode.simps [of P C "bs @ ys"])
  next
    case (Got m n)
    have "n \<le> length bs" using next_frame_bounds(2) [OF "1.prems"(1) Got] by simp
    then show ?thesis using "1.IH"(2) [OF "1.prems"(1) Got "1.prems"(1)] "1.prems" Got app
      by (simp add: decode.simps [of P C bs] decode.simps [of P C "bs @ ys"] split_beta)
  qed (use "1.prems" app in \<open>simp_all add: decode.simps [of P C bs] decode.simps [of P C "bs @ ys"]\<close>)
qed

lemma decode_rest:
  assumes "codec_ok C" "list_all (\<lambda>c. \<not> is_error c) (fst (decode P C bs))"
  shows "next_frame P C (snd (decode P C bs)) = Wait"
  using assms
proof (induction P C bs rule: decode.induct)
  case (1 P C bs)
  show ?case
  proof (cases "next_frame P C bs")
    case (Skip n)
    then show ?thesis using "1.IH"(1) [OF "1.prems"(1) Skip "1.prems"(1)] "1.prems" by (simp add: decode.simps [of P C bs])
  next
    case (Got m n)
    then show ?thesis using "1.IH"(2) [OF "1.prems"(1) Got "1.prems"(1)] "1.prems"
      by (simp add: decode.simps [of P C bs] split_beta)
  qed (use "1.prems" in \<open>simp_all add: decode.simps [of P C bs]\<close>)
qed

lemma codec_feed_decode:
  assumes "Buffer_ok b" "codec_ok C" "next_frame P C (Buffer_contents b) = Wait"
    and "list_all (\<lambda>c. \<not> is_error c) (fst (decode P C (Buffer_contents b @ concat ds)))"
  shows "\<exists>b'. codec_feed e P C ds b = Some (fst (decode P C (Buffer_contents b @ concat ds)), b')
    \<and> Buffer_contents b' = snd (decode P C (Buffer_contents b @ concat ds))"
  using assms
proof (induction ds arbitrary: b)
  case Nil
  then show ?case by (simp add: decode.simps [of P C "Buffer_contents b"])
next
  case (Cons d ds)
  let ?bs = "Buffer_contents b @ d"
  obtain b1 where b1: "Buffer_append d b = Some b1" "Buffer_ok b1" "Buffer_contents b1 = ?bs"
    using buf.enq_law [OF Cons.prems(1), of d] by auto
  obtain b2 where b2: "codec_onMessage e P C b1 = Some (fst (decode P C ?bs), b2)" "Buffer_ok b2"
    "Buffer_contents b2 = snd (decode P C ?bs)"
    using onMessage_decode [OF b1(2) Cons.prems(2), of e P] b1(3) by auto
  have ok: "list_all (\<lambda>c. \<not> is_error c) (fst (decode P C ?bs))"
    using decode_prefix_ok [OF Cons.prems(2), of P ?bs "concat ds"] Cons.prems(4) by simp
  note app = decode_append [OF Cons.prems(2) ok, of "concat ds"]
  have "next_frame P C (Buffer_contents b2) = Wait"
    using decode_rest [OF Cons.prems(2) ok] b2(3) by simp
  then show ?case using Cons.IH [OF b2(2) Cons.prems(2)] b1 b2 app Cons.prems(4) by auto
qed

subsection \<open>Frames\<close>

definition sendable :: "'m proto \<Rightarrow> ProtobufCodecLite \<Rightarrow> 'm \<Rightarrow> bool" where
  "sendable P C m \<longleftrightarrow> parseArray P (serialize P m) = Some m \<and> \<not> raw_rejects C (frame P (codec_tag C) m)
     \<and> int (length (frame_body P (codec_tag C) m)) \<le> kMaxMessageLen"

lemma length_frame_body: "length (frame_body P tag m) = length tag + length (serialize P m) + 4"
  by (simp add: frame_body_def)

lemma codec_parse_body:
  assumes "parseArray P (serialize P m) = Some m"
  shows "codec_parse e P (ProtobufCodecLite_new tag raw) (frame_body P tag m) = Inr m"
proof -
  let ?c = "be_bytes (adler32 P (tag @ serialize P m))"
  have "drop (length (frame_body P tag m) - 4) (frame_body P tag m) = ?c" "take (length (frame_body P tag m) - 4) (frame_body P tag m) = tag @ serialize P m"
    by (simp_all add: frame_body_def)
  moreover have "asInt32 e ?c = adler32 P (tag @ serialize P m)" using asInt32_word [of ?c e] by simp
  ultimately have "validateChecksum e P (frame_body P tag m)"
    by (simp add: validateChecksum_def codec_checksum_def kChecksumLen_def)
  then show ?thesis using assms by (simp add: codec_parse_def ProtobufCodecLite_new_def kChecksumLen_def length_frame_body)
      (simp add: frame_body_def)
qed

lemma next_frame_frame:
  assumes "sendable P (ProtobufCodecLite_new tag raw) m"
  shows "next_frame P (ProtobufCodecLite_new tag raw) (frame P tag m @ rest) = Got m (length (frame P tag m))"
proof -
  let ?C = "ProtobufCodecLite_new tag raw" and ?n = "length (frame_body P tag m)"
  have n: "int ?n \<le> kMaxMessageLen" "parseArray P (serialize P m) = Some m" "\<not> raw_rejects ?C (frame P tag m)"
    using assms by (simp_all add: sendable_def ProtobufCodecLite_new_def)
  then have "?n < 2 ^ 31" by (simp add: kMaxMessageLen_def)
  then have len: "sint (be_word32 (take 4 (frame P tag m @ rest))) = int ?n"
    using size_to_int_small [of ?n] by (simp add: frame_def size_to_int_def)
  have f: "length (frame P tag m) = 4 + ?n" by (simp add: frame_def)
  have t: "take (4 + ?n) (frame P tag m @ rest) = frame P tag m" "drop 4 (frame P tag m) = frame_body P tag m"
    by (simp_all add: f) (simp add: frame_def)
  have min: "kMinMessageLen ?C \<le> int ?n" by (simp add: ProtobufCodecLite_new_def kChecksumLen_def length_frame_body)
  have nat: "nat (4 + int ?n) = 4 + ?n" by simp
  show ?thesis
    unfolding next_frame_def Let_def len nat t codec_parse_body [OF n(2)] using n min f by simp
qed

lemma decode_frames:
  assumes "\<forall>m \<in> set ms. sendable P (ProtobufCodecLite_new tag raw) m"
  shows "decode P (ProtobufCodecLite_new tag raw) (concat (map (frame P tag) ms)) = (map MessageCallback ms, [])"
  using assms
proof (induction ms)
  case Nil
  have "codec_ok (ProtobufCodecLite_new tag raw)" "next_frame P (ProtobufCodecLite_new tag raw) [] = Wait"
    by (simp_all add: codec_ok_def ProtobufCodecLite_new_def kChecksumLen_def next_frame_def)
  then show ?case by (simp add: decode.simps [of P _ "[]"])
next
  case (Cons m ms)
  have "codec_ok (ProtobufCodecLite_new tag raw)" by (simp add: codec_ok_def ProtobufCodecLite_new_def kChecksumLen_def)
  then show ?case using Cons next_frame_frame [of P tag raw m "concat (map (frame P tag) ms)"]
    by (simp add: decode.simps [of P _ "frame P tag m @ _"])
qed

lemma serializeToBuffer_ok:
  assumes "Buffer_ok b" "kCheapPrepend \<le> readerIndex b"
  shows "\<exists>b'. serializeToBuffer P m b = Some (length (serialize P m), b') \<and> Buffer_ok b'
    \<and> Buffer_contents b' = Buffer_contents b @ serialize P m \<and> kCheapPrepend \<le> readerIndex b'"
proof -
  obtain b1 where b1: "ensureWritableBytes (length (serialize P m) + 4) b = Some b1" "Buffer_ok b1"
    "Buffer_contents b1 = Buffer_contents b" "length (serialize P m) + 4 \<le> writableBytes b1" "kCheapPrepend \<le> readerIndex b1"
    using ensureWritableBytes_ok [OF assms(1), of "length (serialize P m) + 4"] assms(2) by blast
  have w: "length (serialize P m) \<le> writableBytes b1" using b1(4) by simp
  then have "length (copy_to (serialize P m) (writerIndex b1) (buffer b1)) = length (buffer b1)"
    using b1(2) by (intro length_copy_to) (auto simp: Buffer_ok_def Buffer_inv_def writableBytes_def)
  then show ?thesis using b1 write_at_end [OF b1(2) w] w
    by (simp add: serializeToBuffer_def hasWritten_def beginWrite_def kChecksumLen_def writableBytes_def Let_def)
qed

lemma fillEmptyBuffer_frame:
  assumes "length tag < 2 ^ 31"
  shows "\<exists>b. fillEmptyBuffer e P (ProtobufCodecLite_new tag raw) m (Buffer_new k) = Some b \<and> Buffer_contents b = frame P tag m"
proof -
  have new: "Buffer_contents (Buffer_new k) = []" "readableBytes (Buffer_new k) = 0" "kCheapPrepend \<le> readerIndex (Buffer_new k)"
    using Buffer_new_ok [of k] by (auto simp: readableBytes_0_iff prependableBytes_def)
  obtain b1 where b1: "Buffer_append tag (Buffer_new k) = Some b1" "Buffer_ok b1" "Buffer_contents b1 = tag" "kCheapPrepend \<le> readerIndex b1"
    using Buffer_append_ok [OF Buffer_ok_new, of tag k] new by auto
  obtain b2 where b2: "serializeToBuffer P m b1 = Some (length (serialize P m), b2)" "Buffer_ok b2"
    "Buffer_contents b2 = tag @ serialize P m" "kCheapPrepend \<le> readerIndex b2"
    using serializeToBuffer_ok [OF b1(2,4), of P m] b1(3) by auto
  obtain b3 where b3: "appendInt32 e (adler32 P (tag @ serialize P m)) b2 = Some b3" "Buffer_ok b3"
    "Buffer_contents b3 = frame_body P tag m" "kCheapPrepend \<le> readerIndex b3"
    using Buffer_append_ok [OF b2(2), of "be_bytes (adler32 P (tag @ serialize P m))"] b2(3,4)
    by (auto simp: append_ints_eq frame_body_def)
  have r: "readableBytes b3 = length (frame_body P tag m)" using b3(2,3) by (metis Buffer_ok_inv length_contents)
  have "length (be_bytes (of_nat (readableBytes b3) :: 32 word)) \<le> prependableBytes b3"
    using b3(4) by (simp add: prependableBytes_def kCheapPrepend_def)
  then obtain b4 where "prepend (be_bytes (of_nat (readableBytes b3) :: 32 word)) b3 = Some b4"
    "Buffer_contents b4 = frame P tag m" using prepend_ok [OF b3(2)] b3(3) r by (metis frame_def)
  then show ?thesis using b1(1) b2(1,3) b3(1) new(2) r assms
    by (simp add: fillEmptyBuffer_def Buffer_append_piece_string ProtobufCodecLite_new_def codec_checksum_def kChecksumLen_def
        length_frame_body endian_defs word_bytes)
qed

subsection \<open>Properties\<close>

text \<open>
  C32. Messages survive the wire.  Filling a buffer with a message succeeds; and when the bytes of any number of
  messages arrive cut into pieces in any way, at a host of either byte order, exactly these messages are delivered,
  in order, without an error, and nothing is left over.  It is assumed that parsing inverts serialisation, that
  the messages are within the limit of 64 megabytes, and that the raw callback does not reject them.
\<close>

theorem ProtobufCodec_roundtrip:
  assumes "length tag < 2 ^ 31" "\<forall>m \<in> set ms. sendable P (ProtobufCodecLite_new tag raw) m"
  shows "\<exists>bs. list_all2 (\<lambda>m b. fillEmptyBuffer e P (ProtobufCodecLite_new tag raw) m (Buffer_new kInitialSize) = Some b) ms bs
    \<and> (\<forall>chunks. concat chunks = concat (map Buffer_contents bs) \<longrightarrow>
        (\<exists>b'. codec_feed e' P (ProtobufCodecLite_new tag raw) chunks (Buffer_new k) = Some (map MessageCallback ms, b')
           \<and> Buffer_contents b' = []))"
proof -
  let ?C = "ProtobufCodecLite_new tag raw"
  have C: "codec_ok ?C" by (simp add: codec_ok_def ProtobufCodecLite_new_def kChecksumLen_def)
  have "\<exists>bs. list_all2 (\<lambda>m b. fillEmptyBuffer e P ?C m (Buffer_new kInitialSize) = Some b \<and> Buffer_contents b = frame P tag m) ms bs"
  proof (induction ms)
    case (Cons m ms)
    obtain b where "fillEmptyBuffer e P ?C m (Buffer_new kInitialSize) = Some b" "Buffer_contents b = frame P tag m"
      using fillEmptyBuffer_frame [OF assms(1), of e P raw m kInitialSize] by blast
    with Cons obtain bs where "list_all2 (\<lambda>m b. fillEmptyBuffer e P ?C m (Buffer_new kInitialSize) = Some b
        \<and> Buffer_contents b = frame P tag m) (m # ms) (b # bs)" by auto
    then show ?case by blast
  qed simp
  then obtain bs where bs: "list_all2 (\<lambda>m b. fillEmptyBuffer e P ?C m (Buffer_new kInitialSize) = Some b \<and> Buffer_contents b = frame P tag m) ms bs" ..
  then have wire: "map Buffer_contents bs = map (frame P tag) ms"
    by (induction rule: list_all2_induct) auto
  have new: "Buffer_contents (Buffer_new k) = []" using Buffer_new_ok by simp
  have "next_frame P ?C [] = Wait" using C by (simp add: next_frame_def codec_ok_def)
  then have "\<exists>b'. codec_feed e' P ?C chunks (Buffer_new k) = Some (map MessageCallback ms, b') \<and> Buffer_contents b' = []"
    if "concat chunks = concat (map Buffer_contents bs)" for chunks
    using codec_feed_decode [OF Buffer_ok_new C, of P k chunks e'] decode_frames [OF assms(2)] that wire new
    by (auto simp: list_all_iff)
  moreover have "list_all2 (\<lambda>m b. fillEmptyBuffer e P ?C m (Buffer_new kInitialSize) = Some b) ms bs"
    using bs by (rule list_all2_mono) blast
  ultimately show ?thesis by blast
qed

theorem ProtobufCodec_roundtrip_witness:
  "\<exists>bs. list_all2 (\<lambda>m b. fillEmptyBuffer LittleEndian \<lparr>adler32 = (\<lambda>d. of_nat (length d)), serialize = id, parseArray = Some\<rparr>
         (ProtobufCodecLite_new ''RPC0'' None) m (Buffer_new kInitialSize) = Some b) [''hello'', [], ''world''] bs
    \<and> (\<exists>b'. codec_feed BigEndian \<lparr>adler32 = (\<lambda>d. of_nat (length d)), serialize = id, parseArray = Some\<rparr>
         (ProtobufCodecLite_new ''RPC0'' None) (map (\<lambda>c. [c]) (concat (map Buffer_contents bs))) (Buffer_new 0)
       = Some (map MessageCallback [''hello'', [], ''world''], b'))"
proof -
  let ?P = "\<lparr>adler32 = (\<lambda>d. of_nat (length d)), serialize = id, parseArray = Some\<rparr>" and ?C = "ProtobufCodecLite_new ''RPC0'' None"
  have "\<forall>m \<in> set [''hello'', [], ''world'']. sendable ?P ?C m"
    by (simp add: sendable_def raw_rejects_def ProtobufCodecLite_new_def length_frame_body kMaxMessageLen_def)
  moreover have "concat (map (\<lambda>c. [c]) xs) = xs" for xs :: "char list" by (induction xs) auto
  ultimately show ?thesis
    using ProtobufCodec_roundtrip [of "''RPC0''" "[''hello'', [], ''world'']" ?P None LittleEndian BigEndian 0] by fastforce
qed

end
