(* ===== verification/Net_InetAddress.thy ===== *)
theory Net_InetAddress
  imports Net_Endian
begin

section \<open>Internet addresses\<close>

text \<open>
  \<^verbatim>\<open>muduo/net/InetAddress.cc\<close> and the conversions of \<^verbatim>\<open>muduo/net/SocketsOps.cc\<close>.  An \<^verbatim>\<open>InetAddress\<close> is the
  union of \<^verbatim>\<open>sockaddr_in\<close> and \<^verbatim>\<open>sockaddr_in6\<close>: family and port are at the same place in both, \<^verbatim>\<open>sin_addr\<close>
  shares its four bytes with \<^verbatim>\<open>sin6_flowinfo\<close>, and the padding \<^verbatim>\<open>sin_zero\<close> of eight bytes lies over the first
  half of \<^verbatim>\<open>sin6_addr\<close>.  Ports and IPv4 addresses are kept in network order, as in memory.

  The record \<open>inet\<close> holds \<^verbatim>\<open>inet_ntop\<close> and \<^verbatim>\<open>inet_pton\<close> of the C library for the two families, which are
  parameters.
\<close>

record InetAddress =
  sin_family :: nat
  sin_port :: "16 word"
  sin_addr :: "32 word"
  sin6_addr :: "char list"
  sin6_scope_id :: "32 word"

record inet =
  ntop4 :: "32 word \<Rightarrow> string"
  ntop6 :: "char list \<Rightarrow> string"
  pton4 :: "string \<Rightarrow> 32 word option"
  pton6 :: "string \<Rightarrow> char list option"

definition AF_INET :: nat where "AF_INET = 2"
definition AF_INET6 :: nat where "AF_INET6 = 10"
definition INET_ADDRSTRLEN :: nat where "INET_ADDRSTRLEN = 16"
definition INET6_ADDRSTRLEN :: nat where "INET6_ADDRSTRLEN = 46"

definition kInaddrAny :: "32 word" where "kInaddrAny = 0"
definition kInaddrLoopback :: "32 word" where "kInaddrLoopback = 0x7F000001"

definition in6addr_any :: "char list" where "in6addr_any = replicate 16 (CHR 0x00)"
definition in6addr_loopback :: "char list" where "in6addr_loopback = replicate 15 (CHR 0x00) @ [CHR 0x01]"

text \<open>\<^verbatim>\<open>memZero\<close> over one member of the union; the shorter one leaves the rest as it was.\<close>

definition memZero_addr :: "InetAddress \<Rightarrow> InetAddress" where
  "memZero_addr a = a\<lparr>sin_family := 0, sin_port := 0, sin_addr := 0,
     sin6_addr := replicate 8 (CHR 0x00) @ drop 8 (sin6_addr a)\<rparr>"

definition memZero_addr6 :: "InetAddress \<Rightarrow> InetAddress" where
  "memZero_addr6 a = \<lparr>sin_family = 0, sin_port = 0, sin_addr = 0,
     sin6_addr = replicate 16 (CHR 0x00), sin6_scope_id = 0\<rparr>"

text \<open>The constructors; \<open>u\<close> is the memory in which the object is made.\<close>

definition InetAddress_new :: "endianness \<Rightarrow> InetAddress \<Rightarrow> 16 word \<Rightarrow> bool \<Rightarrow> bool \<Rightarrow> InetAddress" where
  "InetAddress_new e u port loopbackOnly ipv6 =
     (if ipv6
      then (let a = (memZero_addr6 u)\<lparr>sin_family := AF_INET6\<rparr>;
                ip = (if loopbackOnly then in6addr_loopback else in6addr_any);
                a = a\<lparr>sin6_addr := ip\<rparr>
            in a\<lparr>sin_port := hostToNetwork16 e port\<rparr>)
      else (let a = (memZero_addr u)\<lparr>sin_family := AF_INET\<rparr>;
                ip = (if loopbackOnly then kInaddrLoopback else kInaddrAny);
                a = a\<lparr>sin_addr := hostToNetwork32 e ip\<rparr>
            in a\<lparr>sin_port := hostToNetwork16 e port\<rparr>))"

text \<open>\<^verbatim>\<open>inet_pton\<close> leaves its result alone when the string is not an address, which is only logged.\<close>

definition fromIpPort :: "endianness \<Rightarrow> inet \<Rightarrow> string \<Rightarrow> 16 word \<Rightarrow> InetAddress \<Rightarrow> InetAddress" where
  "fromIpPort e N ip port a =
     (let a = a\<lparr>sin_family := AF_INET, sin_port := hostToNetwork16 e port\<rparr>
      in case pton4 N ip of Some w \<Rightarrow> a\<lparr>sin_addr := w\<rparr> | None \<Rightarrow> a)"

definition fromIpPort6 :: "endianness \<Rightarrow> inet \<Rightarrow> string \<Rightarrow> 16 word \<Rightarrow> InetAddress \<Rightarrow> InetAddress" where
  "fromIpPort6 e N ip port a =
     (let a = a\<lparr>sin_family := AF_INET6, sin_port := hostToNetwork16 e port\<rparr>
      in case pton6 N ip of Some d \<Rightarrow> a\<lparr>sin6_addr := d\<rparr> | None \<Rightarrow> a)"

definition InetAddress_of_ip :: "endianness \<Rightarrow> inet \<Rightarrow> InetAddress \<Rightarrow> string \<Rightarrow> 16 word \<Rightarrow> bool \<Rightarrow> InetAddress" where
  "InetAddress_of_ip e N u ip port ipv6 =
     (if ipv6 then fromIpPort6 e N ip port (memZero_addr6 u) else fromIpPort e N ip port (memZero_addr u))"

definition InetAddress_family :: "InetAddress \<Rightarrow> nat" where
  "InetAddress_family a = sin_family a"

definition portNetEndian :: "InetAddress \<Rightarrow> 16 word" where
  "portNetEndian a = sin_port a"

definition toPort :: "endianness \<Rightarrow> InetAddress \<Rightarrow> 16 word" where
  "toPort e a = networkToHost16 e (portNetEndian a)"

definition ipNetEndian :: "InetAddress \<Rightarrow> 32 word option" where
  "ipNetEndian a = do { cassert (InetAddress_family a = AF_INET); Some (sin_addr a) }"

text \<open>
  \<^verbatim>\<open>toIp\<close> and \<^verbatim>\<open>toIpPort\<close> into an array of \<open>size\<close> characters that holds \<open>buf\<close>, up to its first zero.  An
  address that does not fit leaves the array alone.
\<close>

definition sockets_toIp :: "inet \<Rightarrow> nat \<Rightarrow> string \<Rightarrow> InetAddress \<Rightarrow> string option" where
  "sockets_toIp N sz buf a =
     (if sin_family a = AF_INET
      then do {
        cassert (sz \<ge> INET_ADDRSTRLEN);
        (let ip = ntop4 N (sin_addr a) in Some (if length ip < sz then ip else buf))
      }
      else if sin_family a = AF_INET6
      then do {
        cassert (sz \<ge> INET6_ADDRSTRLEN);
        (let ip = ntop6 N (sin6_addr a) in Some (if length ip < sz then ip else buf))
      }
      else Some buf)"

definition sockets_toIpPort :: "endianness \<Rightarrow> inet \<Rightarrow> nat \<Rightarrow> string \<Rightarrow> InetAddress \<Rightarrow> string option" where
  "sockets_toIpPort e N sz buf a = do {
     buf \<leftarrow> sockets_toIp N sz buf a;
     let e_idx = length buf;
     let port = networkToHost16 e (sin_port a);
     cassert (sz > e_idx);
     Some (buf @ snprintf (sz - e_idx) (CHR '':'' # show_nat (unat port)))
   }"

definition InetAddress_toIpPort :: "endianness \<Rightarrow> inet \<Rightarrow> InetAddress \<Rightarrow> string option" where
  "InetAddress_toIpPort e N a = sockets_toIpPort e N 64 [] a"

definition InetAddress_toIp :: "inet \<Rightarrow> InetAddress \<Rightarrow> string option" where
  "InetAddress_toIp N a = sockets_toIp N 64 [] a"

text \<open>
  \<^verbatim>\<open>gethostbyname_r\<close> is a parameter: its return value, and the type and the address of the host it found.
\<close>

record hostent =
  h_addrtype :: nat
  h_length :: nat
  h_addr :: "32 word"

definition InetAddress_resolve :: "(string \<Rightarrow> int \<times> hostent option) \<Rightarrow> string \<Rightarrow> InetAddress \<Rightarrow> (bool \<times> InetAddress) option" where
  "InetAddress_resolve gethostbyname hostname out = (case gethostbyname hostname of
      (ret, Some he) \<Rightarrow>
        (if ret = 0
         then do {
           cassert (h_addrtype he = AF_INET \<and> h_length he = 4);
           Some (True, out\<lparr>sin_addr := h_addr he\<rparr>)
         }
         else Some (False, out))
    | (ret, None) \<Rightarrow> Some (False, out))"

definition setScopeId :: "32 word \<Rightarrow> InetAddress \<Rightarrow> InetAddress" where
  "setScopeId scope_id a = (if InetAddress_family a = AF_INET6 then a\<lparr>sin6_scope_id := scope_id\<rparr> else a)"

text \<open>The addresses of the two ends come from the kernel.\<close>

definition isSelfConnect :: "InetAddress \<Rightarrow> InetAddress \<Rightarrow> bool" where
  "isSelfConnect localaddr peeraddr =
     (if sin_family localaddr = AF_INET
      then sin_port localaddr = sin_port peeraddr \<and> sin_addr localaddr = sin_addr peeraddr
      else if sin_family localaddr = AF_INET6
      then sin_port localaddr = sin_port peeraddr \<and> sin6_addr localaddr = sin6_addr peeraddr
      else False)"

lemmas af_defs = AF_INET_def AF_INET6_def INET_ADDRSTRLEN_def INET6_ADDRSTRLEN_def

subsection \<open>Printing and reading\<close>

text \<open>
  What \<^verbatim>\<open>inet_ntop(3)\<close> documents: the text of an address fits the arrays of \<^verbatim>\<open>INET_ADDRSTRLEN\<close> and
  \<^verbatim>\<open>INET6_ADDRSTRLEN\<close> characters, and has no zero in it.
\<close>

definition ntop_ok :: "inet \<Rightarrow> bool" where
  "ntop_ok N \<longleftrightarrow> (\<forall>w. length (ntop4 N w) < INET_ADDRSTRLEN \<and> CHR 0x00 \<notin> set (ntop4 N w))
     \<and> (\<forall>d. length (ntop6 N d) < INET6_ADDRSTRLEN \<and> CHR 0x00 \<notin> set (ntop6 N d))"

definition ip_text :: "inet \<Rightarrow> InetAddress \<Rightarrow> string" where
  "ip_text N a = (if sin_family a = AF_INET then ntop4 N (sin_addr a)
     else if sin_family a = AF_INET6 then ntop6 N (sin6_addr a) else [])"

lemma length_ip_text: "ntop_ok N \<Longrightarrow> length (ip_text N a) \<le> 45"
  by (auto simp: ip_text_def ntop_ok_def af_defs less_Suc_eq_le [symmetric] intro: less_trans)

lemma InetAddress_toIp_eq:
  assumes "ntop_ok N"
  shows "InetAddress_toIp N a = Some (ip_text N a)"
  using length_ip_text [OF assms, of a]
  by (cases "sin_family a = AF_INET"; cases "sin_family a = AF_INET6")
    (auto simp: InetAddress_toIp_def sockets_toIp_def ip_text_def Let_def INET_ADDRSTRLEN_def INET6_ADDRSTRLEN_def)

lemma length_show_port: "length (show_nat (unat (p :: 16 word))) \<le> 5"
proof (rule length_show_nat)
  have "unat p < 2 ^ LENGTH(16)" by (rule unsigned_less)
  then show "unat p < 10 ^ 5" by simp
qed simp

text \<open>The text of an address with its port is never cut off, and has at most 51 characters.\<close>

lemma InetAddress_toIpPort_eq:
  assumes "ntop_ok N"
  shows "InetAddress_toIpPort e N a = Some (ip_text N a @ '':'' @ show_nat (unat (toPort e a)))"
  using InetAddress_toIp_eq [OF assms, of a] length_ip_text [OF assms, of a] length_show_port [of "networkToHost16 e (sin_port a)"]
  by (simp add: InetAddress_toIpPort_def sockets_toIpPort_def InetAddress_toIp_def toPort_def portNetEndian_def Let_def)

lemma InetAddress_toIpPort_short:
  assumes "ntop_ok N" "InetAddress_toIpPort e N a = Some s"
  shows "length s \<le> 51" "CHR 0x00 \<notin> set s"
proof -
  have s: "s = ip_text N a @ '':'' @ show_nat (unat (toPort e a))"
    using assms(2) by (simp add: InetAddress_toIpPort_eq [OF assms(1)])
  then show "length s \<le> 51" using length_ip_text [OF assms(1), of a] length_show_port [of "toPort e a"] by simp
  have "CHR 0x00 \<notin> set (ip_text N a)" using assms(1) by (simp add: ip_text_def ntop_ok_def)
  moreover have "CHR 0x00 \<notin> set (show_nat n)" for n using show_nat_digits [of n] by (auto simp: is_digit_def)
  ultimately show "CHR 0x00 \<notin> set s" by (simp add: s)
qed

lemma networkToHost16_hostToNetwork16 [simp]: "networkToHost16 e (hostToNetwork16 e p) = p"
  by (cases e) (simp_all add: endian_defs betoh_def htobe_def bswap_def le_bytes_le_value le_value_le_bytes word_bytes)

lemma InetAddress_port:
  "toPort e (InetAddress_new e u port lo v6) = port" "toPort e (InetAddress_of_ip e N u ip port v6) = port"
  by (simp_all add: toPort_def portNetEndian_def InetAddress_new_def InetAddress_of_ip_def fromIpPort_def fromIpPort6_def
      Let_def split: option.splits)

text \<open>An address made from a text prints as that text, when reading and printing agree on it.\<close>

lemma InetAddress_of_ip_toIpPort:
  assumes "ntop_ok N" "if v6 then map_option (ntop6 N) (pton6 N ip) = Some ip else map_option (ntop4 N) (pton4 N ip) = Some ip"
  shows "InetAddress_toIpPort e N (InetAddress_of_ip e N u ip port v6) = Some (ip @ '':'' @ show_nat (unat port))"
proof -
  have "ip_text N (InetAddress_of_ip e N u ip port v6) = ip"
    using assms(2) by (auto simp: InetAddress_of_ip_def fromIpPort_def fromIpPort6_def ip_text_def Let_def af_defs split: if_splits)
  then show ?thesis by (simp add: InetAddress_toIpPort_eq [OF assms(1)] InetAddress_port)
qed

text \<open>
  \<^verbatim>\<open>resolve\<close> keeps port and family as it promises; an IPv6 address it leaves as it was, although it reports
  success, because it stores into the IPv4 member.
\<close>

lemma InetAddress_resolve_keeps:
  assumes "InetAddress_resolve gethost h a = Some (ok, a')"
  shows "toPort e a' = toPort e a" "sin_family a' = sin_family a"
    "sin_family a = AF_INET6 \<Longrightarrow> ip_text N a' = ip_text N a"
    "ok \<Longrightarrow> sin_family a = AF_INET \<Longrightarrow> \<exists>he. gethost h = (0, Some he) \<and> ip_text N a' = ntop4 N (h_addr he)"
  using assms
  by (auto simp: InetAddress_resolve_def toPort_def portNetEndian_def ip_text_def af_defs cassert_def
      split: prod.splits option.splits if_splits)

end
