(* ===== verification/Net_TcpServer.thy ===== *)
theory Net_TcpServer
  imports Net_TcpConnection Net_InetAddress
begin

section \<open>The TCP server\<close>

text \<open>
  \<^verbatim>\<open>muduo/net/TcpServer.cc\<close>, \<^verbatim>\<open>Acceptor.cc\<close> and \<^verbatim>\<open>EventLoopThreadPool.cc\<close>: a server accepts connections in its
  own loop, hands each to a loop of the pool, keeps them in a map by name, and destroys each one in its
  own loop after it was closed.

  Loops are numbers: 0 is the loop of the server, \<open>i + 1\<close> that of the \<open>i\<close>-th thread of the pool.  The calls
  that one loop leaves to another wait in \<open>queues\<close>, first in first out per loop, and the loops run their
  calls in any interleaving.  \<open>heap\<close> holds the connection objects in the order of their creation; a
  pointer to a connection is its place there.
\<close>

type_synonym loop_id = nat

definition base_loop :: loop_id where "base_loop = 0"

definition thread_loop :: "nat \<Rightarrow> loop_id" where "thread_loop i = i + 1"

subsection \<open>The pool of loops\<close>

record EventLoopThreadPool =
  pool_name :: string
  pool_started :: bool
  numThreads :: int
  pool_next :: nat
  threads :: "string list"
  loops :: "loop_id list"

definition EventLoopThreadPool_new :: "string \<Rightarrow> EventLoopThreadPool" where
  "EventLoopThreadPool_new nameArg =
     \<lparr>pool_name = nameArg, pool_started = False, numThreads = 0, pool_next = 0, threads = [], loops = []\<rparr>"

definition EventLoopThreadPool_setThreadNum :: "int \<Rightarrow> EventLoopThreadPool \<Rightarrow> EventLoopThreadPool" where
  "EventLoopThreadPool_setThreadNum n p = p\<lparr>numThreads := n\<rparr>"

text \<open>One round of the loop in \<^verbatim>\<open>start\<close>: a thread with its name, and the loop that runs in it.\<close>

definition start_thread :: "nat \<Rightarrow> EventLoopThreadPool \<Rightarrow> EventLoopThreadPool" where
  "start_thread i p =
     p\<lparr>threads := threads p @ [snprintf (length (pool_name p) + 32) (c_str (pool_name p) @ show_nat i)],
       loops := loops p @ [thread_loop i]\<rparr>"

text \<open>
  \<open>cb\<close> tells whether a callback is set; the first component of the result are the loops it was called with.
  \<open>inLoop\<close> tells whether the caller is in the thread of the server's loop.
\<close>

definition EventLoopThreadPool_start :: "bool \<Rightarrow> bool \<Rightarrow> EventLoopThreadPool \<Rightarrow> (loop_id list \<times> EventLoopThreadPool) option" where
  "EventLoopThreadPool_start inLoop cb p = do {
     cassert (\<not> pool_started p);
     cassert inLoop;
     let p = p\<lparr>pool_started := True\<rparr>;
     let p = fold start_thread [0..<nat (numThreads p)] p;
     Some (if \<not> cb then [] else if numThreads p = 0 then [base_loop] else map thread_loop [0..<nat (numThreads p)], p)
   }"

definition getNextLoop :: "bool \<Rightarrow> EventLoopThreadPool \<Rightarrow> (loop_id \<times> EventLoopThreadPool) option" where
  "getNextLoop inLoop p = do {
     cassert inLoop;
     cassert (pool_started p);
     (if loops p \<noteq> []
      then do {
        loop \<leftarrow> vector_at (loops p) (pool_next p);
        let n = pool_next p + 1;
        Some (loop, p\<lparr>pool_next := (if n \<ge> length (loops p) then 0 else n)\<rparr>)
      }
      else Some (base_loop, p))
   }"

definition getLoopForHash :: "bool \<Rightarrow> nat \<Rightarrow> EventLoopThreadPool \<Rightarrow> loop_id option" where
  "getLoopForHash inLoop hashCode p = do {
     cassert inLoop;
     (if loops p \<noteq> [] then vector_at (loops p) (hashCode mod length (loops p)) else Some base_loop)
   }"

definition getAllLoops :: "bool \<Rightarrow> EventLoopThreadPool \<Rightarrow> loop_id list option" where
  "getAllLoops inLoop p = do {
     cassert inLoop;
     cassert (pool_started p);
     Some (if loops p = [] then [base_loop] else loops p)
   }"

subsection \<open>The acceptor\<close>

text \<open>
  The answers of the kernel are arguments.  \<open>closedFds\<close> records the descriptors that the acceptor closed.
  The channel is described as that of a connection, by what the poller watches for it.
\<close>

record Acceptor =
  listenning :: bool
  accInterest :: "events option"
  accRemoved :: bool
  idleFd :: int
  closedFds :: "int list"

definition Acceptor_new :: "int \<Rightarrow> int \<Rightarrow> int \<Rightarrow> Acceptor option" where
  "Acceptor_new sockfd bound openIdle = do {
     cassert (sockfd \<ge> 0);
     cassert (openIdle \<ge> 0);
     cassert (bound \<ge> 0);
     Some \<lparr>listenning = False, accInterest = None, accRemoved = False, idleFd = openIdle, closedFds = []\<rparr>
   }"

definition acc_channel :: "(events \<Rightarrow> events) \<Rightarrow> Acceptor \<Rightarrow> Acceptor option" where
  "acc_channel f a = (case accInterest a of
      Some ev \<Rightarrow> Some (a\<lparr>accInterest := Some (f ev)\<rparr>)
    | None \<Rightarrow> (if \<not> accRemoved a \<and> f 0 \<noteq> 0 then Some (a\<lparr>accInterest := Some (f 0)\<rparr>) else None))"

definition acc_close :: "int \<Rightarrow> Acceptor \<Rightarrow> Acceptor" where
  "acc_close fd a = a\<lparr>closedFds := closedFds a @ [fd]\<rparr>"

definition Acceptor_dtor :: "Acceptor \<Rightarrow> Acceptor option" where
  "Acceptor_dtor a = do {
     a \<leftarrow> acc_channel (\<lambda>_. kNoneEvent) a;
     cassert (accInterest a = Some kNoneEvent);
     Some (acc_close (idleFd a) (a\<lparr>accInterest := None, accRemoved := True\<rparr>))
   }"

definition Acceptor_listen :: "bool \<Rightarrow> int \<Rightarrow> Acceptor \<Rightarrow> Acceptor option" where
  "Acceptor_listen inLoop ret a = do {
     cassert inLoop;
     let a = a\<lparr>listenning := True\<rparr>;
     cassert (ret \<ge> 0);
     acc_channel (\<lambda>ev. ev OR kReadEvent) a
   }"

datatype accept_result = Accepted nat | AcceptError int

definition EPERM :: int where "EPERM = 1"
definition EINTR :: int where "EINTR = 4"
definition EAGAIN :: int where "EAGAIN = 11"
definition EMFILE :: int where "EMFILE = 24"
definition EPROTO :: int where "EPROTO = 71"
definition ECONNABORTED :: int where "ECONNABORTED = 103"

text \<open>\<^verbatim>\<open>sockets::accept\<close>: the descriptor and \<^verbatim>\<open>errno\<close>; an error that is not expected is fatal.\<close>

definition sockets_accept :: "accept_result \<Rightarrow> (int \<times> int) option" where
  "sockets_accept r = (case r of
      Accepted connfd \<Rightarrow> Some (int connfd, 0)
    | AcceptError savedErrno \<Rightarrow>
        (if savedErrno \<in> {EAGAIN, ECONNABORTED, EINTR, EPROTO, EPERM, EMFILE} then Some (-1, savedErrno) else None))"

text \<open>
  \<open>newConnectionCallback\<close> works on the state \<open>s\<close> of the acceptor's owner.  \<open>dropped\<close> and \<open>idle\<close> are what
  \<^verbatim>\<open>accept\<close> and \<^verbatim>\<open>open\<close> return when the process is out of descriptors.
\<close>

definition Acceptor_handleRead ::
  "(int \<Rightarrow> 's \<Rightarrow> 's option) option \<Rightarrow> accept_result \<Rightarrow> int \<Rightarrow> int \<Rightarrow> Acceptor \<Rightarrow> 's \<Rightarrow> (Acceptor \<times> 's) option" where
  "Acceptor_handleRead newConnectionCallback r dropped idle a s = do {
     (connfd, errno) \<leftarrow> sockets_accept r;
     (if connfd \<ge> 0
      then (case newConnectionCallback of
          Some cb \<Rightarrow> do { s \<leftarrow> cb connfd s; Some (a, s) }
        | None \<Rightarrow> Some (acc_close connfd a, s))
      else if errno = EMFILE
      then (let a = acc_close (idleFd a) a;
                a = a\<lparr>idleFd := dropped\<rparr>;
                a = acc_close (idleFd a) a
            in Some (a\<lparr>idleFd := idle\<rparr>, s))
      else Some (a, s))
   }"

subsection \<open>The server\<close>

datatype server_task = Establish nat | RemoveInLoop nat | Destroy nat

record server_conn =
  conn_name :: string
  conn_loop :: loop_id
  conn_fd :: int
  conn_obj :: TcpConnection

record TcpServer =
  srv_ipPort :: string
  srv_name :: string
  acceptor :: Acceptor
  threadPool :: EventLoopThreadPool
  srv_hasWriteComplete :: bool
  srv_hasThreadInit :: bool
  srv_started :: bool
  nextConnId :: int
  connections :: "(string, nat) smap"
  heap :: "server_conn list"
  queues :: "loop_id \<Rightarrow> server_task list"

text \<open>
  The constructor, with what the system calls in the acceptor's constructor return, and the two callbacks
  that are set before the server starts.
\<close>

definition TcpServer_new ::
  "endianness \<Rightarrow> inet \<Rightarrow> InetAddress \<Rightarrow> string \<Rightarrow> int \<Rightarrow> int \<Rightarrow> int \<Rightarrow> bool \<Rightarrow> bool \<Rightarrow> TcpServer option" where
  "TcpServer_new e N listenAddr nameArg sockfd bound openIdle wc ti = do {
     ipPort \<leftarrow> InetAddress_toIpPort e N listenAddr;
     acc \<leftarrow> Acceptor_new sockfd bound openIdle;
     Some \<lparr>srv_ipPort = ipPort, srv_name = nameArg, acceptor = acc,
       threadPool = EventLoopThreadPool_new nameArg, srv_hasWriteComplete = wc, srv_hasThreadInit = ti,
       srv_started = False, nextConnId = 1, connections = [], heap = [], queues = (\<lambda>_. [])\<rparr>
   }"

definition TcpServer_setThreadNum :: "int \<Rightarrow> TcpServer \<Rightarrow> TcpServer option" where
  "TcpServer_setThreadNum n s = do {
     cassert (0 \<le> n);
     Some (s\<lparr>threadPool := EventLoopThreadPool_setThreadNum n (threadPool s)\<rparr>)
   }"

text \<open>\<open>ret\<close> is what \<^verbatim>\<open>listen(2)\<close> returns.\<close>

definition TcpServer_start :: "bool \<Rightarrow> int \<Rightarrow> TcpServer \<Rightarrow> TcpServer option" where
  "TcpServer_start inLoop ret s =
     (if \<not> srv_started s
      then do {
        let s = s\<lparr>srv_started := True\<rparr>;
        (called, p) \<leftarrow> EventLoopThreadPool_start inLoop (srv_hasThreadInit s) (threadPool s);
        let s = s\<lparr>threadPool := p\<rparr>;
        cassert (\<not> listenning (acceptor s));
        a \<leftarrow> Acceptor_listen inLoop ret (acceptor s);
        Some (s\<lparr>acceptor := a\<rparr>)
      }
      else Some s)"

definition queue_task :: "loop_id \<Rightarrow> server_task \<Rightarrow> TcpServer \<Rightarrow> TcpServer" where
  "queue_task l t s = s\<lparr>queues := (queues s)(l := queues s l @ [t])\<rparr>"

text \<open>A handler of connection \<open>i\<close> that cannot close it.\<close>

definition conn_apply :: "(nat \<Rightarrow> write_oracle) \<Rightarrow> (nat \<Rightarrow> conn_callbacks) \<Rightarrow> conn_event \<Rightarrow> nat \<Rightarrow> TcpServer \<Rightarrow> TcpServer option" where
  "conn_apply wr cb ev i s = do {
     c \<leftarrow> conn_step (wr i) (cb i) ev (conn_obj (heap s ! i));
     Some (s\<lparr>heap := (heap s)[i := (heap s ! i)\<lparr>conn_obj := c\<rparr>]\<rparr>)
   }"

definition TcpServer_newConnection :: "(nat \<Rightarrow> write_oracle) \<Rightarrow> (nat \<Rightarrow> conn_callbacks) \<Rightarrow> int \<Rightarrow> TcpServer \<Rightarrow> TcpServer option" where
  "TcpServer_newConnection wr cb sockfd s = do {
     (ioLoop, p) \<leftarrow> getNextLoop True (threadPool s);
     let s = s\<lparr>threadPool := p\<rparr>;
     let buf = snprintf 64 (''-'' @ c_str (srv_ipPort s) @ ''#'' @ show_int (nextConnId s));
     cassert (nextConnId s < 2 ^ 31 - 1);
     let s = s\<lparr>nextConnId := nextConnId s + 1\<rparr>;
     let connName = srv_name s @ buf;
     let i = length (heap s);
     let conn = \<lparr>conn_name = connName, conn_loop = ioLoop, conn_fd = sockfd,
                 conn_obj = TcpConnection_new (srv_hasWriteComplete s) False\<rparr>;
     let s = s\<lparr>connections := smap_put connName i (connections s), heap := heap s @ [conn]\<rparr>;
     (if ioLoop = base_loop then conn_apply wr cb Established i s
      else Some (queue_task ioLoop (Establish i) s))
   }"

definition removeConnectionInLoop :: "nat \<Rightarrow> TcpServer \<Rightarrow> TcpServer option" where
  "removeConnectionInLoop i s = do {
     let name = conn_name (heap s ! i);
     let n = (if map_of (connections s) name = None then 0 else (1 :: nat));
     let s = s\<lparr>connections := smap_erase name (connections s)\<rparr>;
     cassert (n = 1);
     Some (queue_task (conn_loop (heap s ! i)) (Destroy i) s)
   }"

definition removeConnection :: "nat \<Rightarrow> TcpServer \<Rightarrow> TcpServer option" where
  "removeConnection i s =
     (if conn_loop (heap s ! i) = base_loop then removeConnectionInLoop i s
      else Some (queue_task base_loop (RemoveInLoop i) s))"

text \<open>
  A handler of connection \<open>i\<close>, in the loop of the connection.  When it closes the connection the last thing
  it does is to call the close callback, which is \<^verbatim>\<open>removeConnection\<close>.
\<close>

definition conn_handle :: "(nat \<Rightarrow> write_oracle) \<Rightarrow> (nat \<Rightarrow> conn_callbacks) \<Rightarrow> conn_event \<Rightarrow> nat \<Rightarrow> TcpServer \<Rightarrow> TcpServer option" where
  "conn_handle wr cb ev i s = do {
     s' \<leftarrow> conn_apply wr cb ev i s;
     (if closes (conn_obj (heap s' ! i)) \<noteq> closes (conn_obj (heap s ! i)) then removeConnection i s' else Some s')
   }"

definition destroy_item :: "(nat \<Rightarrow> write_oracle) \<Rightarrow> (nat \<Rightarrow> conn_callbacks) \<Rightarrow> string \<times> nat \<Rightarrow> TcpServer \<Rightarrow> TcpServer option" where
  "destroy_item wr cb item s = (let i = snd item in
     if conn_loop (heap s ! i) = base_loop then conn_apply wr cb Destroyed i s
     else Some (queue_task (conn_loop (heap s ! i)) (Destroy i) s))"

definition TcpServer_dtor :: "bool \<Rightarrow> (nat \<Rightarrow> write_oracle) \<Rightarrow> (nat \<Rightarrow> conn_callbacks) \<Rightarrow> TcpServer \<Rightarrow> TcpServer option" where
  "TcpServer_dtor inLoop wr cb s = do {
     cassert inLoop;
     run_ops (destroy_item wr cb) (connections s) s
   }"

section \<open>Runs of a server\<close>

text \<open>
  What can happen: the user configures and starts the server, a connection is ready to be accepted, a
  loop runs the first call that was left to it, or something happens to a connection.
\<close>

datatype server_event =
  SetThreadNum int | Start bool int | AcceptReady accept_result int int | RunTask loop_id | ConnEvent nat conn_event

fun task_step :: "(nat \<Rightarrow> write_oracle) \<Rightarrow> (nat \<Rightarrow> conn_callbacks) \<Rightarrow> server_task \<Rightarrow> TcpServer \<Rightarrow> TcpServer option" where
  "task_step wr cb (Establish i) s = conn_apply wr cb Established i s"
| "task_step wr cb (RemoveInLoop i) s = removeConnectionInLoop i s"
| "task_step wr cb (Destroy i) s = conn_apply wr cb Destroyed i s"

fun server_step :: "(nat \<Rightarrow> write_oracle) \<Rightarrow> (nat \<Rightarrow> conn_callbacks) \<Rightarrow> server_event \<Rightarrow> TcpServer \<Rightarrow> TcpServer option" where
  "server_step wr cb (SetThreadNum n) s = TcpServer_setThreadNum n s"
| "server_step wr cb (Start inLoop ret) s = TcpServer_start inLoop ret s"
| "server_step wr cb (AcceptReady r dropped idle) s = do {
     (a, s) \<leftarrow> Acceptor_handleRead (Some (TcpServer_newConnection wr cb)) r dropped idle (acceptor s) s;
     Some (s\<lparr>acceptor := a\<rparr>)
   }"
| "server_step wr cb (RunTask l) s = (case queues s l of
      [] \<Rightarrow> Some s
    | t # ts \<Rightarrow> task_step wr cb t (s\<lparr>queues := (queues s)(l := ts)\<rparr>))"
| "server_step wr cb (ConnEvent i ev) s = conn_handle wr cb ev i s"

text \<open>
  When it can: threads are configured with a number, the server is started in its own thread and can
  listen, a connection is ready only while the acceptor watches for it, and \<^verbatim>\<open>accept\<close> fails only in the
  ways the code expects.  \<^verbatim>\<open>nextConnId_\<close> is an \<^verbatim>\<open>int\<close>: the run ends before it overflows.
\<close>

fun server_event_ok :: "server_event \<Rightarrow> TcpServer \<Rightarrow> bool" where
  "server_event_ok (SetThreadNum n) s \<longleftrightarrow> 0 \<le> n"
| "server_event_ok (Start inLoop ret) s \<longleftrightarrow> inLoop \<and> 0 \<le> ret"
| "server_event_ok (AcceptReady r dropped idle) s \<longleftrightarrow>
     accInterest (acceptor s) = Some kReadEvent \<and> sockets_accept r \<noteq> None \<and> nextConnId s < 2 ^ 31 - 1"
| "server_event_ok (RunTask l) s \<longleftrightarrow> True"
| "server_event_ok (ConnEvent i ev) s \<longleftrightarrow>
     i < length (heap s) \<and> ev \<noteq> Established \<and> ev \<noteq> Destroyed \<and> conn_event_ok ev (conn_obj (heap s ! i))"

inductive server_reachable :: "(nat \<Rightarrow> write_oracle) \<Rightarrow> (nat \<Rightarrow> conn_callbacks) \<Rightarrow> TcpServer \<Rightarrow> TcpServer \<Rightarrow> bool" for wr cb s0 where
  new: "server_reachable wr cb s0 s0"
| step: "server_reachable wr cb s0 s \<Longrightarrow> server_event_ok e s \<Longrightarrow> server_step wr cb e s = Some s'
    \<Longrightarrow> server_reachable wr cb s0 s'"

subsection \<open>The life of a connection\<close>

text \<open>
  What the handlers of a connection do to its place in the server: they leave it where it is, or they
  close it, once.
\<close>

definition conn_same :: "TcpConnection \<Rightarrow> TcpConnection \<Rightarrow> bool" where
  "conn_same c c' \<longleftrightarrow> (live c' \<longleftrightarrow> live c) \<and> (state c' = kDisconnected \<longleftrightarrow> state c = kDisconnected)
     \<and> removed c' = removed c \<and> closes c' = closes c"

definition conn_closed :: "TcpConnection \<Rightarrow> TcpConnection \<Rightarrow> bool" where
  "conn_closed c c' \<longleftrightarrow> live c \<and> state c' = kDisconnected \<and> removed c' = removed c \<and> closes c' = closes c + 1"

lemma conn_same_refl [simp]: "conn_same c c"
  by (simp add: conn_same_def)

lemma conn_same_trans: "conn_same c c1 \<Longrightarrow> conn_same c1 c2 \<Longrightarrow> conn_same c c2"
  by (simp add: conn_same_def)

lemma conn_channel_same: "conn_channel f c = Some c' \<Longrightarrow> conn_same c c' \<and> state c' = state c"
  by (auto simp: conn_channel_def conn_same_def live_def split: option.splits if_splits)

lemma queue_output_same: "queue_output d n c = Some c' \<Longrightarrow> conn_same c c' \<and> state c' = state c"
  by (auto simp: queue_output_def conn_queueInLoop_def Let_def bind_eq_Some_conv conn_same_def live_def
      split: if_splits dest!: conn_channel_same)

lemma sendInLoop_same: "sendInLoop wr d c = Some c' \<Longrightarrow> conn_same c c'"
  by (auto simp: sendInLoop_def sock_write_def conn_queueInLoop_def Let_def bind_eq_Some_conv cassert_def conn_same_def live_def
      split: if_splits write_result.splits dest!: queue_output_same)

lemma conn_call_step_same: "conn_call_step wr call c = Some c' \<Longrightarrow> conn_same c c'"
  by (cases call)
    (auto simp: TcpConnection_send_def TcpConnection_send_Buffer_def TcpConnection_shutdown_def shutdownInLoop_def
      forceClose_def forceCloseWithDelay_def startReadInLoop_def stopReadInLoop_def conn_queueInLoop_def
      Let_def bind_eq_Some_conv conn_same_def live_def
      split: if_splits dest!: sendInLoop_same conn_channel_same)

lemma run_callback_same: "run_callback wr cb k c = Some c' \<Longrightarrow> conn_same c c'"
  unfolding run_callback_def
  by (rule run_ops_invariant [of "conn_same c"]) (auto intro: conn_same_trans dest: conn_call_step_same)

lemma handleClose_closed: "handleClose wr cb c = Some c' \<Longrightarrow> conn_closed c c'"
  by (auto simp: handleClose_def bind_eq_Some_conv cassert_def conn_closed_def conn_same_def live_def
      split: if_splits dest!: conn_channel_same run_callback_same)

lemma handleWrite_same:
  assumes "TcpConnection_handleWrite wr c = Some c'"
  shows "conn_same c c'"
proof (cases "conn_isWriting c")
  case True
  obtain r c1 where c1: "sock_write wr (Buffer_contents (outputBuffer c)) c = (r, c1)" "conn_same c c1"
    by (simp add: sock_write_def Let_def conn_same_def live_def)
  have last: "conn_same c2 (if state c2 = kDisconnecting then shutdownInLoop c2 else c2)" for c2
    by (simp add: shutdownInLoop_def conn_same_def live_def)
  have queued: "conn_same c2 (if hasWriteComplete c2 then conn_queueInLoop f c2 else c2)" for f c2
    by (simp add: conn_queueInLoop_def conn_same_def live_def)
  have buf: "conn_same c1 (c1\<lparr>outputBuffer := b\<rparr>)" for b by (simp add: conn_same_def live_def)
  show ?thesis
  proof (cases "\<exists>n. r = Wrote n \<and> 0 < n")
    case True
    then obtain n b where n: "r = Wrote n" "0 < n" "retrieve n (outputBuffer c1) = Some b"
      using assms \<open>conn_isWriting c\<close> c1(1) by (auto simp: TcpConnection_handleWrite_def bind_eq_Some_conv)
    let ?c1 = "c1\<lparr>outputBuffer := b\<rparr>"
    show ?thesis
    proof (cases "readableBytes b = 0")
      case True
      let ?q = "\<lambda>c. if hasWriteComplete c then conn_queueInLoop WriteCompleteCallback c else c"
      obtain c2 where c2: "conn_channel (\<lambda>ev. ev AND NOT kWriteEvent) ?c1 = Some c2"
        "c' = (if state (?q c2) = kDisconnecting then shutdownInLoop (?q c2) else ?q c2)"
        using assms \<open>conn_isWriting c\<close> c1(1) n True
        by (cases "conn_channel (\<lambda>ev. ev AND NOT kWriteEvent) ?c1") (simp_all add: TcpConnection_handleWrite_def Let_def)
      have "conn_same c ?c1" by (rule conn_same_trans [OF c1(2) buf])
      also have "conn_same ?c1 c2" using conn_channel_same [OF c2(1)] by simp
      finally (conn_same_trans) have "conn_same c c2" .
      then show ?thesis unfolding c2(2) by (rule conn_same_trans [OF conn_same_trans [OF _ queued] last])
    next
      case False
      then have "c' = ?c1"
        using assms \<open>conn_isWriting c\<close> c1(1) n by (simp add: TcpConnection_handleWrite_def Let_def)
      then show ?thesis using conn_same_trans [OF c1(2) buf] by simp
    qed
  next
    case False
    then have "c' = c1"
      using assms \<open>conn_isWriting c\<close> c1(1) by (cases r) (simp_all add: TcpConnection_handleWrite_def Let_def)
    then show ?thesis using c1(2) by simp
  qed
qed (use assms in \<open>simp add: TcpConnection_handleWrite_def\<close>)

lemma handleRead_life: "TcpConnection_handleRead wr cb r c = Some c' \<Longrightarrow> conn_same c c' \<or> conn_closed c c'"
  by (auto simp: TcpConnection_handleRead_def Let_def bind_eq_Some_conv conn_same_def conn_closed_def live_def
      split: if_splits dest!: run_callback_same handleClose_closed)

lemma functor_life: "conn_functor_step wr cb f c = Some c' \<Longrightarrow> conn_same c c' \<or> conn_closed c c'"
  by (cases f)
    (auto simp: shutdownInLoop_def forceCloseInLoop_def dest: sendInLoop_same run_callback_same handleClose_closed
      split: if_splits, auto simp: conn_same_def live_def)

lemma conn_step_life:
  assumes "conn_step wr cb e c = Some c'" "e \<noteq> Established" "e \<noteq> Destroyed"
  shows "conn_same c c' \<or> conn_closed c c'"
proof (cases e)
  case RunFunctor
  show ?thesis
  proof (cases "functors c")
    case (Cons f fs)
    then show ?thesis
      using assms(1) RunFunctor functor_life [of wr cb f "c\<lparr>functors := fs\<rparr>" c']
      by (simp add: conn_same_def conn_closed_def live_def)
  qed (use assms(1) RunFunctor in simp)
qed (use assms in \<open>auto simp: TcpConnection_send_def TcpConnection_shutdown_def shutdownInLoop_def
    conn_queueInLoop_def forceClose_def Let_def conn_same_def live_def
    split: if_splits dest!: handleRead_life handleWrite_same handleClose_closed conn_call_step_same\<close>)

lemma established_life:
  assumes "conn_inv c" "state c = kConnecting" "callbacks_ok cb" "write_ok wr"
  shows "\<exists>c'. conn_step wr cb Established c = Some c' \<and> conn_inv c' \<and> live c' \<and> \<not> removed c'"
  using connectEstablished_ok [OF assms] by auto

lemma destroyed_life:
  assumes "conn_inv c" "state c = kDisconnected" "\<not> removed c" "callbacks_ok cb" "write_ok wr"
  shows "\<exists>c'. conn_step wr cb Destroyed c = Some c' \<and> conn_inv c' \<and> state c' = kDisconnected \<and> removed c'"
  using connectDestroyed_ok [OF assms(1,3) _ assms(4,5)] assms(2) by auto

lemma handler_life:
  assumes "conn_inv c" "conn_event_ok e c" "e \<noteq> Established" "e \<noteq> Destroyed" "callbacks_ok cb" "write_ok wr"
  shows "\<exists>c'. conn_step wr cb e c = Some c' \<and> conn_inv c' \<and> (conn_same c c' \<or> conn_closed c c')"
proof -
  obtain c' where "conn_step wr cb e c = Some c'" "conn_inv c'" using conn_step_ok [OF assms(1,2,5,6)] by blast
  then show ?thesis using conn_step_life [OF _ assms(3,4)] by blast
qed

subsection \<open>The invariant\<close>

fun task_conn :: "server_task \<Rightarrow> nat" where
  "task_conn (Establish i) = i"
| "task_conn (RemoveInLoop i) = i"
| "task_conn (Destroy i) = i"

text \<open>
  Where a connection is: waiting to be established, up, closed and waiting to be taken out of the map,
  out of the map and waiting to be destroyed, or destroyed.  In each place exactly the calls that carry it
  on are pending.
\<close>

definition slot_ok :: "nat \<Rightarrow> server_conn \<Rightarrow> bool \<Rightarrow> (loop_id \<Rightarrow> server_task list) \<Rightarrow> bool" where
  "slot_ok i k inMap Q \<longleftrightarrow> (let c = conn_obj k; l = conn_loop k in
     conn_inv c
     \<and> (state c \<noteq> kDisconnected \<longrightarrow> inMap) \<and> (removed c \<longrightarrow> \<not> inMap)
     \<and> (\<forall>q. Establish i \<in> set (Q q) \<longleftrightarrow> q = l \<and> state c = kConnecting)
     \<and> (\<forall>q. RemoveInLoop i \<in> set (Q q) \<longleftrightarrow> q = base_loop \<and> state c = kDisconnected \<and> inMap)
     \<and> (\<forall>q. Destroy i \<in> set (Q q) \<longleftrightarrow> q = l \<and> state c = kDisconnected \<and> \<not> inMap \<and> \<not> removed c)
     \<and> (l = base_loop \<longrightarrow> state c \<noteq> kConnecting \<and> (state c = kDisconnected \<longrightarrow> \<not> inMap)))"

definition in_map :: "TcpServer \<Rightarrow> nat \<Rightarrow> bool" where
  "in_map s i \<longleftrightarrow> map_of (connections s) (conn_name (heap s ! i)) = Some i"

definition conn_name_of :: "TcpServer \<Rightarrow> nat \<Rightarrow> string" where
  "conn_name_of s i = srv_name s @ ''-'' @ srv_ipPort s @ ''#'' @ show_nat (i + 1)"

definition pool_pick :: "EventLoopThreadPool \<Rightarrow> nat \<Rightarrow> loop_id" where
  "pool_pick p i = (if loops p = [] then base_loop else loops p ! (i mod length (loops p)))"

definition pool_ok :: "TcpServer \<Rightarrow> bool" where
  "pool_ok s \<longleftrightarrow> (let p = threadPool s; a = acceptor s in
     pool_started p = srv_started s \<and> (\<not> srv_started s \<longrightarrow> heap s = [] \<and> loops p = [] \<and> pool_next p = 0 \<and> \<not> listenning a \<and> accInterest a = None)
     \<and> \<not> accRemoved a
     \<and> (loops p \<noteq> [] \<longrightarrow> pool_next p = length (heap s) mod length (loops p)))"

definition names_ok :: "TcpServer \<Rightarrow> bool" where
  "names_ok s \<longleftrightarrow> length (srv_ipPort s) \<le> 51 \<and> CHR 0x00 \<notin> set (srv_ipPort s)
     \<and> nextConnId s = int (length (heap s)) + 1 \<and> length (heap s) < 2 ^ 31 - 1
     \<and> (\<forall>i < length (heap s). conn_name (heap s ! i) = conn_name_of s i \<and> conn_loop (heap s ! i) = pool_pick (threadPool s) i)"

definition map_ok :: "TcpServer \<Rightarrow> bool" where
  "map_ok s \<longleftrightarrow> smap_ok (connections s)
     \<and> (\<forall>n i. map_of (connections s) n = Some i \<longrightarrow> i < length (heap s) \<and> conn_name (heap s ! i) = n)"

definition queues_ok :: "TcpServer \<Rightarrow> bool" where
  "queues_ok s \<longleftrightarrow> (\<forall>l. distinct (queues s l) \<and> (\<forall>t \<in> set (queues s l). task_conn t < length (heap s)))"

definition slots_ok :: "TcpServer \<Rightarrow> bool" where
  "slots_ok s \<longleftrightarrow> (\<forall>i < length (heap s). slot_ok i (heap s ! i) (in_map s i) (queues s))"

definition server_inv :: "TcpServer \<Rightarrow> bool" where
  "server_inv s \<longleftrightarrow> pool_ok s \<and> names_ok s \<and> map_ok s \<and> queues_ok s \<and> slots_ok s"

lemma conn_name_of_inj: "conn_name_of s i = conn_name_of s j \<longleftrightarrow> i = j"
proof
  assume "conn_name_of s i = conn_name_of s j"
  then have "show_nat (i + 1) = show_nat (j + 1)" by (simp add: conn_name_of_def)
  then have "nat_of_digits (show_nat (i + 1)) = nat_of_digits (show_nat (j + 1))" by (rule arg_cong)
  then show "i = j" by simp
qed simp

lemma conn_name_inj:
  assumes "names_ok s" "i < length (heap s)" "j < length (heap s)"
  shows "conn_name (heap s ! i) = conn_name (heap s ! j) \<longleftrightarrow> i = j"
  using assms conn_name_of_inj [of s i j] by (simp add: names_ok_def)

lemma slot_okD:
  assumes "server_inv s" "i < length (heap s)"
  shows "slot_ok i (heap s ! i) (in_map s i) (queues s)"
  using assms by (simp add: server_inv_def slots_ok_def)

text \<open>Another connection is not affected by what happens to the entry and the calls of connection \<open>i\<close>.\<close>

lemma slot_ok_cong:
  assumes "slot_ok j k b Q" "\<And>t l. task_conn t = j \<Longrightarrow> t \<in> set (Q' l) \<longleftrightarrow> t \<in> set (Q l)"
  shows "slot_ok j k b Q'"
  using assms(1) assms(2) [of "Establish j"] assms(2) [of "RemoveInLoop j"] assms(2) [of "Destroy j"]
  by (simp add: slot_ok_def)

definition same_config :: "TcpServer \<Rightarrow> TcpServer \<Rightarrow> bool" where
  "same_config s s' \<longleftrightarrow> srv_ipPort s' = srv_ipPort s \<and> srv_name s' = srv_name s \<and> acceptor s' = acceptor s
     \<and> threadPool s' = threadPool s \<and> srv_started s' = srv_started s \<and> nextConnId s' = nextConnId s"

lemma server_inv_slot:
  assumes inv: "server_inv s" and i: "i < length (heap s)" and cfg: "same_config s s'"
    and hp: "heap s' = (heap s)[i := k]" "conn_name k = conn_name (heap s ! i)" "conn_loop k = conn_loop (heap s ! i)"
    and mp: "\<And>n. n \<noteq> conn_name k \<Longrightarrow> map_of (connections s') n = map_of (connections s) n"
      "map_of (connections s') (conn_name k) = (if b then Some i else None)" "smap_ok (connections s')"
    and qs: "\<And>t l. task_conn t \<noteq> i \<Longrightarrow> t \<in> set (queues s' l) \<longleftrightarrow> t \<in> set (queues s l)" "\<And>l. distinct (queues s' l)"
    and slot: "slot_ok i k b (queues s')"
  shows "server_inv s'"
proof -
  have len: "length (heap s') = length (heap s)" by (simp add: hp)
  have name: "conn_name (heap s' ! j) = conn_name (heap s ! j)" "conn_loop (heap s' ! j) = conn_loop (heap s ! j)" for j
    using i hp by (cases "j = i"; simp)+
  have no: "names_ok s" using inv by (simp add: server_inv_def)
  have im: "in_map s' j = (if j = i then b else in_map s j)" if "j < length (heap s)" for j
  proof (cases "j = i")
    case False
    then have "conn_name (heap s ! j) \<noteq> conn_name k" using conn_name_inj [OF no that i] hp by simp
    then show ?thesis using False mp(1) by (simp add: in_map_def name)
  qed (use mp(2) hp i in \<open>simp add: in_map_def name\<close>)
  have "slot_ok j (heap s' ! j) (in_map s' j) (queues s')" if "j < length (heap s)" for j
  proof (cases "j = i")
    case True
    then show ?thesis using slot im [OF that] i hp by simp
  next
    case False
    then show ?thesis
      using slot_ok_cong [OF slot_okD [OF inv that], of "queues s'"] qs(1) im [OF that] hp by simp
  qed
  then have "slots_ok s'" by (simp add: slots_ok_def len)
  moreover have "task_conn t < length (heap s)" if "t \<in> set (queues s' l)" for t l
    using that qs(1) [of t l] i inv by (cases "task_conn t = i") (auto simp: server_inv_def queues_ok_def)
  then have "queues_ok s'" using qs(2) by (simp add: queues_ok_def len)
  moreover have "j < length (heap s) \<and> conn_name (heap s ! j) = n" if "map_of (connections s') n = Some j" for n j
  proof (cases "n = conn_name k")
    case True
    then show ?thesis using that mp(2) i hp(2) by (simp split: if_splits)
  next
    case False
    then show ?thesis using that mp(1) [OF False] inv by (simp add: server_inv_def map_ok_def)
  qed
  then have "map_ok s'" using mp(3) by (simp add: map_ok_def len name)
  moreover have "names_ok s'" using no cfg by (simp add: names_ok_def len name same_config_def conn_name_of_def)
  moreover have "pool_ok s'" using inv cfg hp(1) by (simp add: server_inv_def pool_ok_def same_config_def Let_def)
  ultimately show ?thesis by (simp add: server_inv_def)
qed

subsection \<open>Every step keeps it\<close>

text \<open>The callbacks and the kernel are those of the connections.\<close>

definition params_ok :: "(nat \<Rightarrow> write_oracle) \<Rightarrow> (nat \<Rightarrow> conn_callbacks) \<Rightarrow> bool" where
  "params_ok wr cb \<longleftrightarrow> (\<forall>i. write_ok (wr i) \<and> callbacks_ok (cb i))"

lemma params_okD: "params_ok wr cb \<Longrightarrow> callbacks_ok (cb i)" "params_ok wr cb \<Longrightarrow> write_ok (wr i)"
  by (simp_all add: params_ok_def)

abbreviation set_conn :: "nat \<Rightarrow> TcpConnection \<Rightarrow> TcpServer \<Rightarrow> TcpServer" where
  "set_conn i c s \<equiv> s\<lparr>heap := (heap s)[i := (heap s ! i)\<lparr>conn_obj := c\<rparr>]\<rparr>"

lemma conn_apply_Some:
  "conn_step (wr i) (cb i) ev (conn_obj (heap s ! i)) = Some c \<Longrightarrow> conn_apply wr cb ev i s = Some (set_conn i c s)"
  by (simp add: conn_apply_def)

text \<open>A loop takes the first of its calls.\<close>

lemma pop_task:
  assumes inv: "server_inv s" and q: "queues s l = t # ts"
  shows "task_conn t < length (heap s)" "distinct (((queues s)(l := ts)) q)"
    "t' \<in> set (((queues s)(l := ts)) q) \<longleftrightarrow> t' \<in> set (queues s q) \<and> \<not> (q = l \<and> t' = t)"
    "t \<in> set (queues s l)"
proof -
  have "distinct (queues s l)" "\<And>q. distinct (queues s q)" "\<forall>t \<in> set (queues s l). task_conn t < length (heap s)"
    using inv by (simp_all add: server_inv_def queues_ok_def)
  then show "task_conn t < length (heap s)" "distinct (((queues s)(l := ts)) q)"
    "t' \<in> set (((queues s)(l := ts)) q) \<longleftrightarrow> t' \<in> set (queues s q) \<and> \<not> (q = l \<and> t' = t)" "t \<in> set (queues s l)"
    using q by auto
qed

lemma not_in_map:
  assumes inv: "server_inv s" and i: "i < length (heap s)" "\<not> in_map s i"
  shows "map_of (connections s) (conn_name (heap s ! i)) = None"
proof (rule ccontr)
  assume "map_of (connections s) (conn_name (heap s ! i)) \<noteq> None"
  then obtain j where j: "map_of (connections s) (conn_name (heap s ! i)) = Some j" by blast
  then have "j < length (heap s)" "conn_name (heap s ! j) = conn_name (heap s ! i)" "names_ok s"
    using inv by (auto simp: server_inv_def map_ok_def)
  then show False using conn_name_inj [of s j i] i j by (simp add: in_map_def)
qed

lemma queue_task_sel [simp]:
  "t' \<in> set (queues (queue_task l t s) q) \<longleftrightarrow> t' \<in> set (queues s q) \<or> q = l \<and> t' = t"
  "distinct (queues (queue_task l t s) q) \<longleftrightarrow> distinct (queues s q) \<and> (q = l \<longrightarrow> t \<notin> set (queues s q))"
  "heap (queue_task l t s) = heap s" "connections (queue_task l t s) = connections s" 
  "srv_ipPort (queue_task l t s) = srv_ipPort s" "srv_name (queue_task l t s) = srv_name s" "acceptor (queue_task l t s) = acceptor s"
  "threadPool (queue_task l t s) = threadPool s" "srv_started (queue_task l t s) = srv_started s"
  "nextConnId (queue_task l t s) = nextConnId s"
  by (auto simp: queue_task_def)

lemma server_inv_smap: "server_inv s \<Longrightarrow> smap_ok (connections s)"
  by (simp add: server_inv_def map_ok_def)

lemma task_Establish:
  assumes inv: "server_inv s" and q: "queues s l = Establish i # ts" and p: "params_ok wr cb"
  shows "\<exists>s'. task_step wr cb (Establish i) (s\<lparr>queues := (queues s)(l := ts)\<rparr>) = Some s' \<and> server_inv s'"
proof -
  define Q where "Q = (queues s)(l := ts)"
  let ?k = "heap s ! i" and ?s = "s\<lparr>queues := Q\<rparr>"
  note pop = pop_task [OF inv q, folded Q_def, simplified]
  have slot: "slot_ok i ?k (in_map s i) (queues s)" by (rule slot_okD [OF inv pop(1)])
  then have st: "l = conn_loop ?k" "state (conn_obj ?k) = kConnecting" "in_map s i" "conn_inv (conn_obj ?k)" "l \<noteq> base_loop"
    using pop(4) by (auto simp: slot_ok_def Let_def)
  obtain c where c: "conn_step (wr i) (cb i) Established (conn_obj ?k) = Some c" "conn_inv c" "live c" "\<not> removed c"
    using established_life [OF st(4,2) params_okD [OF p, of i]] by blast
  have "server_inv (set_conn i c ?s)"
  proof (rule server_inv_slot [OF inv pop(1), of _ "?k\<lparr>conn_obj := c\<rparr>" True])
    show "slot_ok i (?k\<lparr>conn_obj := c\<rparr>) True (queues (set_conn i c ?s))"
      using slot st c by (auto simp: slot_ok_def Let_def pop(3) live_def)
    show "t \<in> set (queues (set_conn i c ?s) q) \<longleftrightarrow> t \<in> set (queues s q)" if "task_conn t \<noteq> i" for t q
      using that pop(3) [of t q] by auto
  qed (use st(3) pop(2) server_inv_smap [OF inv] in \<open>simp_all add: same_config_def in_map_def\<close>)
  then show ?thesis unfolding Q_def [symmetric] using conn_apply_Some [of wr i cb Established ?s c] c(1) by simp
qed

lemma task_Destroy:
  assumes inv: "server_inv s" and q: "queues s l = Destroy i # ts" and p: "params_ok wr cb"
  shows "\<exists>s'. task_step wr cb (Destroy i) (s\<lparr>queues := (queues s)(l := ts)\<rparr>) = Some s' \<and> server_inv s'"
proof -
  define Q where "Q = (queues s)(l := ts)"
  let ?k = "heap s ! i" and ?s = "s\<lparr>queues := Q\<rparr>"
  note pop = pop_task [OF inv q, folded Q_def, simplified]
  have slot: "slot_ok i ?k (in_map s i) (queues s)" by (rule slot_okD [OF inv pop(1)])
  then have st: "l = conn_loop ?k" "state (conn_obj ?k) = kDisconnected" "\<not> removed (conn_obj ?k)" "\<not> in_map s i" "conn_inv (conn_obj ?k)"
    using pop(4) by (auto simp: slot_ok_def Let_def)
  obtain c where c: "conn_step (wr i) (cb i) Destroyed (conn_obj ?k) = Some c" "conn_inv c" "state c = kDisconnected" "removed c"
    using destroyed_life [OF st(5,2,3) params_okD [OF p, of i]] by blast
  have "server_inv (set_conn i c ?s)"
  proof (rule server_inv_slot [OF inv pop(1), of _ "?k\<lparr>conn_obj := c\<rparr>" False])
    show "slot_ok i (?k\<lparr>conn_obj := c\<rparr>) False (queues (set_conn i c ?s))"
      using slot st c by (auto simp: slot_ok_def Let_def pop(3))
    show "t \<in> set (queues (set_conn i c ?s) q) \<longleftrightarrow> t \<in> set (queues s q)" if "task_conn t \<noteq> i" for t q
      using that pop(3) [of t q] by auto
  qed (use pop(2) not_in_map [OF inv pop(1) st(4)] server_inv_smap [OF inv] in \<open>simp_all add: same_config_def\<close>)
  then show ?thesis unfolding Q_def [symmetric] using conn_apply_Some [of wr i cb Destroyed ?s c] c(1) by simp
qed

lemma task_RemoveInLoop:
  assumes inv: "server_inv s" and q: "queues s l = RemoveInLoop i # ts"
  shows "\<exists>s'. task_step wr cb (RemoveInLoop i) (s\<lparr>queues := (queues s)(l := ts)\<rparr>) = Some s' \<and> server_inv s'"
proof -
  define Q where "Q = (queues s)(l := ts)"
  let ?k = "heap s ! i"
  let ?s = "s\<lparr>queues := Q, connections := smap_erase (conn_name ?k) (connections s)\<rparr>"
  note pop = pop_task [OF inv q, folded Q_def, simplified]
  have slot: "slot_ok i ?k (in_map s i) (queues s)" by (rule slot_okD [OF inv pop(1)])
  then have st: "l = base_loop" "state (conn_obj ?k) = kDisconnected" "in_map s i" "conn_inv (conn_obj ?k)"
    "\<not> removed (conn_obj ?k)" "conn_loop ?k \<noteq> base_loop"
    using pop(4) by (auto simp: slot_ok_def Let_def)
  let ?s' = "queue_task (conn_loop ?k) (Destroy i) ?s"
  have "server_inv ?s'"
  proof (rule server_inv_slot [OF inv pop(1), of _ ?k False])
    show "slot_ok i ?k False (queues ?s')"
      using slot st by (auto simp: slot_ok_def Let_def pop(3))
    show "distinct (queues ?s' q)" for q
      using slot st pop(2,3) by (auto simp: slot_ok_def Let_def)
    show "t \<in> set (queues ?s' q) \<longleftrightarrow> t \<in> set (queues s q)" if "task_conn t \<noteq> i" for t q
      using that pop(3) [of t q] by auto
  qed (use server_inv_smap [OF inv] in \<open>auto simp: same_config_def\<close>)
  then show ?thesis unfolding Q_def [symmetric] using st(3) by (simp add: removeConnectionInLoop_def in_map_def Let_def)
qed

lemma task_step_inv:
  assumes "server_inv s" "queues s l = t # ts" "params_ok wr cb"
  shows "\<exists>s'. task_step wr cb t (s\<lparr>queues := (queues s)(l := ts)\<rparr>) = Some s' \<and> server_inv s'"
  using assms task_Establish task_RemoveInLoop task_Destroy by (cases t) blast+

text \<open>A handler leaves the connection in its place, or closes it and hands it to the server's loop.\<close>

lemma handler_same:
  assumes inv: "server_inv s" and i: "i < length (heap s)" and c: "conn_inv c" "conn_same (conn_obj (heap s ! i)) c"
  shows "server_inv (set_conn i c s)"
proof (rule server_inv_slot [OF inv i, of _ "(heap s ! i)\<lparr>conn_obj := c\<rparr>" "in_map s i"])
  have slot: "slot_ok i (heap s ! i) (in_map s i) (queues s)" by (rule slot_okD [OF inv i])
  have "state c = kConnecting \<longleftrightarrow> state (conn_obj (heap s ! i)) = kConnecting"
    using c(2) by (cases "state c"; cases "state (conn_obj (heap s ! i))") (auto simp: conn_same_def live_def)
  with slot c show "slot_ok i ((heap s ! i)\<lparr>conn_obj := c\<rparr>) (in_map s i) (queues (set_conn i c s))"
    by (simp add: slot_ok_def conn_same_def Let_def)
  show "map_of (connections (set_conn i c s)) (conn_name ((heap s ! i)\<lparr>conn_obj := c\<rparr>)) = (if in_map s i then Some i else None)"
    using not_in_map [OF inv i] by (simp add: in_map_def)
qed (use server_inv_smap [OF inv] inv in \<open>simp_all add: same_config_def server_inv_def queues_ok_def\<close>)

lemma handler_closed:
  assumes inv: "server_inv s" and i: "i < length (heap s)" and c: "conn_inv c" "conn_closed (conn_obj (heap s ! i)) c"
  shows "\<exists>s'. removeConnection i (set_conn i c s) = Some s' \<and> server_inv s'"
proof -
  let ?k = "heap s ! i"
  let ?k' = "?k\<lparr>conn_obj := c\<rparr>"
  have slot: "slot_ok i ?k (in_map s i) (queues s)" by (rule slot_okD [OF inv i])
  have d: "distinct (queues s q)" for q using inv by (simp add: server_inv_def queues_ok_def)
  from slot c(2) have st: "in_map s i" "\<not> removed c" "state c = kDisconnected" "live (conn_obj ?k)"
    by (auto simp: slot_ok_def Let_def conn_closed_def live_def)
  show ?thesis
  proof (cases "conn_loop ?k = base_loop")
    case True
    let ?s' = "queue_task base_loop (Destroy i) ((set_conn i c s)\<lparr>connections := smap_erase (conn_name ?k) (connections s)\<rparr>)"
    have "server_inv ?s'"
    proof (rule server_inv_slot [OF inv i, of _ ?k' False])
      show "slot_ok i ?k' False (queues ?s')"
        using slot st c True by (auto simp: slot_ok_def Let_def live_def)
      show "distinct (queues ?s' q)" for q
        using slot st d by (auto simp: slot_ok_def Let_def live_def)
    qed (use server_inv_smap [OF inv] in \<open>auto simp: same_config_def\<close>)
    then show ?thesis using True st(1) i by (simp add: removeConnection_def removeConnectionInLoop_def in_map_def Let_def)
  next
    case False
    let ?s' = "queue_task base_loop (RemoveInLoop i) (set_conn i c s)"
    have "server_inv ?s'"
    proof (rule server_inv_slot [OF inv i, of _ ?k' True])
      show "slot_ok i ?k' True (queues ?s')"
        using slot st c False by (auto simp: slot_ok_def Let_def live_def)
      show "distinct (queues ?s' q)" for q
        using slot st d by (auto simp: slot_ok_def Let_def live_def)
      show "map_of (connections ?s') (conn_name ?k') = (if True then Some i else None)" using st(1) by (simp add: in_map_def)
    qed (use server_inv_smap [OF inv] in \<open>auto simp: same_config_def\<close>)
    then show ?thesis using False i by (simp add: removeConnection_def)
  qed
qed

lemma conn_handle_inv:
  assumes inv: "server_inv s" and ok: "server_event_ok (ConnEvent i ev) s" and p: "params_ok wr cb"
  shows "\<exists>s'. conn_handle wr cb ev i s = Some s' \<and> server_inv s'"
proof -
  have i: "i < length (heap s)" "ev \<noteq> Established" "ev \<noteq> Destroyed" "conn_event_ok ev (conn_obj (heap s ! i))" using ok by auto
  have ci: "conn_inv (conn_obj (heap s ! i))" using slot_okD [OF inv i(1)] by (simp add: slot_ok_def Let_def)
  obtain c where c: "conn_step (wr i) (cb i) ev (conn_obj (heap s ! i)) = Some c" "conn_inv c"
    "conn_same (conn_obj (heap s ! i)) c \<or> conn_closed (conn_obj (heap s ! i)) c"
    using handler_life [OF ci i(4,2,3) params_okD [OF p, of i]] by blast
  have "conn_handle wr cb ev i s =
    (if closes c \<noteq> closes (conn_obj (heap s ! i)) then removeConnection i (set_conn i c s) else Some (set_conn i c s))"
    using conn_apply_Some [where wr = wr and cb = cb and i = i and s = s, OF c(1)] i(1) by (simp add: conn_handle_def)
  then show ?thesis
    using c(2,3) handler_same [OF inv i(1)] handler_closed [OF inv i(1)]
    by (cases "closes c = closes (conn_obj (heap s ! i))") (auto simp: conn_same_def conn_closed_def)
qed

text \<open>A new connection gets the next name and the next loop in turn.\<close>

lemma getNextLoop_turn:
  assumes "pool_ok s" "srv_started s"
  shows "\<exists>p. getNextLoop True (threadPool s) = Some (pool_pick (threadPool s) (length (heap s)), p) \<and> loops p = loops (threadPool s)
    \<and> pool_started p \<and> (loops p \<noteq> [] \<longrightarrow> pool_next p = Suc (length (heap s)) mod length (loops p))"
proof (cases "loops (threadPool s) = []")
  case False
  then have "pool_next (threadPool s) = length (heap s) mod length (loops (threadPool s))" "pool_started (threadPool s)"
    using assms by (simp_all add: pool_ok_def Let_def)
  moreover have "Suc n mod m = (if m \<le> Suc (n mod m) then 0 else Suc (n mod m))" if "m \<noteq> 0" for n m :: nat
    using that le_antisym [OF Suc_leI [OF mod_less_divisor [of m n]]] by (auto simp: mod_Suc)
  ultimately show ?thesis using False by (simp add: getNextLoop_def vector_at_def pool_pick_def)
qed (use assms in \<open>simp add: getNextLoop_def pool_pick_def pool_ok_def Let_def\<close>)

lemma new_name:
  assumes "names_ok s"
  shows "srv_name s @ snprintf 64 (''-'' @ c_str (srv_ipPort s) @ ''#'' @ show_int (nextConnId s)) = conn_name_of s (length (heap s))"
proof -
  have s: "length (srv_ipPort s) \<le> 51" "c_str (srv_ipPort s) = srv_ipPort s" "length (heap s) < 2 ^ 31 - 1"
    and id: "show_int (nextConnId s) = show_nat (length (heap s) + 1)"
    using assms by (simp_all add: names_ok_def show_int_def nat_add_distrib)
  have "length (show_nat (length (heap s) + 1)) \<le> 10" by (rule length_show_nat) (use s(3) in simp_all)
  then show ?thesis using s by (simp add: id conn_name_of_def)
qed

lemma server_inv_add:
  assumes inv: "server_inv s" and n: "n = length (heap s)" "n + 1 < 2 ^ 31 - 1"
    and cfg: "srv_ipPort s' = srv_ipPort s" "srv_name s' = srv_name s" "acceptor s' = acceptor s" "srv_started s" "srv_started s'"
      "nextConnId s' = nextConnId s + 1"
    and pool: "loops (threadPool s') = loops (threadPool s)" "pool_started (threadPool s')"
      "loops (threadPool s') \<noteq> [] \<longrightarrow> pool_next (threadPool s') = Suc n mod length (loops (threadPool s'))"
    and hp: "heap s' = heap s @ [k]" "conn_name k = conn_name_of s n" "conn_loop k = pool_pick (threadPool s) n"
      "connections s' = smap_put (conn_name k) n (connections s)"
    and qs: "\<And>t l. task_conn t \<noteq> n \<Longrightarrow> t \<in> set (queues s' l) \<longleftrightarrow> t \<in> set (queues s l)" "\<And>l. distinct (queues s' l)"
    and slot: "slot_ok n k True (queues s')"
  shows "server_inv s'"
proof -
  have no: "names_ok s" using inv by (simp add: server_inv_def)
  have old: "conn_name (heap s ! j) \<noteq> conn_name k" if "j < n" for j
    using that no hp(2) n by (auto simp: names_ok_def conn_name_of_inj)
  have "slot_ok j (heap s' ! j) (in_map s' j) (queues s')" if "j < Suc n" for j
  proof (cases "j = n")
    case True
    then show ?thesis using slot n hp by (simp add: in_map_def nth_append)
  next
    case False
    then have j: "j < n" using that by simp
    then have "in_map s' j = in_map s j" using old [OF j] n hp by (simp add: in_map_def nth_append)
    then show ?thesis
      using slot_ok_cong [OF slot_okD [OF inv, of j], of "queues s'"] qs(1) j n hp(1) by (simp add: nth_append)
  qed
  then have "slots_ok s'" using n hp(1) by (simp add: slots_ok_def)
  moreover have "task_conn t < Suc n" if "t \<in> set (queues s' l)" for t l
  proof (cases "task_conn t = n")
    case False
    then have "t \<in> set (queues s l)" using that qs(1) by blast
    then show ?thesis using inv n by (auto simp: server_inv_def queues_ok_def intro: less_SucI)
  qed simp
  then have "queues_ok s'" using qs(2) n hp(1) by (simp add: queues_ok_def)
  moreover have "map_ok s'"
    using inv n hp by (auto simp: server_inv_def map_ok_def nth_append split: if_splits) (metis less_SucI)
  moreover have "names_ok s'"
    using no n hp cfg pool(1) by (auto simp: names_ok_def nth_append conn_name_of_def pool_pick_def less_Suc_eq)
  moreover have "pool_ok s'" using inv n hp(1) cfg pool by (auto simp: server_inv_def pool_ok_def Let_def)
  ultimately show ?thesis by (simp add: server_inv_def)
qed

lemma no_new_tasks:
  assumes "server_inv s" "task_conn t = length (heap s)"
  shows "t \<notin> set (queues s l)"
  using assms unfolding server_inv_def queues_ok_def by (metis less_irrefl)

lemma newConnection_inv:
  assumes inv: "server_inv s" and st: "srv_started s" "nextConnId s < 2 ^ 31 - 1" and p: "params_ok wr cb"
  shows "\<exists>s'. TcpServer_newConnection wr cb fd s = Some s' \<and> server_inv s' \<and> acceptor s' = acceptor s"
proof -
  let ?n = "length (heap s)" and ?l = "pool_pick (threadPool s) (length (heap s))"
  obtain q where q: "getNextLoop True (threadPool s) = Some (?l, q)" "loops q = loops (threadPool s)" "pool_started q"
    "loops q \<noteq> [] \<longrightarrow> pool_next q = Suc ?n mod length (loops q)"
    using getNextLoop_turn [of s] inv st(1) by (auto simp: server_inv_def)
  let ?k = "\<lparr>conn_name = conn_name_of s ?n, conn_loop = ?l, conn_fd = fd, conn_obj = TcpConnection_new (srv_hasWriteComplete s) False\<rparr>"
  let ?s = "s\<lparr>threadPool := q, nextConnId := nextConnId s + 1, connections := smap_put (conn_name_of s ?n) ?n (connections s),
    heap := heap s @ [?k]\<rparr>"
  have no: "names_ok s" using inv by (simp add: server_inv_def)
  then have n: "?n + 1 < 2 ^ 31 - 1" using st(2) by (simp add: names_ok_def)
  have eq: "TcpServer_newConnection wr cb fd s =
    (if ?l = base_loop then conn_apply wr cb Established ?n ?s else Some (queue_task ?l (Establish ?n) ?s))"
    using q(1) st(2) new_name [OF no] by (simp add: TcpServer_newConnection_def Let_def)
  have new: "conn_inv (conn_obj ?k)" "state (conn_obj ?k) = kConnecting" "\<not> removed (conn_obj ?k)"
    by (simp_all add: conn_inv_new) (simp_all add: TcpConnection_new_def)
  note none = no_new_tasks [OF inv, of "Establish ?n"] no_new_tasks [OF inv, of "RemoveInLoop ?n"] no_new_tasks [OF inv, of "Destroy ?n"]
  have d: "distinct (queues s l)" for l using inv by (simp add: server_inv_def queues_ok_def)
  show ?thesis
  proof (cases "?l = base_loop")
    case True
    obtain c where c: "conn_step (wr ?n) (cb ?n) Established (conn_obj ?k) = Some c" "conn_inv c" "live c" "\<not> removed c"
      using established_life [OF new(1,2) params_okD [OF p, of ?n]] by blast
    let ?s' = "?s\<lparr>heap := heap s @ [?k\<lparr>conn_obj := c\<rparr>]\<rparr>"
    have "conn_apply wr cb Established ?n ?s = Some ?s'"
      using c(1) by (simp add: conn_apply_def)
    moreover have "server_inv ?s'"
      by (rule server_inv_add [OF inv refl n, of _ "?k\<lparr>conn_obj := c\<rparr>"])
        (use q st no c none d in \<open>auto simp: slot_ok_def Let_def live_def\<close>)
    ultimately show ?thesis using True eq by simp
  next
    case False
    let ?s' = "queue_task ?l (Establish ?n) ?s"
    have "server_inv ?s'"
      by (rule server_inv_add [OF inv refl n, of _ ?k])
        (use q st no new none d False in \<open>auto simp: slot_ok_def Let_def\<close>)
    then show ?thesis using False eq by simp
  qed
qed

lemma server_inv_config:
  assumes inv: "server_inv s" and "pool_ok s'" and eq: "heap s' = heap s" "connections s' = connections s" "queues s' = queues s"
    "srv_ipPort s' = srv_ipPort s" "srv_name s' = srv_name s" "nextConnId s' = nextConnId s"
    and pick: "\<forall>i < length (heap s). pool_pick (threadPool s') i = pool_pick (threadPool s) i"
  shows "server_inv s'"
proof -
  have old: "names_ok s" "map_ok s" "queues_ok s" "slots_ok s" using inv by (simp_all add: server_inv_def)
  have "names_ok s'" using old(1) pick by (simp add: names_ok_def conn_name_of_def eq)
  moreover have "map_ok s'" using old(2) by (simp add: map_ok_def eq)
  moreover have "queues_ok s'" using old(3) by (simp add: queues_ok_def eq)
  moreover have "slots_ok s'" using old(4) by (simp add: slots_ok_def in_map_def eq)
  ultimately show ?thesis using assms(2) by (simp add: server_inv_def)
qed

lemma accept_inv:
  assumes inv: "server_inv s" and ok: "server_event_ok (AcceptReady r dropped idle) s" and p: "params_ok wr cb"
  shows "\<exists>s'. server_step wr cb (AcceptReady r dropped idle) s = Some s' \<and> server_inv s'"
proof -
  have st: "srv_started s" using inv ok by (auto simp: server_inv_def pool_ok_def Let_def)
  obtain s1 where s1: "TcpServer_newConnection wr cb fd s = Some (s1 fd)" "server_inv (s1 fd)" "acceptor (s1 fd) = acceptor s" for fd
    using newConnection_inv [OF inv st _ p] ok by (metis server_event_ok.simps(3))
  have idle: "server_inv (s\<lparr>acceptor := (acceptor s)\<lparr>closedFds := fds, idleFd := i\<rparr>\<rparr>)" for fds i
    by (rule server_inv_config [OF inv]) (use inv in \<open>simp_all add: server_inv_def pool_ok_def Let_def\<close>)
  show ?thesis
  proof (cases r)
    case (Accepted fd)
    have "(s1 (int fd))\<lparr>acceptor := acceptor s\<rparr> = s1 (int fd)" using s1(3) [of "int fd"] by (cases "s1 (int fd)") simp
    then have "server_inv ((s1 (int fd))\<lparr>acceptor := acceptor s\<rparr>)" using s1(2) by (simp only:)
    then show ?thesis using Accepted s1(1) [of "int fd"] by (simp add: Acceptor_handleRead_def sockets_accept_def)
  next
    case (AcceptError e)
    then have "sockets_accept r = Some (-1, e)" using ok by (auto simp: sockets_accept_def split: if_splits)
    then show ?thesis
      using inv idle by (simp add: Acceptor_handleRead_def acc_close_def Let_def)
  qed
qed

lemma fold_start_thread:
  "fold start_thread is p = p\<lparr>threads := threads p @ map (\<lambda>i. snprintf (length (pool_name p) + 32) (c_str (pool_name p) @ show_nat i)) is,
     loops := loops p @ map thread_loop is\<rparr>"
  by (induction "is" arbitrary: p) (simp_all add: start_thread_def)

lemma start_inv:
  assumes inv: "server_inv s" and ok: "0 \<le> ret"
  shows "\<exists>s'. TcpServer_start True ret s = Some s' \<and> server_inv s'"
proof (cases "srv_started s")
  case False
  then have pre: "\<not> pool_started (threadPool s)" "heap s = []" "\<not> listenning (acceptor s)" "accInterest (acceptor s) = None"
    "\<not> accRemoved (acceptor s)" "loops (threadPool s) = []" "pool_next (threadPool s) = 0"
    using inv by (simp_all add: server_inv_def pool_ok_def Let_def)
  then obtain s' where s': "TcpServer_start True ret s = Some s'" "pool_ok s'" "heap s' = heap s" "connections s' = connections s"
    "queues s' = queues s" "srv_ipPort s' = srv_ipPort s" "srv_name s' = srv_name s" "nextConnId s' = nextConnId s"
    using False ok
    by (simp add: TcpServer_start_def EventLoopThreadPool_start_def fold_start_thread Acceptor_listen_def acc_channel_def
        Let_def event_consts pool_ok_def)
  then show ?thesis using server_inv_config [OF inv s'(2-8)] pre(2) by simp
qed (use inv in \<open>simp add: TcpServer_start_def\<close>)

lemma server_step_inv:
  assumes inv: "server_inv s" and ok: "server_event_ok e s" and p: "params_ok wr cb"
  shows "\<exists>s'. server_step wr cb e s = Some s' \<and> server_inv s'"
proof (cases e)
  case (SetThreadNum n)
  have "server_inv (s\<lparr>threadPool := EventLoopThreadPool_setThreadNum n (threadPool s)\<rparr>)"
    by (rule server_inv_config [OF inv])
      (use inv in \<open>simp_all add: EventLoopThreadPool_setThreadNum_def pool_pick_def server_inv_def pool_ok_def Let_def\<close>)
  then show ?thesis using SetThreadNum ok by (simp add: TcpServer_setThreadNum_def)
next
  case (Start inLoop ret)
  then show ?thesis using start_inv [OF inv] ok by simp
next
  case (AcceptReady r dropped idle)
  then show ?thesis using accept_inv [OF inv _ p] ok by simp
next
  case (RunTask l)
  then show ?thesis using task_step_inv [OF inv _ p] inv by (cases "queues s l") simp_all
next
  case (ConnEvent i ev)
  then show ?thesis using conn_handle_inv [OF inv _ p] ok by simp
qed

lemma TcpServer_new_inv:
  assumes "ntop_ok N" "TcpServer_new e N addr name sockfd bound openIdle wc ti = Some s"
  shows "server_inv s"
proof -
  obtain ipPort acc where s: "InetAddress_toIpPort e N addr = Some ipPort" "Acceptor_new sockfd bound openIdle = Some acc"
    "s = \<lparr>srv_ipPort = ipPort, srv_name = name, acceptor = acc, threadPool = EventLoopThreadPool_new name,
       srv_hasWriteComplete = wc, srv_hasThreadInit = ti, srv_started = False, nextConnId = 1, connections = [],
       heap = [], queues = (\<lambda>_. [])\<rparr>"
    using assms(2) by (auto simp: TcpServer_new_def bind_eq_Some_conv)
  have "length ipPort \<le> 51" "CHR 0x00 \<notin> set ipPort" using InetAddress_toIpPort_short [OF assms(1) s(1)] by auto
  moreover have "\<not> listenning acc" "accInterest acc = None" "\<not> accRemoved acc"
    using s(2) by (auto simp: Acceptor_new_def cassert_def split: if_splits)
  ultimately show ?thesis
    by (simp add: s(3) server_inv_def pool_ok_def names_ok_def map_ok_def queues_ok_def slots_ok_def
        EventLoopThreadPool_new_def)
qed

lemma server_reachable_inv:
  assumes "server_reachable wr cb s0 s" "server_inv s0" "params_ok wr cb"
  shows "server_inv s"
  using assms(1)
proof induction
  case (step s e s')
  then show ?case using server_step_inv [OF step.IH step.hyps(2) assms(3)] by simp
qed (rule assms(2))

text \<open>
  Out of descriptors, the acceptor gives up its spare one to accept the waiting connection, closes that, and
  takes a spare one again: both descriptors are closed, and the connection does not stay in the backlog.
\<close>

lemma Acceptor_handleRead_EMFILE:
  "Acceptor_handleRead cb (AcceptError EMFILE) dropped idle a s =
     Some (a\<lparr>idleFd := idle, closedFds := closedFds a @ [idleFd a, dropped]\<rparr>, s)"
  by (simp add: Acceptor_handleRead_def sockets_accept_def acc_close_def Let_def)

text \<open>\<^verbatim>\<open>start\<close> calls \<^verbatim>\<open>EventLoopThreadPool::start\<close>, which has to run in the thread of the loop.\<close>

lemma TcpServer_start_other_thread: "\<not> srv_started s \<Longrightarrow> TcpServer_start False ret s = None"
  by (simp add: TcpServer_start_def EventLoopThreadPool_start_def cassert_def)

subsection \<open>The destructor\<close>

lemma destroy_item_other:
  assumes "destroy_item wr cb item s = Some s'" "j \<noteq> snd item"
  shows "heap s' ! j = heap s ! j"
  using assms by (auto simp: destroy_item_def conn_apply_def bind_eq_Some_conv Let_def split: if_splits)

lemma destroy_item_None:
  "destroy_item wr cb (n, i) s = None \<longleftrightarrow>
     conn_loop (heap s ! i) = base_loop \<and> conn_step (wr i) (cb i) Destroyed (conn_obj (heap s ! i)) = None"
  by (auto simp: destroy_item_def conn_apply_def Let_def bind_eq_None_conv)

lemma run_destroy:
  assumes "distinct (map snd items)"
  shows "run_ops (destroy_item wr cb) items s \<noteq> None \<longleftrightarrow>
    (\<forall>(n, i) \<in> set items. conn_loop (heap s ! i) = base_loop \<longrightarrow> conn_step (wr i) (cb i) Destroyed (conn_obj (heap s ! i)) \<noteq> None)"
  using assms
proof (induction items arbitrary: s)
  case (Cons item items)
  obtain n i where item: "item = (n, i)" by (cases item)
  show ?case
  proof (cases "destroy_item wr cb item s")
    case None
    then show ?thesis using destroy_item_None [of wr cb n i s] item by simp
  next
    case (Some s1)
    have same: "heap s1 ! j = heap s ! j" if "(m, j) \<in> set items" for m j
      using destroy_item_other [OF Some, of j] that Cons.prems item by force
    have "conn_loop (heap s ! i) = base_loop \<longrightarrow> conn_step (wr i) (cb i) Destroyed (conn_obj (heap s ! i)) \<noteq> None"
      using Some destroy_item_None [of wr cb n i s] item by auto
    moreover have "run_ops (destroy_item wr cb) items s1 \<noteq> None \<longleftrightarrow>
      (\<forall>(n, i) \<in> set items. conn_loop (heap s ! i) = base_loop \<longrightarrow> conn_step (wr i) (cb i) Destroyed (conn_obj (heap s ! i)) \<noteq> None)"
      using Cons.IH [of s1] Cons.prems same by fastforce
    ultimately show ?thesis using Some item by (simp del: conn_step.simps)
  qed
qed simp

lemma connectDestroyed_live:
  assumes "conn_inv c" "live c" "callbacks_ok cb" "write_ok wr"
  shows "conn_step wr cb Destroyed c \<noteq> None \<longleftrightarrow> state c = kConnected \<or> interest c = Some kNoneEvent"
proof (cases "state c = kConnected")
  case True
  then show ?thesis using connectDestroyed_ok [OF assms(1) _ _ assms(3,4)] live_inv [OF assms(1,2)] by auto
next
  case False
  then show ?thesis by (simp add: connectDestroyed_def conn_remove_def cassert_def)
qed

lemma connections_entries:
  assumes inv: "server_inv s"
  shows "(n, i) \<in> set (connections s) \<longleftrightarrow> i < length (heap s) \<and> n = conn_name (heap s ! i) \<and> in_map s i"
    and "distinct (map snd (connections s))"
proof -
  have d: "distinct (map fst (connections s))" by (rule smap_ok_distinct [OF server_inv_smap [OF inv]])
  show e: "(n, i) \<in> set (connections s) \<longleftrightarrow> i < length (heap s) \<and> n = conn_name (heap s ! i) \<and> in_map s i" for n i
    using map_of_eq_Some_iff [OF d, of n i] inv by (auto simp: in_map_def server_inv_def map_ok_def)
  then have "inj_on snd (set (connections s))" by (auto simp: inj_on_def)
  then show "distinct (map snd (connections s))" using d by (simp add: distinct_map)
qed

subsection \<open>Properties\<close>

text \<open>A server on port 80 with two threads and quiet callbacks, after it was started.\<close>

definition demo_inet :: inet where
  "demo_inet = \<lparr>ntop4 = (\<lambda>_. ''0.0.0.0''), ntop6 = (\<lambda>_. ''::''), pton4 = (\<lambda>_. None), pton6 = (\<lambda>_. None)\<rparr>"

definition demo_addr :: InetAddress where
  "demo_addr = InetAddress_new LittleEndian \<lparr>sin_family = 0, sin_port = 0, sin_addr = 0, sin6_addr = [], sin6_scope_id = 0\<rparr> 80 False False"

definition demo_server :: TcpServer where
  "demo_server = \<lparr>srv_ipPort = ''0.0.0.0:80'', srv_name = ''S'',
     acceptor = \<lparr>listenning = True, accInterest = Some kReadEvent, accRemoved = False, idleFd = 4, closedFds = []\<rparr>,
     threadPool = \<lparr>pool_name = ''S'', pool_started = True, numThreads = 2, pool_next = 0, threads = [''S0'', ''S1''], loops = [1, 2]\<rparr>,
     srv_hasWriteComplete = False, srv_hasThreadInit = False, srv_started = True, nextConnId = 1, connections = [],
     heap = [], queues = (\<lambda>_. [])\<rparr>"

definition demo_new :: TcpServer where
  "demo_new = demo_server\<lparr>
     acceptor := \<lparr>listenning = False, accInterest = None, accRemoved = False, idleFd = 4, closedFds = []\<rparr>,
     threadPool := EventLoopThreadPool_new ''S'', srv_started := False\<rparr>"

lemma demo_facts:
  "ntop_ok demo_inet" "params_ok (\<lambda>_ i d. Wrote (length d)) (\<lambda>_ _ _. [])"
  "TcpServer_new LittleEndian demo_inet demo_addr ''S'' 3 0 4 False False = Some demo_new"
  "server_reachable (\<lambda>_ i d. Wrote (length d)) (\<lambda>_ _ _. []) demo_new demo_server"
proof -
  show n: "ntop_ok demo_inet" by (simp add: ntop_ok_def demo_inet_def af_defs)
  show "params_ok (\<lambda>_ i d. Wrote (length d)) (\<lambda>_ _ _. [])" using quiet_params by (simp add: params_ok_def)
  have "sin_family demo_addr = AF_INET" by (simp add: demo_addr_def InetAddress_new_def Let_def)
  moreover have "show_nat 80 = ''80''" by code_simp
  ultimately have "InetAddress_toIpPort LittleEndian demo_inet demo_addr = Some ''0.0.0.0:80''"
    by (simp add: InetAddress_toIpPort_eq [OF n] ip_text_def) (simp add: demo_inet_def demo_addr_def InetAddress_port)
  then show "TcpServer_new LittleEndian demo_inet demo_addr ''S'' 3 0 4 False False = Some demo_new"
    by (simp add: TcpServer_new_def Acceptor_new_def demo_new_def demo_server_def)
  let ?s = "demo_new\<lparr>threadPool := EventLoopThreadPool_setThreadNum 2 (EventLoopThreadPool_new ''S'')\<rparr>"
  let ?wr = "\<lambda>(_::nat) (i::nat) d. Wrote (length (d :: char list))" and ?cb = "\<lambda>(_::nat) _ _. []"
  have 1: "server_step ?wr ?cb (SetThreadNum 2) demo_new = Some ?s"
    by (simp add: TcpServer_setThreadNum_def demo_new_def)
  have "show_nat 0 = ''0''" "show_nat (Suc 0) = ''1''" "[0..<2] = [0, 1]" by code_simp+
  then have 2: "server_step ?wr ?cb (Start True 0) ?s = Some demo_server"
    by (simp add: TcpServer_start_def EventLoopThreadPool_start_def start_thread_def Acceptor_listen_def
        acc_channel_def Let_def demo_new_def demo_server_def EventLoopThreadPool_setThreadNum_def
        EventLoopThreadPool_new_def thread_loop_def event_consts c_str_def)
  show "server_reachable ?wr ?cb demo_new demo_server"
    by (rule server_reachable.step [OF server_reachable.step [OF server_reachable.new _ 1] _ 2]) simp_all
qed

text \<open>The same server without threads, with one client whose connection was shut down and not yet closed.\<close>

definition demo_half_closed :: TcpServer where
  "demo_half_closed = demo_server\<lparr>threadPool := (EventLoopThreadPool_new ''S'')\<lparr>pool_started := True\<rparr>, nextConnId := 2,
     connections := [(''S-0.0.0.0:80#1'', 0)],
     heap := [\<lparr>conn_name = ''S-0.0.0.0:80#1'', conn_loop = 0, conn_fd = 7, conn_obj = (TcpConnection_new False False)
       \<lparr>state := kDisconnecting, interest := Some 3, shutdownReq := True, shutdownWr := True\<rparr>\<rparr>]\<rparr>"

lemma demo_closing: "server_reachable (\<lambda>_ i d. Wrote (length d)) (\<lambda>_ _ _. []) demo_new demo_half_closed"
proof -
  let ?s1 = "demo_server\<lparr>threadPool := (EventLoopThreadPool_new ''S'')\<lparr>pool_started := True\<rparr>\<rparr>"
  let ?s2 = "demo_half_closed\<lparr>heap := [\<lparr>conn_name = ''S-0.0.0.0:80#1'', conn_loop = 0, conn_fd = 7,
    conn_obj = (TcpConnection_new False False)\<lparr>state := kConnected, interest := Some 3\<rparr>\<rparr>]\<rparr>"
  let ?wr = "\<lambda>(_::nat) (i::nat) d. Wrote (length (d :: char list))" and ?cb = "\<lambda>(_::nat) _ _. []"
  have 1: "server_step ?wr ?cb (Start True 0) demo_new = Some ?s1"
    by (simp add: TcpServer_start_def EventLoopThreadPool_start_def Acceptor_listen_def acc_channel_def Let_def demo_new_def
        demo_server_def EventLoopThreadPool_new_def event_consts)
  have "snprintf 64 (''-'' @ c_str ''0.0.0.0:80'' @ ''#'' @ show_int 1) = ''-0.0.0.0:80#1''" by code_simp
  then have 2: "server_step ?wr ?cb (AcceptReady (Accepted 7) 0 0) ?s1 = Some ?s2"
    by (simp add: Acceptor_handleRead_def sockets_accept_def TcpServer_newConnection_def getNextLoop_def conn_apply_def
        connectEstablished_def TcpConnection_new_def conn_channel_def run_callback_def event_consts base_loop_def Let_def
        demo_server_def demo_half_closed_def EventLoopThreadPool_new_def)
  have 3: "server_step ?wr ?cb (ConnEvent 0 (UserCall Shutdown)) ?s2 = Some demo_half_closed"
    by (simp add: conn_handle_def conn_apply_def TcpConnection_shutdown_def shutdownInLoop_def conn_isWriting_def event_consts
        TcpConnection_new_def demo_half_closed_def demo_server_def)
  show ?thesis
    by (rule server_reachable.step [OF server_reachable.step [OF server_reachable.step [OF server_reachable.new _ 1] _ 2] _ 3])
      (simp_all add: demo_new_def demo_server_def demo_half_closed_def sockets_accept_def)
qed





end
