(* ===== verification/Base_LogFile.thy ===== *)
theory Base_LogFile
  imports Base_Timestamp
begin

section \<open>Log files\<close>

text \<open>
  \<^verbatim>\<open>muduo/base/LogFile.cc\<close> and the class \<^verbatim>\<open>AppendFile\<close> of \<^verbatim>\<open>FileUtil.cc\<close>: log lines go to a file that is
  replaced by a new one when it has grown too large or when a day has passed.

  \<^verbatim>\<open>fwrite_unlocked\<close> is a parameter \<open>fw\<close>: how much of a number of bytes it takes, for the name of the file and
  the number of the call.  \<^verbatim>\<open>time(2)\<close> is an argument of the operations, once for every call they make.
\<close>

subsection \<open>Files that grow\<close>

text \<open>\<open>af_stream\<close> holds the bytes that the stream took, \<open>af_flushed\<close> how many of them were flushed.\<close>

record AppendFile =
  af_name :: string
  af_stream :: "char list"
  af_flushed :: nat
  af_calls :: nat
  writtenBytes :: int

type_synonym fwrite_oracle = "string \<Rightarrow> nat \<Rightarrow> nat \<Rightarrow> nat"

definition AppendFile_new :: "bool \<Rightarrow> string \<Rightarrow> AppendFile option" where
  "AppendFile_new opened filename = do {
     cassert opened;
     Some \<lparr>af_name = filename, af_stream = [], af_flushed = 0, af_calls = 0, writtenBytes = 0\<rparr>
   }"

definition AppendFile_write :: "fwrite_oracle \<Rightarrow> char list \<Rightarrow> AppendFile \<Rightarrow> nat \<times> AppendFile" where
  "AppendFile_write fw logline f =
     (let n = min (fw (af_name f) (af_calls f) (length logline)) (length logline)
      in (n, f\<lparr>af_stream := af_stream f @ take n logline, af_calls := af_calls f + 1\<rparr>))"

text \<open>The loop of \<^verbatim>\<open>append\<close>; \<open>rest\<close> is what remains to be written.\<close>

function append_loop :: "fwrite_oracle \<Rightarrow> char list \<Rightarrow> AppendFile \<Rightarrow> AppendFile" where
  "append_loop fw rest f =
     (if rest = [] then f
      else (let (x, f') = AppendFile_write fw rest f
            in if x = 0 then f' else append_loop fw (drop x rest) f'))"
  by auto
termination
  by (relation "measure (\<lambda>(fw, rest, f). length rest)") (auto simp: AppendFile_write_def Let_def)

definition AppendFile_append :: "fwrite_oracle \<Rightarrow> char list \<Rightarrow> AppendFile \<Rightarrow> AppendFile" where
  "AppendFile_append fw logline f =
     (let (n, f) = AppendFile_write fw logline f;
          f = append_loop fw (drop n logline) f
      in f\<lparr>writtenBytes := writtenBytes f + int (length logline)\<rparr>)"

definition AppendFile_flush :: "AppendFile \<Rightarrow> AppendFile" where
  "AppendFile_flush f = f\<lparr>af_flushed := length (af_stream f)\<rparr>"

subsection \<open>Rolling\<close>

text \<open>
  What the process is asked for: the name of the host, the process id, and whether a file can be opened.
\<close>

record log_env =
  env_hostname :: string
  env_pid :: int
  env_opens :: "string \<Rightarrow> bool"

record LogFile =
  lf_basename :: string
  rollSize :: int
  flushInterval :: int
  checkEveryN :: int
  lf_count :: int
  startOfPeriod :: int
  lastRoll :: int
  lastFlush :: int
  lf_file :: "AppendFile option"
  closed :: "AppendFile list"

definition kRollPerSeconds :: int where "kRollPerSeconds = 60 * 60 * 24"

text \<open>
  \<^verbatim>\<open>strftime\<close> into an array of 32 characters with the format \<^verbatim>\<open>.%Y%m%d-%H%M%S.\<close>; when the text does not fit
  the array is indeterminate.
\<close>

definition strftime_log :: "tm \<Rightarrow> string option" where
  "strftime_log tm = (let s = ''.'' @ show_int (tm_year tm + 1900) @ fmt_d (CHR ''0'') 2 (tm_mon tm + 1)
       @ fmt_d (CHR ''0'') 2 (tm_mday tm) @ ''-'' @ fmt_d (CHR ''0'') 2 (tm_hour tm) @ fmt_d (CHR ''0'') 2 (tm_min tm)
       @ fmt_d (CHR ''0'') 2 (tm_sec tm) @ ''.''
     in if length s < 32 then Some s else None)"

definition getLogFileName :: "log_env \<Rightarrow> string \<Rightarrow> int \<Rightarrow> string option" where
  "getLogFileName env basename now = do {
     let filename = basename;
     timebuf \<leftarrow> strftime_log (gmtime_r now);
     let filename = filename @ timebuf;
     let filename = filename @ env_hostname env;
     let pidbuf = snprintf 32 (''.'' @ show_int (env_pid env));
     let filename = filename @ pidbuf;
     Some (filename @ ''.log'')
   }"

definition rollFile :: "log_env \<Rightarrow> int \<Rightarrow> LogFile \<Rightarrow> (bool \<times> LogFile) option" where
  "rollFile env now lf = do {
     filename \<leftarrow> getLogFileName env (lf_basename lf) now;
     let start = now sdiv kRollPerSeconds * kRollPerSeconds;
     (if now > lastRoll lf
      then do {
        let lf = lf\<lparr>startOfPeriod := start, lastRoll := now, lastFlush := now\<rparr>;
        f \<leftarrow> AppendFile_new (env_opens env filename) filename;
        Some (True, lf\<lparr>closed := closed lf @ (case lf_file lf of Some old \<Rightarrow> [old] | None \<Rightarrow> []), lf_file := Some f\<rparr>)
      }
      else Some (False, lf))
   }"

definition LogFile_new :: "log_env \<Rightarrow> string \<Rightarrow> int \<Rightarrow> int \<Rightarrow> int \<Rightarrow> int \<Rightarrow> LogFile option" where
  "LogFile_new env basename rollSz flushInt checkN now = do {
     cassert (CHR ''/'' \<notin> set basename);
     (_, lf) \<leftarrow> rollFile env now
       \<lparr>lf_basename = basename, rollSize = rollSz, flushInterval = flushInt, checkEveryN = checkN, lf_count = 0,
        startOfPeriod = 0, lastRoll = 0, lastFlush = 0, lf_file = None, closed = []\<rparr>;
     Some lf
   }"

text \<open>\<open>now\<close> is the time that \<^verbatim>\<open>append_unlocked\<close> asks for itself, \<open>now'\<close> that of \<^verbatim>\<open>rollFile\<close>.\<close>

definition append_unlocked :: "fwrite_oracle \<Rightarrow> log_env \<Rightarrow> char list \<Rightarrow> int \<Rightarrow> int \<Rightarrow> LogFile \<Rightarrow> LogFile option" where
  "append_unlocked fw env logline now now' lf = do {
     f \<leftarrow> lf_file lf;
     let f = AppendFile_append fw logline f;
     let lf = lf\<lparr>lf_file := Some f\<rparr>;
     (if writtenBytes f > rollSize lf
      then do { (_, lf) \<leftarrow> rollFile env now' lf; Some lf }
      else do {
        let lf = lf\<lparr>lf_count := lf_count lf + 1\<rparr>;
        (if lf_count lf \<ge> checkEveryN lf
         then do {
           let lf = lf\<lparr>lf_count := 0\<rparr>;
           let thisPeriod = now sdiv kRollPerSeconds * kRollPerSeconds;
           (if thisPeriod \<noteq> startOfPeriod lf
            then do { (_, lf) \<leftarrow> rollFile env now' lf; Some lf }
            else if now - lastFlush lf > flushInterval lf
            then Some (lf\<lparr>lastFlush := now, lf_file := Some (AppendFile_flush f)\<rparr>)
            else Some lf)
         }
         else Some lf)
      })
   }"

text \<open>With the mutex or, when only one thread uses the file, without it.\<close>

definition LogFile_append :: "fwrite_oracle \<Rightarrow> log_env \<Rightarrow> char list \<Rightarrow> int \<Rightarrow> int \<Rightarrow> LogFile \<Rightarrow> LogFile option" where
  "LogFile_append fw env logline now now' lf = append_unlocked fw env logline now now' lf"

definition LogFile_flush :: "LogFile \<Rightarrow> LogFile option" where
  "LogFile_flush lf = do { f \<leftarrow> lf_file lf; Some (lf\<lparr>lf_file := Some (AppendFile_flush f)\<rparr>) }"

section \<open>What ends up in the files\<close>

subsection \<open>Names\<close>

lemma year_bound:
  assumes "0 \<le> t" "t < 2 ^ 63"
  shows "-4800 \<le> year (getYearMonthDay (t div kSecondsPerDay + 2440588))"
    "year (getYearMonthDay (t div kSecondsPerDay + 2440588)) < 10 ^ 17"
proof -
  let ?j = "t div kSecondsPerDay + 2440588"
  have j: "0 \<le> ?j + 32044" "?j + 32044 < 2 ^ 48" using assms by (simp_all add: kSecondsPerDay_def)
  define b where "b = (4 * (?j + 32044) + 3) div 146097"
  define c where "c = (?j + 32044) - (b * 146097) div 4"
  define d where "d = (4 * c + 3) div 1461"
  define e where "e = c - (1461 * d) div 4"
  define m where "m = (5 * e + 2) div 153"
  have b: "b < 2 ^ 48" using j by (simp add: b_def)
  note dig = era_digits [OF j(1), folded b_def, folded c_def, folded d_def, folded e_def, folded m_def]
  have m: "0 \<le> m div 10" "m div 10 \<le> 1" using dig(8,9) by simp_all
  have "year (getYearMonthDay ?j) = b * 100 + d - 4800 + m div 10"
    by (simp only: getYearMonthDay_nonneg [OF j(1), folded b_def, folded c_def, folded d_def, folded e_def, folded m_def] YearMonthDay.simps)
  then show "-4800 \<le> year (getYearMonthDay ?j)" "year (getYearMonthDay ?j) < 10 ^ 17"
    using b dig(1,4,5) m by simp_all
qed

text \<open>The fields of a broken-down time are in range, and its text fits and determines it.\<close>

lemma gmtime_ranges:
  assumes "0 \<le> t"
  defines "u \<equiv> gmtime_r t"
  shows "0 \<le> tm_mon u + 1" "tm_mon u + 1 < 100" "0 \<le> tm_mday u" "tm_mday u < 100" "0 \<le> tm_hour u" "tm_hour u < 100"
    "0 \<le> tm_min u" "tm_min u < 100" "0 \<le> tm_sec u" "tm_sec u < 100"
proof -
  have "0 \<le> t div kSecondsPerDay + 2440588 + 32044" using assms(1) by (simp add: kSecondsPerDay_def)
  from gregorian_getYearMonthDay [OF this]
  show "0 \<le> tm_mon u + 1" "tm_mon u + 1 < 100" "0 \<le> tm_mday u" "tm_mday u < 100" "0 \<le> tm_hour u" "tm_hour u < 100"
    "0 \<le> tm_min u" "tm_min u < 100" "0 \<le> tm_sec u" "tm_sec u < 100"
    by (auto simp: u_def gmtime_r_def toUtcTime_fields gregorian_def days_in_month_def kSecondsPerDay_def split: if_splits)
qed

lemma fmt_d_inj: "0 \<le> i \<Longrightarrow> 0 \<le> j \<Longrightarrow> fmt_d (CHR ''0'') w i = fmt_d (CHR ''0'') w j \<Longrightarrow> i = j"
  using nat_of_digits_fmt_d [of i w] nat_of_digits_fmt_d [of j w] by simp

lemma show_int_inj: "show_int i = show_int j \<Longrightarrow> i = j"
proof -
  assume eq: "show_int i = show_int j"
  have no: "hd (show_nat n) \<noteq> CHR ''-''" for n
  proof -
    have "is_digit (hd (show_nat n))" using show_nat_digits [of n] by simp
    then show ?thesis by (auto simp: is_digit_def)
  qed
  have inj: "show_nat n = show_nat m \<longleftrightarrow> n = m" for n m by (metis nat_of_digits_show_nat)
  have neg: "CHR ''-'' # show_nat n \<noteq> show_nat m" for n m using no [of m] by (metis list.sel(1))
  show "i = j"
    using eq neg neg [symmetric] by (auto simp: show_int_def inj split: if_splits)
qed

lemma strftime_log_fits:
  assumes "0 \<le> t" "t < 2 ^ 63"
  shows "strftime_log (gmtime_r t) \<noteq> None"
proof -
  let ?y = "tm_year (gmtime_r t) + 1900"
  have y: "-4800 \<le> ?y" "?y < 10 ^ 17" using year_bound [OF assms] by (simp_all add: gmtime_r_def toUtcTime_fields)
  have "length (show_nat (nat ?y)) \<le> 17" "length (show_nat (nat (- ?y))) \<le> 16"
    using y by (auto intro!: length_show_nat simp: nat_less_iff)
  then have "length (show_int ?y) \<le> 17" by (simp add: show_int_def)
  then show ?thesis using gmtime_ranges [OF assms(1)] by (simp add: strftime_log_def length_fmt_d_pad)
qed

lemma strftime_log_inj:
  assumes "0 \<le> t" "0 \<le> u" "strftime_log (gmtime_r t) = Some s" "strftime_log (gmtime_r u) = Some s"
  shows "t = u"
proof -
  note r = gmtime_ranges [OF assms(1)] and q = gmtime_ranges [OF assms(2)]
  have "show_int (tm_year (gmtime_r t) + 1900) = show_int (tm_year (gmtime_r u) + 1900)"
    "fmt_d (CHR ''0'') 2 (tm_mon (gmtime_r t) + 1) = fmt_d (CHR ''0'') 2 (tm_mon (gmtime_r u) + 1)"
    "fmt_d (CHR ''0'') 2 (tm_mday (gmtime_r t)) = fmt_d (CHR ''0'') 2 (tm_mday (gmtime_r u))"
    "fmt_d (CHR ''0'') 2 (tm_hour (gmtime_r t)) = fmt_d (CHR ''0'') 2 (tm_hour (gmtime_r u))"
    "fmt_d (CHR ''0'') 2 (tm_min (gmtime_r t)) = fmt_d (CHR ''0'') 2 (tm_min (gmtime_r u))"
    "fmt_d (CHR ''0'') 2 (tm_sec (gmtime_r t)) = fmt_d (CHR ''0'') 2 (tm_sec (gmtime_r u))"
    using assms(3,4) r q by (auto simp: strftime_log_def Let_def length_fmt_d_pad append_eq_append_conv split: if_splits)
  then have "fromUtcTime (gmtime_r t) = fromUtcTime (gmtime_r u)"
    using r q by (auto simp: fromUtcTime_def dest!: fmt_d_inj [rotated 2] show_int_inj)
  then show ?thesis
    using fromUtcTime_toUtcTime [of t True] fromUtcTime_toUtcTime [of u True] assms(1,2) by (simp add: gmtime_r_def kSecondsPerDay_def)
qed

lemma getLogFileName_inj:
  assumes "0 \<le> t" "0 \<le> u" "getLogFileName env b t = Some n" "getLogFileName env b u = Some n"
  shows "t = u"
  using assms strftime_log_inj [OF assms(1,2)] by (auto simp: getLogFileName_def Let_def bind_eq_Some_conv)

subsection \<open>Contents\<close>

text \<open>A stream without errors takes at least one of the bytes it is given.\<close>

definition fw_ok :: "fwrite_oracle \<Rightarrow> bool" where
  "fw_ok fw \<longleftrightarrow> (\<forall>name c n. 0 < n \<longrightarrow> 0 < fw name c n)"

declare append_loop.simps [simp del]

lemma append_loop_all:
  assumes "fw_ok fw"
  shows "af_stream (append_loop fw rest f) = af_stream f @ rest \<and> af_name (append_loop fw rest f) = af_name f
    \<and> writtenBytes (append_loop fw rest f) = writtenBytes f"
  using assms
proof (induction fw rest f rule: append_loop.induct)
  case (1 fw rest f)
  show ?case
  proof (cases "rest = []")
    case False
    then have "fst (AppendFile_write fw rest f) \<noteq> 0" using "1.prems" by (simp add: AppendFile_write_def fw_ok_def Let_def)
    then show ?thesis
      using "1.IH" [OF False] "1.prems" False by (subst append_loop.simps) (auto simp: AppendFile_write_def Let_def append_loop.simps)
  qed (simp add: append_loop.simps)
qed

lemma AppendFile_append_all:
  assumes "fw_ok fw"
  shows "af_stream (AppendFile_append fw line f) = af_stream f @ line" "af_name (AppendFile_append fw line f) = af_name f"
    "writtenBytes (AppendFile_append fw line f) = writtenBytes f + int (length line)"
  using append_loop_all [OF assms] by (simp_all add: AppendFile_append_def AppendFile_write_def Let_def)

definition log_files :: "LogFile \<Rightarrow> AppendFile list" where
  "log_files lf = closed lf @ (case lf_file lf of Some f \<Rightarrow> [f] | None \<Rightarrow> [])"

text \<open>\<open>blocks\<close> are the lines of each file, \<open>ts\<close> the moments at which the files were made.\<close>

definition lf_inv :: "log_env \<Rightarrow> int list \<Rightarrow> string list list \<Rightarrow> LogFile \<Rightarrow> bool" where
  "lf_inv env ts blocks lf \<longleftrightarrow> lf_file lf \<noteq> None \<and> map af_stream (log_files lf) = map concat blocks
     \<and> map (getLogFileName env (lf_basename lf)) ts = map (Some \<circ> af_name) (log_files lf)
     \<and> sorted_wrt (<) ts \<and> (\<forall>t \<in> set ts. 0 < t \<and> t \<le> lastRoll lf)"

definition time_ok :: "int \<Rightarrow> bool" where
  "time_ok t \<longleftrightarrow> 0 < t \<and> t < 2 ^ 63"

definition env_ok :: "log_env \<Rightarrow> bool" where
  "env_ok env \<longleftrightarrow> (\<forall>n. env_opens env n)"

lemma rollFile_inv:
  assumes inv: "lf_inv env ts blocks lf" and ok: "time_ok now" "env_ok env"
  shows "\<exists>b lf' ts' blocks'. rollFile env now lf = Some (b, lf') \<and> lf_inv env ts' blocks' lf' \<and> concat blocks' = concat blocks"
proof -
  obtain n where n: "getLogFileName env (lf_basename lf) now = Some n"
    using strftime_log_fits [of now] ok(1) by (auto simp: getLogFileName_def time_ok_def Let_def)
  obtain f where f: "lf_file lf = Some f" using inv by (auto simp: lf_inv_def)
  show ?thesis
  proof (cases "now > lastRoll lf")
    case True
    let ?new = "\<lparr>af_name = n, af_stream = [], af_flushed = 0, af_calls = 0, writtenBytes = 0\<rparr>"
    let ?lf = "lf\<lparr>startOfPeriod := now sdiv kRollPerSeconds * kRollPerSeconds, lastRoll := now, lastFlush := now,
      closed := closed lf @ [f], lf_file := Some ?new\<rparr>"
    have "rollFile env now lf = Some (True, ?lf)"
      using True n f ok(2) by (simp add: rollFile_def AppendFile_new_def env_ok_def Let_def)
    moreover have "lf_inv env (ts @ [now]) (blocks @ [[]]) ?lf"
      using inv True n f ok(1) by (auto simp: lf_inv_def log_files_def sorted_wrt_append time_ok_def)
    ultimately show ?thesis by fastforce
  qed (use inv n in \<open>auto simp: rollFile_def\<close>)
qed

lemma lf_inv_file:
  assumes inv: "lf_inv env ts blocks lf" and f: "lf_file lf = Some f"
    and f': "af_stream f' = af_stream f @ concat new" "af_name f' = af_name f"
    and lf': "lf_file lf' = Some f'" "closed lf' = closed lf" "lf_basename lf' = lf_basename lf" "lastRoll lf' = lastRoll lf"
  shows "\<exists>blocks'. lf_inv env ts blocks' lf' \<and> concat blocks' = concat blocks @ new"
proof -
  have m: "map af_stream (closed lf) @ [af_stream f] = map concat blocks" using inv f by (simp add: lf_inv_def log_files_def)
  then obtain bs b where b: "blocks = bs @ [b]" "map af_stream (closed lf) = map concat bs" "af_stream f = concat b"
    by (cases blocks rule: rev_cases) auto
  have "lf_inv env ts (bs @ [b @ new]) lf'"
    using inv f f' lf' b by (simp add: lf_inv_def log_files_def)
  then show ?thesis using b(1) by fastforce
qed

lemma append_inv:
  assumes inv: "lf_inv env ts blocks lf" and ok: "time_ok now'" "env_ok env" "fw_ok fw"
  shows "\<exists>lf' ts' blocks'. LogFile_append fw env line now now' lf = Some lf' \<and> lf_inv env ts' blocks' lf'
    \<and> concat blocks' = concat blocks @ [line]"
proof -
  obtain f where f: "lf_file lf = Some f" using inv by (auto simp: lf_inv_def)
  let ?f = "AppendFile_append fw line f"
  have kept: "\<exists>blocks'. lf_inv env ts blocks' lf' \<and> concat blocks' = concat blocks @ [line]"
    if "lf_file lf' = Some ?f \<or> lf_file lf' = Some (AppendFile_flush ?f)" "closed lf' = closed lf"
      "lf_basename lf' = lf_basename lf" "lastRoll lf' = lastRoll lf" for lf'
    using lf_inv_file [OF inv f, of ?f "[line]" lf'] lf_inv_file [OF inv f, of "AppendFile_flush ?f" "[line]" lf'] that
      AppendFile_append_all [OF ok(3), of line f] by (auto simp: AppendFile_flush_def)
  have roll: "\<exists>b lf'' ts' blocks'. rollFile env now' lf' = Some (b, lf'') \<and> lf_inv env ts' blocks' lf''
      \<and> concat blocks' = concat blocks @ [line]"
    if "lf_file lf' = Some ?f \<or> lf_file lf' = Some (AppendFile_flush ?f)" "closed lf' = closed lf"
      "lf_basename lf' = lf_basename lf" "lastRoll lf' = lastRoll lf" for lf'
    using kept [OF that] rollFile_inv [OF _ ok(1,2)] by metis
  let ?lf1 = "lf\<lparr>lf_file := Some ?f\<rparr>" and ?lf2 = "lf\<lparr>lf_file := Some ?f, lf_count := lf_count lf + 1\<rparr>"
  let ?lf3 = "lf\<lparr>lf_file := Some ?f, lf_count := 0\<rparr>"
  let ?lf4 = "lf\<lparr>lf_count := 0, lastFlush := now, lf_file := Some (AppendFile_flush ?f)\<rparr>"
  show ?thesis
    using roll [of ?lf1] kept [of ?lf2] roll [of ?lf3] kept [of ?lf3] kept [of ?lf4] f
    by (auto simp: LogFile_append_def append_unlocked_def Let_def)
qed

subsection \<open>What a sink for log lines promises\<close>

text \<open>
  The contract on which the asynchronous logger relies: a sink takes lines at a given time, flushes, and
  its text grows by exactly the lines it took.
\<close>

locale log_sink =
  fixes sink_ok :: "'s \<Rightarrow> bool" and sink_text :: "'s \<Rightarrow> string" and time_good :: "'t \<Rightarrow> bool"
    and sink_append :: "'t \<Rightarrow> string \<Rightarrow> 's \<Rightarrow> 's option" and sink_flush :: "'s \<Rightarrow> 's option"
  assumes append_law: "sink_ok s \<Longrightarrow> time_good t \<Longrightarrow> \<exists>s'. sink_append t line s = Some s' \<and> sink_ok s' \<and> sink_text s' = sink_text s @ line"
    and flush_law: "sink_ok s \<Longrightarrow> \<exists>s'. sink_flush s = Some s' \<and> sink_ok s' \<and> sink_text s' = sink_text s"
begin

lemma append_all:
  assumes "sink_ok s" "\<forall>(t, line) \<in> set xs. time_good t"
  shows "\<exists>s'. run_ops (\<lambda>(t, line). sink_append t line) xs s = Some s' \<and> sink_ok s' \<and> sink_text s' = sink_text s @ concat (map snd xs)"
  using assms
proof (induction xs arbitrary: s)
  case (Cons x xs)
  obtain t line where x: "x = (t, line)" by fastforce
  obtain s1 where s1: "sink_append t line s = Some s1" "sink_ok s1" "sink_text s1 = sink_text s @ line"
    using append_law [OF Cons.prems(1), of t line] Cons.prems(2) by (auto simp: x)
  show ?case using Cons.IH [OF s1(2)] Cons.prems(2) s1(1,3) by (auto simp: x)
qed simp

end

text \<open>The text of the files in the order in which they were made, and the interpretation.\<close>

definition file_text :: "LogFile \<Rightarrow> string" where
  "file_text lf = concat (map af_stream (log_files lf))"

definition lf_ok :: "log_env \<Rightarrow> LogFile \<Rightarrow> bool" where
  "lf_ok env lf \<longleftrightarrow> (\<exists>ts blocks. lf_inv env ts blocks lf)"

lemma concat_map_concat: "concat (map concat xss) = concat (concat xss)"
  by (induction xss) simp_all

lemma file_text_blocks: "lf_inv env ts blocks lf \<Longrightarrow> file_text lf = concat (concat blocks)"
  by (simp add: lf_inv_def file_text_def concat_map_concat)

lemma LogFile_flush_ok:
  assumes "lf_ok env lf"
  shows "\<exists>lf'. LogFile_flush lf = Some lf' \<and> lf_ok env lf' \<and> file_text lf' = file_text lf"
proof -
  obtain ts blocks f where inv: "lf_inv env ts blocks lf" and f: "lf_file lf = Some f" using assms by (auto simp: lf_ok_def lf_inv_def)
  let ?lf = "lf\<lparr>lf_file := Some (AppendFile_flush f)\<rparr>"
  have "\<exists>blocks'. lf_inv env ts blocks' ?lf \<and> concat blocks' = concat blocks @ []"
    by (rule lf_inv_file [OF inv f]) (simp_all add: AppendFile_flush_def)
  then obtain blocks' where b: "lf_inv env ts blocks' ?lf" "concat blocks' = concat blocks" by auto
  then have "file_text ?lf = file_text lf" using file_text_blocks [OF inv] file_text_blocks [OF b(1)] by simp
  moreover have "lf_ok env ?lf" using b(1) by (auto simp: lf_ok_def)
  ultimately show ?thesis using f by (simp add: LogFile_flush_def)
qed

interpretation lfs: log_sink "lf_ok env" file_text "\<lambda>t. time_ok (snd t) \<and> env_ok env \<and> fw_ok fw"
  "\<lambda>t line. LogFile_append fw env line (fst t) (snd t)" LogFile_flush for fw env
proof unfold_locales
  fix fw env line and s :: LogFile and t :: "int \<times> int"
  assume "lf_ok env s" and t: "time_ok (snd t) \<and> env_ok env \<and> fw_ok fw"
  then obtain ts blocks where inv: "lf_inv env ts blocks s" by (auto simp: lf_ok_def)
  obtain s' ts' blocks' where s': "LogFile_append fw env line (fst t) (snd t) s = Some s'" "lf_inv env ts' blocks' s'"
    "concat blocks' = concat blocks @ [line]"
    using append_inv [OF inv, of "snd t" fw line "fst t"] t by blast
  then show "\<exists>s'. LogFile_append fw env line (fst t) (snd t) s = Some s' \<and> lf_ok env s' \<and> file_text s' = file_text s @ line"
    using file_text_blocks [OF inv] file_text_blocks [OF s'(2)] by (auto simp: lf_ok_def)
qed (rule LogFile_flush_ok)

subsection \<open>Properties\<close>

datatype log_file_op = FAppend string int int | FFlush | FRoll int

fun log_file_step :: "fwrite_oracle \<Rightarrow> log_env \<Rightarrow> log_file_op \<Rightarrow> LogFile \<Rightarrow> LogFile option" where
  "log_file_step fw env (FAppend line now now') lf = LogFile_append fw env line now now' lf"
| "log_file_step fw env FFlush lf = LogFile_flush lf"
| "log_file_step fw env (FRoll now) lf = do { (_, lf) \<leftarrow> rollFile env now lf; Some lf }"

fun log_file_op_ok :: "log_file_op \<Rightarrow> bool" where
  "log_file_op_ok (FAppend line now now') \<longleftrightarrow> time_ok now'"
| "log_file_op_ok FFlush \<longleftrightarrow> True"
| "log_file_op_ok (FRoll now) \<longleftrightarrow> time_ok now"

fun op_lines :: "log_file_op \<Rightarrow> string list" where
  "op_lines (FAppend line now now') = [line]"
| "op_lines _ = []"

lemma log_file_step_inv:
  assumes "lf_inv env ts blocks lf" "log_file_op_ok x" "env_ok env" "fw_ok fw"
  shows "\<exists>lf' ts' blocks'. log_file_step fw env x lf = Some lf' \<and> lf_inv env ts' blocks' lf'
    \<and> concat blocks' = concat blocks @ op_lines x"
proof (cases x)
  case (FAppend line now now')
  then show ?thesis using append_inv [OF assms(1) _ assms(3,4), of now' line now] assms(2) by simp
next
  case FFlush
  obtain f where f: "lf_file lf = Some f" using assms(1) by (auto simp: lf_inv_def)
  have "\<exists>blocks'. lf_inv env ts blocks' (lf\<lparr>lf_file := Some (AppendFile_flush f)\<rparr>) \<and> concat blocks' = concat blocks @ []"
    by (rule lf_inv_file [OF assms(1) f]) (simp_all add: AppendFile_flush_def)
  then show ?thesis using FFlush f by (auto simp: LogFile_flush_def)
next
  case (FRoll now)
  then show ?thesis using rollFile_inv [OF assms(1) _ assms(3), of now] assms(2) by fastforce
qed

lemma log_file_run_inv:
  assumes "lf_inv env ts blocks lf" "\<forall>x \<in> set ops. log_file_op_ok x" "env_ok env" "fw_ok fw"
  shows "\<exists>lf' ts' blocks'. run_ops (log_file_step fw env) ops lf = Some lf' \<and> lf_inv env ts' blocks' lf'
    \<and> concat blocks' = concat blocks @ concat (map op_lines ops)"
  using assms(1,2)
proof (induction ops arbitrary: ts blocks lf)
  case (Cons x ops)
  obtain lf1 ts1 blocks1 where 1: "log_file_step fw env x lf = Some lf1" "lf_inv env ts1 blocks1 lf1"
    "concat blocks1 = concat blocks @ op_lines x"
    using log_file_step_inv [OF Cons.prems(1) _ assms(3,4), of x] Cons.prems(2) by auto
  from Cons.IH [OF 1(2)] Cons.prems(2) 1(1,3) show ?case by auto
qed auto

lemma LogFile_new_inv:
  assumes "CHR ''/'' \<notin> set basename" "time_ok now" "env_ok env"
  shows "\<exists>lf ts. LogFile_new env basename rs fi n now = Some lf \<and> lf_inv env ts [[]] lf"
proof -
  obtain nm where nm: "getLogFileName env basename now = Some nm"
    using strftime_log_fits [of now] assms(2) by (auto simp: getLogFileName_def time_ok_def Let_def)
  let ?lf = "\<lparr>lf_basename = basename, rollSize = rs, flushInterval = fi, checkEveryN = n, lf_count = 0,
     startOfPeriod = now sdiv kRollPerSeconds * kRollPerSeconds, lastRoll = now, lastFlush = now,
     lf_file = Some \<lparr>af_name = nm, af_stream = [], af_flushed = 0, af_calls = 0, writtenBytes = 0\<rparr>, closed = []\<rparr>"
  have "LogFile_new env basename rs fi n now = Some ?lf"
    using assms nm by (simp add: LogFile_new_def rollFile_def AppendFile_new_def env_ok_def time_ok_def Let_def)
  moreover have "lf_inv env [now] [[]] ?lf" using nm assms(2) by (simp add: lf_inv_def log_files_def time_ok_def)
  ultimately show ?thesis by blast
qed

lemma LogFile_new_ok:
  assumes "CHR ''/'' \<notin> set basename" "time_ok now" "env_ok env"
  shows "\<exists>lf. LogFile_new env basename rs fi n now = Some lf \<and> lf_ok env lf \<and> file_text lf = []"
  using LogFile_new_inv [OF assms, of rs fi n] file_text_blocks [of env _ "[[]]"] by (fastforce simp: lf_ok_def)

lemma lf_inv_distinct:
  assumes "lf_inv env ts blocks lf"
  shows "distinct (map af_name (log_files lf))"
proof -
  have eq: "map (getLogFileName env (lf_basename lf)) ts = map Some (map af_name (log_files lf))"
    and ts: "sorted_wrt (<) ts" "\<forall>t \<in> set ts. 0 < t"
    using assms by (auto simp: lf_inv_def)
  have "distinct ts" using ts(1) by (simp add: strict_sorted_iff)
  moreover have "inj_on (getLogFileName env (lf_basename lf)) (set ts)"
  proof (rule inj_onI)
    fix t u assume tu: "t \<in> set ts" "u \<in> set ts" "getLogFileName env (lf_basename lf) t = getLogFileName env (lf_basename lf) u"
    have "getLogFileName env (lf_basename lf) t \<in> Some ` set (map af_name (log_files lf))"
      using tu(1) arg_cong [OF eq, of set] by (metis image_eqI list.set_map)
    then show "t = u" using getLogFileName_inj [of t u] tu ts(2) by fastforce
  qed
  ultimately have "distinct (map Some (map af_name (log_files lf)))" unfolding eq [symmetric] by (simp add: distinct_map)
  then show ?thesis unfolding distinct_map [of Some] by (rule conjunct1)
qed

text \<open>
  C38. Every line is in a file, once and whole.  Whatever is appended, flushed and rolled, with a stream
  without errors, the files have different names and each holds a sequence of whole lines; put together
  in the order in which they were made, they hold the lines in the order in which they were appended.
\<close>

theorem LogFile_whole_lines:
  assumes "CHR ''/'' \<notin> set basename" "time_ok now" "env_ok env" "fw_ok fw" "\<forall>x \<in> set ops. log_file_op_ok x"
  shows "\<exists>lf0 lf blocks. LogFile_new env basename rs fi n now = Some lf0 \<and> run_ops (log_file_step fw env) ops lf0 = Some lf
    \<and> map af_stream (log_files lf) = map concat blocks \<and> concat blocks = concat (map op_lines ops)
    \<and> distinct (map af_name (log_files lf))"
proof -
  obtain lf0 ts where 0: "LogFile_new env basename rs fi n now = Some lf0" "lf_inv env ts [[]] lf0"
    using LogFile_new_inv [OF assms(1-3)] by blast
  obtain lf ts' blocks where "run_ops (log_file_step fw env) ops lf0 = Some lf" "lf_inv env ts' blocks lf"
    "concat blocks = concat (map op_lines ops)"
    using log_file_run_inv [OF 0(2) assms(5,3,4)] by auto
  then show ?thesis using 0(1) lf_inv_distinct [of env ts' blocks lf] by (auto simp: lf_inv_def)
qed

text \<open>The witness: a file that holds two bytes, one byte per write, and a line in the next second.\<close>

theorem LogFile_whole_lines_witness:
  "\<exists>lf0 lf blocks. LogFile_new \<lparr>env_hostname = ''host'', env_pid = 7, env_opens = (\<lambda>_. True)\<rparr> ''web'' 2 3 1024 1000000000 = Some lf0
    \<and> run_ops (log_file_step (\<lambda>_ _ _. 1) \<lparr>env_hostname = ''host'', env_pid = 7, env_opens = (\<lambda>_. True)\<rparr>)
        [FAppend ''abc'' 1000000001 1000000001, FAppend ''d'' 1000000001 1000000001] lf0 = Some lf
    \<and> map af_stream (log_files lf) = map concat blocks \<and> concat blocks = [''abc'', ''d'']"
  using LogFile_whole_lines [of "''web''" 1000000000 "\<lparr>env_hostname = ''host'', env_pid = 7, env_opens = (\<lambda>_. True)\<rparr>" "\<lambda>_ _ _. 1"
      "[FAppend ''abc'' 1000000001 1000000001, FAppend ''d'' 1000000001 1000000001]" 2 3 1024]
  by (simp add: time_ok_def env_ok_def fw_ok_def) blast

end
