(* ===== verification/Base_AsyncLogging.thy ===== *)
theory Base_AsyncLogging
  imports Base_LogStream Base_LogFile
begin

section \<open>Asynchronous logging\<close>

text \<open>
  \<^verbatim>\<open>muduo/base/AsyncLogging.h\<close> and \<^verbatim>\<open>AsyncLogging.cc\<close>: any thread appends lines to a buffer in memory, and a
  thread of its own writes the buffers to the log file.

  The critical sections and the stretches of the logging thread between them are the steps of a system;
  \<open>al_pc\<close> says where the logging thread is.  A wait with a timeout can end at any moment, whether it is
  notified or not.  \<open>N\<close> is the size of the buffers, the template argument \<^verbatim>\<open>kLargeBuffer\<close>.
\<close>

datatype async_pc = NotStarted | ThreadStart | ThreadLoop | ThreadLock | ThreadWait | ThreadWrite | ThreadDone

text \<open>The last three fields are histories: the bytes appended, the bytes taken by the thread, how often it dropped.\<close>

record AsyncLogging =
  al_running :: bool
  al_basename :: string
  al_rollSize :: int
  currentBuffer :: FixedBuffer
  nextBuffer :: "FixedBuffer option"
  al_buffers :: "FixedBuffer list"
  newBuffer1 :: "FixedBuffer option"
  newBuffer2 :: "FixedBuffer option"
  buffersToWrite :: "FixedBuffer list"
  al_output :: "LogFile option"
  al_pc :: async_pc
  al_lines :: string
  al_taken :: string
  al_drops :: nat

definition AsyncLogging_new :: "nat \<Rightarrow> string \<Rightarrow> int \<Rightarrow> AsyncLogging" where
  "AsyncLogging_new N basename rollSz =
     \<lparr>al_running = False, al_basename = basename, al_rollSize = rollSz,
      currentBuffer = FixedBuffer_bzero (FixedBuffer_new N), nextBuffer = Some (FixedBuffer_bzero (FixedBuffer_new N)),
      al_buffers = [], newBuffer1 = None, newBuffer2 = None, buffersToWrite = [], al_output = None,
      al_pc = NotStarted, al_lines = [], al_taken = [], al_drops = 0\<rparr>"

definition AsyncLogging_append :: "nat \<Rightarrow> string \<Rightarrow> AsyncLogging \<Rightarrow> AsyncLogging option" where
  "AsyncLogging_append N logline s =
     (if avail (currentBuffer s) > length logline
      then do {
        b \<leftarrow> FixedBuffer_append logline (length logline) (currentBuffer s);
        Some (s\<lparr>currentBuffer := b\<rparr>)
      }
      else do {
        let s = s\<lparr>al_buffers := al_buffers s @ [currentBuffer s]\<rparr>;
        let s = (case nextBuffer s of
            Some b \<Rightarrow> s\<lparr>currentBuffer := b, nextBuffer := None\<rparr>
          | None \<Rightarrow> s\<lparr>currentBuffer := FixedBuffer_new N\<rparr>);
        b \<leftarrow> FixedBuffer_append logline (length logline) (currentBuffer s);
        Some (s\<lparr>currentBuffer := b\<rparr>)
      })"

definition AsyncLogging_start :: "AsyncLogging \<Rightarrow> AsyncLogging" where
  "AsyncLogging_start s = s\<lparr>al_running := True, al_pc := ThreadStart\<rparr>"

definition AsyncLogging_stop :: "AsyncLogging \<Rightarrow> AsyncLogging" where
  "AsyncLogging_stop s = s\<lparr>al_running := False\<rparr>"

subsection \<open>The logging thread\<close>

definition threadFunc_begin :: "nat \<Rightarrow> log_env \<Rightarrow> int \<Rightarrow> AsyncLogging \<Rightarrow> AsyncLogging option" where
  "threadFunc_begin N env now s = do {
     cassert (al_running s);
     output \<leftarrow> LogFile_new env (al_basename s) (al_rollSize s) 3 1024 now;
     let s = s\<lparr>al_output := Some output\<rparr>;
     let s = s\<lparr>newBuffer1 := Some (FixedBuffer_bzero (FixedBuffer_new N)), newBuffer2 := Some (FixedBuffer_bzero (FixedBuffer_new N))\<rparr>;
     Some (s\<lparr>buffersToWrite := [], al_pc := ThreadLoop\<rparr>)
   }"

definition threadFunc_while :: "AsyncLogging \<Rightarrow> AsyncLogging option" where
  "threadFunc_while s =
     (if al_running s
      then do {
        b1 \<leftarrow> newBuffer1 s;
        cassert (FixedBuffer_length b1 = 0);
        b2 \<leftarrow> newBuffer2 s;
        cassert (FixedBuffer_length b2 = 0);
        cassert (buffersToWrite s = []);
        Some (s\<lparr>al_pc := ThreadLock\<rparr>)
      }
      else do {
        output \<leftarrow> al_output s;
        output \<leftarrow> LogFile_flush output;
        Some (s\<lparr>al_output := Some output, al_pc := ThreadDone\<rparr>)
      })"

text \<open>The rest of the critical section, after the wait if there was one.\<close>

definition threadFunc_collect :: "AsyncLogging \<Rightarrow> AsyncLogging option" where
  "threadFunc_collect s = do {
     let s = s\<lparr>al_buffers := al_buffers s @ [currentBuffer s]\<rparr>;
     b1 \<leftarrow> newBuffer1 s;
     let s = s\<lparr>currentBuffer := b1, newBuffer1 := None\<rparr>;
     let s = s\<lparr>buffersToWrite := al_buffers s, al_buffers := buffersToWrite s\<rparr>;
     let s = (if nextBuffer s = None then s\<lparr>nextBuffer := newBuffer2 s, newBuffer2 := None\<rparr> else s);
     Some (s\<lparr>al_pc := ThreadWrite\<rparr>)
   }"

definition threadFunc_lock :: "AsyncLogging \<Rightarrow> AsyncLogging option" where
  "threadFunc_lock s = (if al_buffers s = [] then Some (s\<lparr>al_pc := ThreadWait\<rparr>) else threadFunc_collect s)"

definition dropped_notice :: "Timestamp \<Rightarrow> nat \<Rightarrow> string" where
  "dropped_notice now n = snprintf 256 (''Dropped log messages at '' @ c_str (toFormattedString True now) @ '', ''
     @ show_nat n @ '' larger buffers'' @ [CHR 0x0A])"

fun write_all :: "fwrite_oracle \<Rightarrow> log_env \<Rightarrow> (nat \<Rightarrow> int \<times> int) \<Rightarrow> nat \<Rightarrow> string list \<Rightarrow> LogFile \<Rightarrow> LogFile option" where
  "write_all fw env clock i [] output = Some output"
| "write_all fw env clock i (text # texts) output = do {
     output \<leftarrow> LogFile_append fw env text (fst (clock i)) (snd (clock i)) output;
     write_all fw env clock (i + 1) texts output
   }"

text \<open>A buffer for the next round comes from those that were written.\<close>

definition refill :: "FixedBuffer option \<times> FixedBuffer list \<Rightarrow> (FixedBuffer option \<times> FixedBuffer list) option" where
  "refill = (\<lambda>(newBuffer, toWrite). case newBuffer of
      Some b \<Rightarrow> Some (Some b, toWrite)
    | None \<Rightarrow> do {
        cassert (toWrite \<noteq> []);
        Some (Some (FixedBuffer_reset (last toWrite)), butlast toWrite)
      })"

definition threadFunc_write :: "fwrite_oracle \<Rightarrow> log_env \<Rightarrow> (nat \<Rightarrow> int \<times> int) \<Rightarrow> Timestamp \<Rightarrow> AsyncLogging \<Rightarrow> AsyncLogging option" where
  "threadFunc_write fw env clock now s = do {
     let toWrite = buffersToWrite s;
     cassert (toWrite \<noteq> []);
     output \<leftarrow> al_output s;
     (output, toWrite) \<leftarrow> (if length toWrite > 25
       then do {
         output \<leftarrow> LogFile_append fw env (dropped_notice now (length toWrite - 2)) (fst (clock 0)) (snd (clock 0)) output;
         Some (output, take 2 toWrite)
       }
       else Some (output, toWrite));
     output \<leftarrow> write_all fw env clock 1 (map FixedBuffer_toString toWrite) output;
     let toWrite = (if length toWrite > 2 then take 2 toWrite else toWrite);
     (b1, toWrite) \<leftarrow> refill (newBuffer1 s, toWrite);
     (b2, toWrite) \<leftarrow> refill (newBuffer2 s, toWrite);
     output \<leftarrow> LogFile_flush output;
     Some (s\<lparr>newBuffer1 := b1, newBuffer2 := b2, buffersToWrite := [], al_output := Some output, al_pc := ThreadLoop\<rparr>)
   }"

section \<open>Runs\<close>

datatype async_event = ALine string | AStart | AStop | AThread "nat \<Rightarrow> int \<times> int" Timestamp

fun thread_step :: "nat \<Rightarrow> fwrite_oracle \<Rightarrow> log_env \<Rightarrow> (nat \<Rightarrow> int \<times> int) \<Rightarrow> Timestamp \<Rightarrow> AsyncLogging \<Rightarrow> AsyncLogging option" where
  "thread_step N fw env clock now s = (case al_pc s of
      ThreadStart \<Rightarrow> threadFunc_begin N env (snd (clock 0)) s
    | ThreadLoop \<Rightarrow> threadFunc_while s
    | ThreadLock \<Rightarrow> threadFunc_lock s
    | ThreadWait \<Rightarrow> threadFunc_collect s
    | ThreadWrite \<Rightarrow> threadFunc_write fw env clock now s
    | _ \<Rightarrow> Some s)"

definition pending_text :: "AsyncLogging \<Rightarrow> string" where
  "pending_text s = concat (map FixedBuffer_toString (al_buffers s @ [currentBuffer s]))"

text \<open>The steps with their histories.\<close>

fun async_step :: "nat \<Rightarrow> fwrite_oracle \<Rightarrow> log_env \<Rightarrow> async_event \<Rightarrow> AsyncLogging \<Rightarrow> AsyncLogging option" where
  "async_step N fw env (ALine line) s = do {
     s' \<leftarrow> AsyncLogging_append N line s;
     Some (s'\<lparr>al_lines := al_lines s @ line\<rparr>)
   }"
| "async_step N fw env AStart s = Some (AsyncLogging_start s)"
| "async_step N fw env AStop s = Some (AsyncLogging_stop s)"
| "async_step N fw env (AThread clock now) s = do {
     s' \<leftarrow> thread_step N fw env clock now s;
     Some (if al_pc s' = ThreadWrite then s'\<lparr>al_taken := al_taken s @ pending_text s\<rparr>
           else if al_pc s = ThreadWrite \<and> length (buffersToWrite s) > 25 then s'\<lparr>al_drops := al_drops s + 1\<rparr>
           else s')
   }"

text \<open>
  When they can happen: the logger is started once and stopped once, a line is shorter than a buffer, and
  the clock shows the time of today.
\<close>

fun async_event_ok :: "nat \<Rightarrow> async_event \<Rightarrow> AsyncLogging \<Rightarrow> bool" where
  "async_event_ok N (ALine line) s \<longleftrightarrow> length line < N"
| "async_event_ok N AStart s \<longleftrightarrow> al_pc s = NotStarted"
| "async_event_ok N AStop s \<longleftrightarrow> al_running s \<and> al_pc s \<noteq> ThreadStart"
| "async_event_ok N (AThread clock now) s \<longleftrightarrow> al_pc s \<noteq> NotStarted \<and> al_pc s \<noteq> ThreadDone \<and> (\<forall>i. time_ok (snd (clock i)))"

inductive async_reachable :: "nat \<Rightarrow> fwrite_oracle \<Rightarrow> log_env \<Rightarrow> AsyncLogging \<Rightarrow> AsyncLogging \<Rightarrow> bool" for N fw env s0 where
  new: "async_reachable N fw env s0 s0"
| step: "async_reachable N fw env s0 s \<Longrightarrow> async_event_ok N e s \<Longrightarrow> async_step N fw env e s = Some s'
    \<Longrightarrow> async_reachable N fw env s0 s'"

section \<open>The invariant\<close>

text \<open>Every buffer is well formed, and those held in reserve are empty.\<close>

definition bufs_ok :: "nat \<Rightarrow> AsyncLogging \<Rightarrow> bool" where
  "bufs_ok N s \<longleftrightarrow> (\<forall>b \<in> insert (currentBuffer s) (set (al_buffers s) \<union> set (buffersToWrite s)). FixedBuffer_ok N b)
     \<and> (\<forall>b \<in> set_option (nextBuffer s) \<union> set_option (newBuffer1 s) \<union> set_option (newBuffer2 s). log_rel N b [])
     \<and> (nextBuffer s = None \<longrightarrow> al_buffers s \<noteq> [])"

definition pc_ok :: "AsyncLogging \<Rightarrow> bool" where
  "pc_ok s \<longleftrightarrow> (case al_pc s of
      NotStarted \<Rightarrow> \<not> al_running s
    | ThreadStart \<Rightarrow> al_running s
    | ThreadWrite \<Rightarrow> newBuffer1 s = None \<and> buffersToWrite s \<noteq> [] \<and> (newBuffer2 s = None \<longrightarrow> 2 \<le> length (buffersToWrite s))
    | _ \<Rightarrow> newBuffer1 s \<noteq> None \<and> newBuffer2 s \<noteq> None \<and> buffersToWrite s = [])
     \<and> (al_output s = None \<longleftrightarrow> al_pc s = NotStarted \<or> al_pc s = ThreadStart)"

text \<open>What the thread has taken is in the files, or is what it is writing.\<close>

definition in_flight :: "AsyncLogging \<Rightarrow> string" where
  "in_flight s = (if al_pc s = ThreadWrite then concat (map FixedBuffer_toString (buffersToWrite s)) else [])"

definition output_ok :: "log_env \<Rightarrow> AsyncLogging \<Rightarrow> bool" where
  "output_ok env s \<longleftrightarrow> (case al_output s of
      None \<Rightarrow> al_taken s = [] \<and> al_drops s = 0
    | Some lf \<Rightarrow> lf_ok env lf \<and> (al_drops s = 0 \<longrightarrow> al_taken s = file_text lf @ in_flight s))"

definition async_inv :: "nat \<Rightarrow> log_env \<Rightarrow> AsyncLogging \<Rightarrow> bool" where
  "async_inv N env s \<longleftrightarrow> bufs_ok N s \<and> pc_ok s \<and> output_ok env s \<and> CHR ''/'' \<notin> set (al_basename s)
     \<and> al_lines s = al_taken s @ pending_text s"

lemma log_rel_ok: "log_rel N b xs \<Longrightarrow> FixedBuffer_ok N b"
  by (simp add: log_rel_def)

lemma log_rel_empty [simp]:
  "log_rel N (FixedBuffer_new N) []" "log_rel N (FixedBuffer_bzero (FixedBuffer_new N)) []"
  "FixedBuffer_ok N b \<Longrightarrow> log_rel N (FixedBuffer_reset b) []"
  by (auto simp: log_rel_def FixedBuffer_ok_def FixedBuffer_toString_def FixedBuffer_new_def FixedBuffer_bzero_def FixedBuffer_reset_def)

lemma AsyncLogging_append_ok:
  assumes "bufs_ok N s" "length line < N"
  shows "\<exists>c n bs. AsyncLogging_append N line s = Some (s\<lparr>currentBuffer := c, nextBuffer := n, al_buffers := bs\<rparr>)
    \<and> bufs_ok N (s\<lparr>currentBuffer := c, nextBuffer := n, al_buffers := bs\<rparr>)
    \<and> concat (map FixedBuffer_toString (bs @ [c])) = pending_text s @ line"
proof (cases "avail (currentBuffer s) > length line")
  case True
  have cur: "log_rel N (currentBuffer s) (FixedBuffer_toString (currentBuffer s))" using assms(1) by (simp add: bufs_ok_def log_rel_def)
  obtain b where "FixedBuffer_append line (length line) (currentBuffer s) = Some b"
    "log_rel N b (FixedBuffer_toString (currentBuffer s) @ line)"
    using append_rel [OF cur, of "length line" line] True log_rel_avail [OF cur] by auto
  then show ?thesis using True assms(1)
    by (intro exI [of _ b] exI [of _ "nextBuffer s"] exI [of _ "al_buffers s"])
      (auto simp: AsyncLogging_append_def bufs_ok_def pending_text_def log_rel_def)
next
  case False
  define c0 where "c0 = (case nextBuffer s of Some b \<Rightarrow> b | None \<Rightarrow> FixedBuffer_new N)"
  have c0: "log_rel N c0 []" using assms(1) by (auto simp: c0_def bufs_ok_def split: option.splits)
  obtain b where "FixedBuffer_append line (length line) c0 = Some b" "log_rel N b line"
    using append_rel [OF c0, of "length line" line] assms(2) by auto
  then show ?thesis using False assms(1)
    by (intro exI [of _ b] exI [of _ None] exI [of _ "al_buffers s @ [currentBuffer s]"])
      (auto simp: AsyncLogging_append_def bufs_ok_def pending_text_def log_rel_def c0_def Let_def split: option.splits)
qed

lemma append_async_inv:
  assumes "async_inv N env s" "length line < N"
  shows "\<exists>s'. async_step N fw env (ALine line) s = Some s' \<and> async_inv N env s' \<and> al_pc s' = al_pc s"
proof -
  obtain c n bs where "AsyncLogging_append N line s = Some (s\<lparr>currentBuffer := c, nextBuffer := n, al_buffers := bs\<rparr>)"
    "bufs_ok N (s\<lparr>currentBuffer := c, nextBuffer := n, al_buffers := bs\<rparr>)"
    "concat (map FixedBuffer_toString (bs @ [c])) = pending_text s @ line"
    using AsyncLogging_append_ok [OF _ assms(2)] assms(1) unfolding async_inv_def by blast
  then show ?thesis using assms(1)
    by (auto simp: async_inv_def bufs_ok_def pc_ok_def output_ok_def in_flight_def pending_text_def
        split: option.splits async_pc.splits)
qed

subsection \<open>The steps of the thread\<close>

lemma write_all_eq:
  "write_all fw env clock i texts lf
    = run_ops (\<lambda>(t, line). LogFile_append fw env line (fst t) (snd t)) (zip (map clock [i..<i + length texts]) texts) lf"
proof (induction texts arbitrary: i lf)
  case (Cons t texts)
  have z: "zip (map clock [i..<i + length (t # texts)]) (t # texts) = (clock i, t) # zip (map clock [Suc i..<Suc i + length texts]) texts"
    by (simp add: upt_conv_Cons del: upt_Suc)
  have "write_all fw env clock (Suc i) texts
      = run_ops (\<lambda>(t, line). LogFile_append fw env line (fst t) (snd t)) (zip (map clock [Suc i..<Suc i + length texts]) texts)"
    by (rule ext) (rule Cons)
  then show ?case unfolding z by (simp del: upt_Suc)
qed simp

lemma write_all_inv:
  assumes "lf_ok env lf" "\<forall>i. time_ok (snd (clock i))" "env_ok env" "fw_ok fw"
  shows "\<exists>lf'. write_all fw env clock i texts lf = Some lf' \<and> lf_ok env lf' \<and> file_text lf' = file_text lf @ concat texts"
proof -
  let ?xs = "zip (map clock [i..<i + length texts]) texts"
  have "\<forall>(t, line) \<in> set ?xs. time_ok (snd t) \<and> env_ok env \<and> fw_ok fw" using assms(2-4) by (auto dest!: set_zip_leftD) (metis snd_conv)
  from lfs.append_all [OF assms(1) this] show ?thesis by (simp add: write_all_eq)
qed

lemma refill_ok:
  assumes "\<forall>b \<in> set_option nb. log_rel N b []" "\<forall>b \<in> set bs. FixedBuffer_ok N b" "nb = None \<longrightarrow> bs \<noteq> []"
  shows "\<exists>b bs'. refill (nb, bs) = Some (Some b, bs') \<and> log_rel N b [] \<and> set bs' \<subseteq> set bs
    \<and> length bs' = length bs - (if nb = None then 1 else 0)"
  using assms by (cases nb) (auto simp: refill_def dest: in_set_butlastD)

lemma threadFunc_begin_inv:
  assumes "async_inv N env s" "al_pc s = ThreadStart" "time_ok now" "env_ok env"
  shows "\<exists>s'. threadFunc_begin N env now s = Some s' \<and> async_inv N env s' \<and> al_pc s' = ThreadLoop"
proof -
  obtain lf where lf: "LogFile_new env (al_basename s) (al_rollSize s) 3 1024 now = Some lf" "lf_ok env lf" "file_text lf = []"
    using LogFile_new_ok [OF _ assms(3,4)] assms(1) unfolding async_inv_def by blast
  have run: "al_running s" "al_output s = None" using assms(1,2) by (auto simp: async_inv_def pc_ok_def)
  have blank: "al_taken s = []" "file_text lf = []"
    using assms(1) run(2) lf(3) by (simp_all add: async_inv_def output_ok_def)
  show ?thesis using assms(1) run lf
    by (auto simp: blank threadFunc_begin_def async_inv_def bufs_ok_def pc_ok_def output_ok_def in_flight_def pending_text_def)
qed

lemma threadFunc_while_inv:
  assumes "async_inv N env s" "al_pc s = ThreadLoop" "env_ok env"
  shows "\<exists>s'. threadFunc_while s = Some s' \<and> async_inv N env s' \<and> al_pc s' = (if al_running s then ThreadLock else ThreadDone)
    \<and> pending_text s' = pending_text s \<and> al_taken s' = al_taken s \<and> al_lines s' = al_lines s \<and> al_running s' = al_running s
    \<and> al_drops s' = al_drops s"
proof -
  obtain b1 b2 lf where some: "newBuffer1 s = Some b1" "newBuffer2 s = Some b2" "al_output s = Some lf"
    using assms(1,2) by (auto simp: async_inv_def pc_ok_def)
  have empty: "FixedBuffer_length b1 = 0" "FixedBuffer_length b2 = 0"
    using assms(1) some(1,2) log_rel_length by (auto simp: async_inv_def bufs_ok_def FixedBuffer_length_def)
  have "lf_ok env lf" using assms(1) some(3) by (simp add: async_inv_def output_ok_def)
  then obtain lf' where lf': "LogFile_flush lf = Some lf'" "lf_ok env lf'" "file_text lf' = file_text lf"
    using lfs.flush_law by blast
  show ?thesis using assms(1,2) some empty lf'
    by (auto simp: threadFunc_while_def async_inv_def bufs_ok_def pc_ok_def output_ok_def in_flight_def pending_text_def)
qed

text \<open>Taking the buffers empties what was pending, and leaves buffers enough for the round after.\<close>

lemma threadFunc_collect_inv:
  assumes "async_inv N env s" "al_pc s = ThreadLock \<or> al_pc s = ThreadWait"
  shows "\<exists>s'. threadFunc_collect s = Some s' \<and> async_inv N env (s'\<lparr>al_taken := al_taken s @ pending_text s\<rparr>)
    \<and> al_pc s' = ThreadWrite \<and> al_lines s' = al_lines s \<and> al_running s' = al_running s \<and> al_drops s' = al_drops s
    \<and> pending_text s' = []"
proof -
  obtain b1 b2 lf where some: "newBuffer1 s = Some b1" "newBuffer2 s = Some b2" "al_output s = Some lf" "buffersToWrite s = []"
    using assms unfolding async_inv_def pc_ok_def by (elim disjE conjE) (auto simp: not_None_eq)
  have b1: "FixedBuffer_ok N b1" "FixedBuffer_toString b1 = []"
    using assms(1) some(1) by (auto simp: async_inv_def bufs_ok_def log_rel_def)
  have "in_flight s = []" using assms(2) by (auto simp: in_flight_def)
  then show ?thesis using assms(1) some b1
    by (auto simp: Suc_le_eq threadFunc_collect_def async_inv_def bufs_ok_def pc_ok_def output_ok_def in_flight_def pending_text_def Let_def)
qed

lemma threadFunc_lock_inv:
  assumes "async_inv N env s" "al_pc s = ThreadLock" "al_buffers s = []"
  shows "\<exists>s'. threadFunc_lock s = Some s' \<and> async_inv N env s' \<and> s' = s\<lparr>al_pc := ThreadWait\<rparr>"
  using assms by (auto simp: threadFunc_lock_def async_inv_def bufs_ok_def pc_ok_def output_ok_def in_flight_def pending_text_def
      split: option.splits)

lemma drop_old_buffers:
  assumes "lf_ok env lf" "\<forall>i. time_ok (snd (clock i))" "env_ok env" "fw_ok fw"
  shows "\<exists>lf' w. (if length toWrite > 25
       then do {
         output \<leftarrow> LogFile_append fw env notice (fst (clock 0)) (snd (clock 0)) lf;
         Some (output, take 2 toWrite)
       }
       else Some (lf, toWrite)) = Some (lf', w)
    \<and> lf_ok env lf' \<and> set w \<subseteq> set toWrite \<and> min 2 (length toWrite) \<le> length w
    \<and> (length toWrite \<le> 25 \<longrightarrow> lf' = lf \<and> w = toWrite)"
  using lfs.append_law [OF assms(1), of "clock 0" fw notice] assms by (fastforce simp: set_take_subset)

lemma refill_both:
  assumes "\<forall>b \<in> set_option nb2. log_rel N b []" "\<forall>b \<in> set w. FixedBuffer_ok N b" "w \<noteq> []" "nb2 = None \<longrightarrow> 2 \<le> length w"
  shows "\<exists>b1 w1 b2 w2. refill (None, w) = Some (Some b1, w1) \<and> refill (nb2, w1) = Some (Some b2, w2) \<and> log_rel N b1 [] \<and> log_rel N b2 []"
proof -
  obtain b1 w1 where 1: "refill (None, w) = Some (Some b1, w1)" "log_rel N b1 []" "set w1 \<subseteq> set w" "length w1 = length w - 1"
    using refill_ok [of None N w] assms(2,3) by auto
  have "nb2 = None \<longrightarrow> w1 \<noteq> []" using 1(4) assms(4) by auto
  then show ?thesis using refill_ok [of nb2 N w1] 1 assms(1,2) by fastforce
qed

lemma threadFunc_write_inv:
  assumes "async_inv N env s" "al_pc s = ThreadWrite" "\<forall>i. time_ok (snd (clock i))" "env_ok env" "fw_ok fw"
  shows "\<exists>s'. threadFunc_write fw env clock now s = Some s'
    \<and> async_inv N env (if length (buffersToWrite s) > 25 then s'\<lparr>al_drops := al_drops s + 1\<rparr> else s')
    \<and> al_pc s' = ThreadLoop \<and> al_lines s' = al_lines s \<and> al_taken s' = al_taken s \<and> al_running s' = al_running s
    \<and> al_drops s' = al_drops s \<and> pending_text s' = pending_text s"
proof -
  define w0 where "w0 = buffersToWrite s"
  obtain lf where lf: "al_output s = Some lf" using assms(1,2) by (auto simp: async_inv_def pc_ok_def)
  have w0: "newBuffer1 s = None" "w0 \<noteq> []" "newBuffer2 s = None \<longrightarrow> 2 \<le> length w0" "\<forall>b \<in> set w0. FixedBuffer_ok N b"
    using assms(1,2) by (simp_all add: w0_def async_inv_def pc_ok_def bufs_ok_def)
  have inv: "lf_ok env lf" using assms(1) lf by (simp add: async_inv_def output_ok_def)
  obtain lf1 w where 1: "(if length w0 > 25
       then do {
         output \<leftarrow> LogFile_append fw env (dropped_notice now (length w0 - 2)) (fst (clock 0)) (snd (clock 0)) lf;
         Some (output, take 2 w0)
       }
       else Some (lf, w0)) = Some (lf1, w)"
    "lf_ok env lf1" "set w \<subseteq> set w0" "min 2 (length w0) \<le> length w" "length w0 \<le> 25 \<longrightarrow> lf1 = lf \<and> w = w0"
    using drop_old_buffers [OF inv assms(3-5), of w0 "dropped_notice now (length w0 - 2)"] by blast
  obtain lf2 where 2: "write_all fw env clock 1 (map FixedBuffer_toString w) lf1 = Some lf2" "lf_ok env lf2"
    "file_text lf2 = file_text lf1 @ concat (map FixedBuffer_toString w)"
    using write_all_inv [OF 1(2) assms(3-5)] by blast
  obtain lf3 where 3: "LogFile_flush lf2 = Some lf3" "lf_ok env lf3" "file_text lf3 = file_text lf2"
    using lfs.flush_law [OF 2(2)] by blast
  define v where "v = (if length w > 2 then take 2 w else w)"
  have v: "\<forall>b \<in> set v. FixedBuffer_ok N b" "v \<noteq> []" "newBuffer2 s = None \<longrightarrow> 2 \<le> length v"
    using w0(2-4) 1(3,4) by (auto simp: v_def min_def split: if_splits dest: in_set_takeD)
  have nb2: "\<forall>b \<in> set_option (newBuffer2 s). log_rel N b []" using assms(1) by (simp add: async_inv_def bufs_ok_def)
  obtain b1 w1 b2 w2 where r: "refill (None, v) = Some (Some b1, w1)" "refill (newBuffer2 s, w1) = Some (Some b2, w2)"
    "log_rel N b1 []" "log_rel N b2 []"
    using refill_both [OF nb2 v] by blast
  let ?s = "s\<lparr>newBuffer1 := Some b1, newBuffer2 := Some b2, buffersToWrite := [], al_output := Some lf3, al_pc := ThreadLoop\<rparr>"
  have run: "threadFunc_write fw env clock now s = Some ?s"
    using w0(1,2) 1(1) 2(1) 3(1) r(1,2) lf by (simp add: threadFunc_write_def w0_def [symmetric] v_def [symmetric] Let_def)
  have "al_taken s = file_text lf3" if "length w0 \<le> 25" "al_drops s = 0"
    using assms(1,2) lf that 1(5) 2(3) 3(3) by (simp add: async_inv_def output_ok_def in_flight_def w0_def)
  then show ?thesis using run assms(1) r(3,4) 3(2)
    by (auto simp: async_inv_def bufs_ok_def pc_ok_def output_ok_def in_flight_def pending_text_def w0_def)
qed

lemma thread_step_inv:
  assumes "async_inv N env s" "async_event_ok N (AThread clock now) s" "env_ok env" "fw_ok fw"
  shows "\<exists>s'. async_step N fw env (AThread clock now) s = Some s' \<and> async_inv N env s'"
proof (cases "al_pc s")
  case ThreadStart
  then show ?thesis using threadFunc_begin_inv [OF assms(1) _ _ assms(3), of "snd (clock 0)"] assms(2) by fastforce
next
  case ThreadLoop
  then show ?thesis using threadFunc_while_inv [OF assms(1) _ assms(3)] by (fastforce split: if_splits)
next
  case ThreadLock
  then show ?thesis using threadFunc_lock_inv [OF assms(1)] threadFunc_collect_inv [OF assms(1)]
    by (cases "al_buffers s = []") (fastforce simp: threadFunc_lock_def)+
next
  case ThreadWait
  then show ?thesis using threadFunc_collect_inv [OF assms(1)] by fastforce
next
  case ThreadWrite
  then show ?thesis using threadFunc_write_inv [OF assms(1) _ _ assms(3,4), of clock now] assms(2) by fastforce
qed (use assms(2) in simp_all)

lemma async_step_inv:
  assumes "async_inv N env s" "async_event_ok N e s" "env_ok env" "fw_ok fw"
  shows "\<exists>s'. async_step N fw env e s = Some s' \<and> async_inv N env s'"
proof (cases e)
  case (ALine line)
  then show ?thesis using append_async_inv [OF assms(1)] assms(2) by fastforce
next
  case AStart
  then show ?thesis using assms(1,2)
    by (auto simp: AsyncLogging_start_def async_inv_def bufs_ok_def pc_ok_def output_ok_def in_flight_def pending_text_def)
next
  case AStop
  then show ?thesis using assms(1,2)
    by (auto simp: AsyncLogging_stop_def async_inv_def bufs_ok_def pc_ok_def output_ok_def in_flight_def pending_text_def
        split: option.splits async_pc.splits)
next
  case (AThread clock now)
  then show ?thesis using thread_step_inv [OF assms(1) _ assms(3,4)] assms(2) by blast
qed

lemma AsyncLogging_new_inv: "CHR ''/'' \<notin> set basename \<Longrightarrow> async_inv N env (AsyncLogging_new N basename rs)"
  using log_rel_empty(2) [of N]
  by (simp add: AsyncLogging_new_def async_inv_def bufs_ok_def pc_ok_def output_ok_def in_flight_def pending_text_def log_rel_def)

lemma async_reachable_inv:
  assumes "async_reachable N fw env (AsyncLogging_new N basename rs) s" "CHR ''/'' \<notin> set basename" "env_ok env" "fw_ok fw"
  shows "async_inv N env s"
  using assms(1)
proof induction
  case new
  then show ?case by (rule AsyncLogging_new_inv [OF assms(2)])
next
  case (step s e s')
  then show ?case using async_step_inv [OF step.IH step.hyps(2) assms(3,4)] by auto
qed

section \<open>Properties\<close>

text \<open>
  C35. The logger neither fails nor mixes up lines.  In every reachable state no step fails: none of the
  assertions of the thread, no use of a buffer that was moved away.  The lines appended are, in order,
  those the thread has taken and those still in memory; as long as the thread has not dropped buffers,
  what it has taken is what the log files hold and what it is writing.
\<close>

theorem AsyncLogging_lossless:
  assumes "async_reachable N fw env (AsyncLogging_new N basename rs) s" "CHR ''/'' \<notin> set basename" "env_ok env" "fw_ok fw"
    "async_event_ok N e s"
  shows "(\<exists>s'. async_step N fw env e s = Some s') \<and> al_lines s = al_taken s @ pending_text s
    \<and> (\<forall>lf. al_output s = Some lf \<longrightarrow> al_drops s = 0 \<longrightarrow> al_taken s = file_text lf @ in_flight s)"
  using async_reachable_inv [OF assms(1-4)] async_step_inv [OF _ assms(5,3,4)] by (auto simp: async_inv_def output_ok_def)

subsection \<open>Rounds of the thread\<close>

text \<open>The thread alone, from a state: after at most \<open>n\<close> steps it has taken everything and is at the head of its loop.\<close>

definition writes_out :: "nat \<Rightarrow> fwrite_oracle \<Rightarrow> log_env \<Rightarrow> (nat \<Rightarrow> int \<times> int) \<Rightarrow> Timestamp \<Rightarrow> nat \<Rightarrow> AsyncLogging \<Rightarrow> bool" where
  "writes_out N fw env clock now n s \<longleftrightarrow> (\<exists>k \<le> n. \<exists>s'. run_ops (async_step N fw env) (replicate k (AThread clock now)) s = Some s'
     \<and> async_inv N env s' \<and> al_pc s' = ThreadLoop \<and> al_lines s' = al_lines s \<and> al_taken s' = al_lines s)"

lemma writes_out_step:
  assumes "async_step N fw env (AThread clock now) s = Some s1" "al_lines s1 = al_lines s" "writes_out N fw env clock now n s1"
  shows "writes_out N fw env clock now (Suc n) s"
proof -
  obtain k s' where "k \<le> n" "run_ops (async_step N fw env) (replicate k (AThread clock now)) s1 = Some s'"
    "async_inv N env s'" "al_pc s' = ThreadLoop" "al_lines s' = al_lines s1" "al_taken s' = al_lines s1"
    using assms(3) by (auto simp: writes_out_def)
  then show ?thesis using assms(1,2) unfolding writes_out_def
    by (intro exI [of _ "Suc k"] conjI exI [of _ s']) (auto simp del: async_step.simps)
qed

lemma write_step:
  assumes "async_inv N env s" "al_pc s = ThreadWrite" "\<forall>i. time_ok (snd (clock i))" "env_ok env" "fw_ok fw"
  shows "\<exists>s'. async_step N fw env (AThread clock now) s = Some s' \<and> async_inv N env s' \<and> al_pc s' = ThreadLoop
    \<and> al_lines s' = al_lines s \<and> al_taken s' = al_taken s \<and> al_running s' = al_running s \<and> pending_text s' = pending_text s"
proof -
  obtain s' where s': "threadFunc_write fw env clock now s = Some s'"
    "async_inv N env (if length (buffersToWrite s) > 25 then s'\<lparr>al_drops := al_drops s + 1\<rparr> else s')"
    "al_pc s' = ThreadLoop" "al_lines s' = al_lines s" "al_taken s' = al_taken s" "al_running s' = al_running s"
    "pending_text s' = pending_text s"
    using threadFunc_write_inv [OF assms] by blast
  then show ?thesis using assms(2) by (auto simp: pending_text_def split: if_splits)
qed

lemma writes_out_write:
  assumes "async_inv N env s" "al_pc s = ThreadWrite" "al_taken s = al_lines s" "\<forall>i. time_ok (snd (clock i))" "env_ok env" "fw_ok fw"
  shows "writes_out N fw env clock now 1 s"
proof -
  obtain s' where "async_step N fw env (AThread clock now) s = Some s'" "async_inv N env s'" "al_pc s' = ThreadLoop"
    "al_lines s' = al_lines s" "al_taken s' = al_taken s"
    using write_step [OF assms(1,2,4-6)] by blast
  then show ?thesis using assms(3) unfolding writes_out_def by (intro exI [of _ 1] conjI exI [of _ s']) (auto simp del: async_step.simps)
qed

lemma collect_step:
  assumes "async_inv N env s" "al_pc s = ThreadWait \<or> al_pc s = ThreadLock \<and> al_buffers s \<noteq> []"
  shows "\<exists>s'. async_step N fw env (AThread clock now) s = Some s' \<and> async_inv N env s' \<and> al_pc s' = ThreadWrite
    \<and> al_lines s' = al_lines s \<and> al_taken s' = al_lines s"
proof -
  obtain s' where "threadFunc_collect s = Some s'" "async_inv N env (s'\<lparr>al_taken := al_taken s @ pending_text s\<rparr>)"
    "al_pc s' = ThreadWrite" "al_lines s' = al_lines s"
    using threadFunc_collect_inv [OF assms(1)] assms(2) by blast
  moreover have "al_lines s = al_taken s @ pending_text s" using assms(1) by (simp add: async_inv_def)
  ultimately show ?thesis using assms(2)
    by (intro exI [of _ "s'\<lparr>al_taken := al_taken s @ pending_text s\<rparr>"]) (auto simp: threadFunc_lock_def)
qed

lemma writes_out_collect:
  assumes "async_inv N env s" "al_pc s = ThreadWait \<or> al_pc s = ThreadLock \<and> al_buffers s \<noteq> []"
    "\<forall>i. time_ok (snd (clock i))" "env_ok env" "fw_ok fw"
  shows "writes_out N fw env clock now 2 s"
proof -
  obtain s' where s': "async_step N fw env (AThread clock now) s = Some s'" "async_inv N env s'" "al_pc s' = ThreadWrite"
    "al_lines s' = al_lines s" "al_taken s' = al_lines s"
    using collect_step [OF assms(1,2)] by blast
  have "writes_out N fw env clock now 1 s'" using writes_out_write [OF s'(2,3) _ assms(3-5)] s'(4,5) by simp
  from writes_out_step [OF s'(1,4) this] show ?thesis by (simp add: numeral_2_eq_2)
qed

lemma writes_out_mono: "writes_out N fw env clock now m s \<Longrightarrow> m \<le> n \<Longrightarrow> writes_out N fw env clock now n s"
  unfolding writes_out_def by (meson order_trans)

lemma writes_out_lock:
  assumes "async_inv N env s" "al_pc s = ThreadLock \<or> al_pc s = ThreadWait" "\<forall>i. time_ok (snd (clock i))" "env_ok env" "fw_ok fw"
  shows "writes_out N fw env clock now 3 s"
proof (cases "al_pc s = ThreadLock \<and> al_buffers s = []")
  case True
  have inv: "async_inv N env (s\<lparr>al_pc := ThreadWait\<rparr>)" using threadFunc_lock_inv [OF assms(1)] True by blast
  have "writes_out N fw env clock now 2 (s\<lparr>al_pc := ThreadWait\<rparr>)" by (rule writes_out_collect [OF inv _ assms(3-5)]) simp
  then have "writes_out N fw env clock now (Suc 2) s"
    by (rule writes_out_step [rotated 2]) (use True in \<open>simp_all add: threadFunc_lock_def\<close>)
  then show ?thesis by (simp add: eval_nat_numeral)
next
  case False
  then have "writes_out N fw env clock now 2 s" using writes_out_collect [OF assms(1) _ assms(3-5)] assms(2) by blast
  then show ?thesis by (rule writes_out_mono) simp
qed

lemma writes_out_loop:
  assumes "async_inv N env s" "al_pc s = ThreadLoop" "al_running s" "\<forall>i. time_ok (snd (clock i))" "env_ok env" "fw_ok fw"
  shows "writes_out N fw env clock now 4 s"
proof -
  obtain s' where s': "threadFunc_while s = Some s'" "async_inv N env s'" "al_pc s' = ThreadLock" "al_lines s' = al_lines s"
    using threadFunc_while_inv [OF assms(1,2,5)] assms(3) by auto
  have "writes_out N fw env clock now 3 s'" using writes_out_lock [OF s'(2) _ assms(4-6)] s'(3) by blast
  then have "writes_out N fw env clock now (Suc 3) s"
    by (rule writes_out_step [rotated 2]) (use s' assms(2) in simp_all)
  then show ?thesis by (simp add: eval_nat_numeral)
qed

lemma writes_out_running:
  assumes "async_inv N env s" "al_running s" "al_pc s \<in> {ThreadLoop, ThreadLock, ThreadWait, ThreadWrite}"
    "\<forall>i. time_ok (snd (clock i))" "env_ok env" "fw_ok fw"
  shows "writes_out N fw env clock now 5 s"
proof (cases "al_pc s = ThreadWrite")
  case True
  obtain s' where s': "async_step N fw env (AThread clock now) s = Some s'" "async_inv N env s'" "al_pc s' = ThreadLoop"
    "al_lines s' = al_lines s" "al_running s' = al_running s"
    using write_step [OF assms(1) True assms(4-6)] by blast
  have "writes_out N fw env clock now 4 s'" using writes_out_loop [OF s'(2,3) _ assms(4-6)] s'(5) assms(2) by simp
  from writes_out_step [OF s'(1,4) this] show ?thesis by (simp add: eval_nat_numeral)
next
  case False
  then show ?thesis using writes_out_mono [OF writes_out_loop [OF assms(1) _ assms(2,4-6)]]
      writes_out_mono [OF writes_out_lock [OF assms(1) _ assms(4-6)]] assms(3) by fastforce
qed


text \<open>
  C37. Stopping loses lines.  A line appended while the thread is writing, followed by \<^verbatim>\<open>stop\<close>, never reaches a
  file: the thread finishes the round, leaves its loop and ends without another look at the buffers.
\<close>

theorem AsyncLogging_stop_loses:
  assumes "async_reachable N fw env (AsyncLogging_new N basename rs) s" "CHR ''/'' \<notin> set basename" "env_ok env" "fw_ok fw"
    "al_pc s = ThreadWrite" "length line < N" "\<forall>i. time_ok (snd (clock i))" "al_running s"
  shows "\<exists>s'. run_ops (async_step N fw env) [ALine line, AStop, AThread clock now, AThread clock now] s = Some s'
    \<and> al_pc s' = ThreadDone \<and> al_lines s' = al_lines s @ line \<and> al_lines s' = al_taken s' @ pending_text s'
    \<and> al_taken s' = al_taken s \<and> (al_drops s' = 0 \<longrightarrow> al_output s' \<noteq> None \<and> file_text (the (al_output s')) = al_taken s)"
proof -
  have inv: "async_inv N env s" by (rule async_reachable_inv [OF assms(1-4)])
  obtain c n bs where ap: "AsyncLogging_append N line s = Some (s\<lparr>currentBuffer := c, nextBuffer := n, al_buffers := bs\<rparr>)"
    using AsyncLogging_append_ok [OF _ assms(6)] inv unfolding async_inv_def by blast
  define s1 where "s1 = s\<lparr>currentBuffer := c, nextBuffer := n, al_buffers := bs, al_lines := al_lines s @ line\<rparr>"
  have s1: "async_step N fw env (ALine line) s = Some s1" "async_inv N env s1"
    using append_async_inv [OF inv assms(6), of fw] ap by (simp_all add: s1_def)
  define s2 where "s2 = s1\<lparr>al_running := False\<rparr>"
  have s2: "async_step N fw env AStop s1 = Some s2" "async_inv N env s2" "al_pc s2 = ThreadWrite" "\<not> al_running s2"
    "al_lines s2 = al_lines s @ line" "al_taken s2 = al_taken s"
    using async_step_inv [OF s1(2) _ assms(3,4), of AStop] assms(5,8) by (simp_all add: s1_def s2_def AsyncLogging_stop_def)
  obtain s3 where s3: "async_step N fw env (AThread clock now) s2 = Some s3" "async_inv N env s3" "al_pc s3 = ThreadLoop"
    "al_lines s3 = al_lines s2" "al_taken s3 = al_taken s2" "al_running s3 = al_running s2"
    using write_step [OF s2(2,3) assms(7,3,4)] by blast
  obtain s4 where s4: "threadFunc_while s3 = Some s4" "async_inv N env s4" "al_pc s4 = ThreadDone"
    "al_taken s4 = al_taken s3" "al_lines s4 = al_lines s3"
    using threadFunc_while_inv [OF s3(2,3) assms(3)] s3(6) s2(4) by auto
  have "async_step N fw env (AThread clock now) s3 = Some s4" using s4(1,3) s3(3) by simp
  then have run: "run_ops (async_step N fw env) [ALine line, AStop, AThread clock now, AThread clock now] s = Some s4"
    using s1(1) s2(1) s3(1) by (simp del: async_step.simps)
  have r: "al_lines s4 = al_taken s4 @ pending_text s4" "al_output s4 \<noteq> None"
    "al_drops s4 = 0 \<longrightarrow> file_text (the (al_output s4)) = al_taken s4"
    using s4(2,3) by (auto simp: async_inv_def pc_ok_def output_ok_def in_flight_def)
  have "al_lines s4 = al_lines s @ line" "al_taken s4 = al_taken s" using s4(4,5) s3(4,5) s2(5,6) by simp_all
  then show ?thesis using r s4(3) by (intro exI [of _ s4] conjI [OF run]) simp
qed

subsection \<open>An example run\<close>

text \<open>Buffers of eight bytes, a stream that takes one byte per write; the thread is about to write its first buffer.\<close>

definition example_env :: log_env where
  "example_env = \<lparr>env_hostname = ''host'', env_pid = 7, env_opens = (\<lambda>_. True)\<rparr>"

definition zero_buffer :: FixedBuffer where
  "zero_buffer = FixedBuffer_new 8"

definition ab_buffer :: FixedBuffer where
  "ab_buffer = \<lparr>fb_data = ''ab'' @ replicate 6 (CHR 0x00), fb_cur = 2\<rparr>"

definition example_at :: "async_pc \<Rightarrow> FixedBuffer \<Rightarrow> FixedBuffer option \<Rightarrow> FixedBuffer list \<Rightarrow> string \<Rightarrow> string \<Rightarrow> LogFile \<Rightarrow> AsyncLogging" where
  "example_at pc cur b1 ws lines taken lf =
     \<lparr>al_running = True, al_basename = ''web'', al_rollSize = 1000, currentBuffer = cur, nextBuffer = Some zero_buffer,
      al_buffers = [], newBuffer1 = b1, newBuffer2 = Some zero_buffer, buffersToWrite = ws, al_output = Some lf,
      al_pc = pc, al_lines = lines, al_taken = taken, al_drops = 0\<rparr>"

definition example_writing :: "LogFile \<Rightarrow> AsyncLogging" where
  "example_writing lf = example_at ThreadWrite zero_buffer None [ab_buffer] ''ab'' ''ab'' lf"

abbreviation example_reachable :: "AsyncLogging \<Rightarrow> bool" where
  "example_reachable \<equiv> async_reachable 8 (\<lambda>_ _ _. 1) example_env (AsyncLogging_new 8 ''web'' 1000)"

lemma example_envs: "env_ok example_env" "fw_ok (\<lambda>_ _ _. 1)" "\<forall>i::nat. time_ok (snd (1000000000, 1000000000))"
  by (simp_all add: example_env_def env_ok_def fw_ok_def time_ok_def)

lemma zero_buffer_bzero: "FixedBuffer_bzero (FixedBuffer_new 8) = zero_buffer"
  by (simp add: FixedBuffer_bzero_def FixedBuffer_new_def zero_buffer_def)

lemma example_append: "AsyncLogging_append 8 ''ab'' (example_at ThreadLoop zero_buffer b1 [] [] [] lf) = Some (example_at ThreadLoop ab_buffer b1 [] [] [] lf)"
  by (simp add: AsyncLogging_append_def example_at_def) code_simp

lemma example_steps:
  assumes "LogFile_new example_env ''web'' 1000 3 1024 1000000000 = Some lf"
  shows "example_reachable (example_writing lf)"
proof -
  let ?T = "AThread (\<lambda>_. (1000000000, 1000000000)) (Timestamp 0)"
  let ?z = "Some zero_buffer"
  note step = async_reachable.step
  have 1: "example_reachable (AsyncLogging_start (AsyncLogging_new 8 ''web'' 1000))"
    by (rule step [OF async_reachable.new, where e = AStart]) (simp_all add: AsyncLogging_new_def)
  have 2: "example_reachable (example_at ThreadLoop zero_buffer ?z [] [] [] lf)"
    by (rule step [OF 1, where e = ?T])
      (use assms in \<open>simp_all add: AsyncLogging_new_def AsyncLogging_start_def threadFunc_begin_def time_ok_def zero_buffer_bzero example_at_def\<close>)
  have 3: "example_reachable (example_at ThreadLoop ab_buffer ?z [] ''ab'' [] lf)"
    by (rule step [OF 2, where e = "ALine ''ab''"]) (simp_all add: example_append, simp add: example_at_def)
  have 4: "example_reachable (example_at ThreadLock ab_buffer ?z [] ''ab'' [] lf)"
    by (rule step [OF 3, where e = ?T])
      (simp_all add: threadFunc_while_def time_ok_def example_at_def FixedBuffer_length_def zero_buffer_def FixedBuffer_new_def)
  have 5: "example_reachable (example_at ThreadWait ab_buffer ?z [] ''ab'' [] lf)"
    by (rule step [OF 4, where e = ?T]) (simp_all add: threadFunc_lock_def time_ok_def example_at_def)
  show ?thesis unfolding example_writing_def
    by (rule step [OF 5, where e = ?T])
      (simp_all add: threadFunc_collect_def time_ok_def example_at_def pending_text_def FixedBuffer_toString_def ab_buffer_def)
qed

lemma example_lf: "\<exists>lf. LogFile_new example_env ''web'' 1000 3 1024 1000000000 = Some lf"
  using LogFile_new_ok [of "''web''" 1000000000 example_env 1000 3 1024] example_envs by auto

text \<open>The witnesses: the example run goes on.\<close>

theorem AsyncLogging_lossless_witness:
  "\<exists>lf. LogFile_new example_env ''web'' 1000 3 1024 1000000000 = Some lf \<and> example_reachable (example_writing lf)
    \<and> (\<exists>s'. async_step 8 (\<lambda>_ _ _. 1) example_env (ALine ''cdefghi'') (example_writing lf) = Some s')
    \<and> ''ab'' = file_text lf @ in_flight (example_writing lf)"
proof -
  obtain lf where lf: "LogFile_new example_env ''web'' 1000 3 1024 1000000000 = Some lf" using example_lf by blast
  have "al_output (example_writing lf) = Some lf" "al_drops (example_writing lf) = 0" "al_taken (example_writing lf) = ''ab''"
    by (simp_all add: example_writing_def example_at_def)
  with AsyncLogging_lossless [OF example_steps [OF lf] _ example_envs(1,2), of "ALine ''cdefghi''"] lf example_steps [OF lf]
  show ?thesis by fastforce
qed


theorem AsyncLogging_stop_loses_witness:
  "\<exists>lf0 s'. LogFile_new example_env ''web'' 1000 3 1024 1000000000 = Some lf0 \<and> example_reachable (example_writing lf0)
    \<and> run_ops (async_step 8 (\<lambda>_ _ _. 1) example_env)
        [ALine ''cd'', AStop, AThread (\<lambda>_. (1000000000, 1000000000)) (Timestamp 0), AThread (\<lambda>_. (1000000000, 1000000000)) (Timestamp 0)]
        (example_writing lf0) = Some s'
    \<and> al_pc s' = ThreadDone \<and> al_lines s' = ''abcd'' \<and> al_taken s' = ''ab'' \<and> pending_text s' = ''cd''"
proof -
  obtain lf where lf: "LogFile_new example_env ''web'' 1000 3 1024 1000000000 = Some lf" using example_lf by blast
  have ex: "al_pc (example_writing lf) = ThreadWrite" "al_running (example_writing lf)" "al_lines (example_writing lf) = ''ab''"
    "al_taken (example_writing lf) = ''ab''"
    by (simp_all add: example_writing_def example_at_def)
  have hyps: "CHR ''/'' \<notin> set ''web''" "length ''cd'' < 8" by simp_all
  obtain s' where s': "run_ops (async_step 8 (\<lambda>_ _ _. 1) example_env)
      [ALine ''cd'', AStop, AThread (\<lambda>_. (1000000000, 1000000000)) (Timestamp 0), AThread (\<lambda>_. (1000000000, 1000000000)) (Timestamp 0)]
      (example_writing lf) = Some s'"
    "al_pc s' = ThreadDone" "al_lines s' = ''ab'' @ ''cd''" "al_lines s' = al_taken s' @ pending_text s'" "al_taken s' = ''ab''"
    using AsyncLogging_stop_loses [OF example_steps [OF lf] hyps(1) example_envs(1,2) ex(1) hyps(2) example_envs(3) ex(2), of "Timestamp 0"]
    unfolding ex(3,4) by blast
  have "al_lines s' = ''abcd''" "pending_text s' = ''cd''" using s'(3-5) by simp_all
  then show ?thesis using lf example_steps [OF lf] s'(1,2,5) by blast
qed

end
