(* ===== verification/Net_FastCgi.thy ===== *)
theory Net_FastCgi
  imports Muduo_Prelude
begin

section \<open>FastCGI\<close>

text \<open>
  \<^verbatim>\<open>muduo/net/http/fastcgi/\<close>: the client of a FastCGI application server.  \<^verbatim>\<open>fcgi.cpp\<close> builds the records of a
  request and writes them to a socket, reads the records of the answer, and looks for the end of the
  headers in it.

  A byte is an \<open>8 word\<close>.  Memory that the code reads before anything wrote to it is a list of \<open>byte option\<close>,
  \<open>None\<close> being an indeterminate value; reading one, and leaving an array, are undefined behaviour and
  abort the model.
\<close>

unbundle bit_operations_syntax

type_synonym byte = "8 word"

type_synonym mem = "byte option list"

definition FCGI_VERSION_1 :: byte where "FCGI_VERSION_1 = 1"
definition FCGI_HEADER_LEN :: nat where "FCGI_HEADER_LEN = 8"
definition FCGI_BEGIN_REQUEST :: "32 word" where "FCGI_BEGIN_REQUEST = 1"
definition FCGI_END_REQUEST :: "32 word" where "FCGI_END_REQUEST = 3"
definition FCGI_PARAMS :: "32 word" where "FCGI_PARAMS = 4"
definition FCGI_STDOUT :: "32 word" where "FCGI_STDOUT = 6"
definition FCGI_STDERR :: "32 word" where "FCGI_STDERR = 7"
definition FCGI_KEEP_CONN :: byte where "FCGI_KEEP_CONN = 1"
definition FCGI_RESPONDER :: "32 word" where "FCGI_RESPONDER = 1"
definition PARAMS_BUFF_LEN :: nat where "PARAMS_BUFF_LEN = 2048"
definition CONTENT_BUFF_LEN :: nat where "CONTENT_BUFF_LEN = 2048"

record FCGI_Header =
  version :: byte
  fh_type :: byte
  requestIdB1 :: byte
  requestIdB0 :: byte
  contentLengthB1 :: byte
  contentLengthB0 :: byte
  paddingLength :: byte
  fh_reserved :: byte

record FCGI_BeginRequestBody =
  roleB1 :: byte
  roleB0 :: byte
  flags :: byte
  fb_reserved :: "byte list"

text \<open>The structures consist of bytes, so that they lie in memory in the order of their fields.\<close>

definition header_bytes :: "FCGI_Header \<Rightarrow> byte list" where
  "header_bytes h = [version h, fh_type h, requestIdB1 h, requestIdB0 h, contentLengthB1 h, contentLengthB0 h, paddingLength h,
     fh_reserved h]"

definition begin_bytes :: "FCGI_BeginRequestBody \<Rightarrow> byte list" where
  "begin_bytes b = [roleB1 b, roleB0 b, flags b] @ fb_reserved b"

text \<open>
  The connection; beyond the fields of \<^verbatim>\<open>FastCgi_t\<close>, the bytes written to the socket, those the peer has sent
  and that are not read yet, and the number of calls of \<^verbatim>\<open>read\<close>.
\<close>

record FastCgi_t =
  sockfd :: int
  requestId :: "32 word"
  flag :: int
  fc_sent :: "byte list"
  fc_input :: "byte list"
  fc_reads :: nat

subsection \<open>The request\<close>

definition FastCgi_init :: "FastCgi_t \<Rightarrow> FastCgi_t" where
  "FastCgi_init c = c\<lparr>sockfd := 0, requestId := 0, flag := 0\<rparr>"

definition setRequestId :: "32 word \<Rightarrow> FastCgi_t \<Rightarrow> FastCgi_t" where
  "setRequestId i c = c\<lparr>requestId := i\<rparr>"

definition makeHeader :: "32 word \<Rightarrow> 32 word \<Rightarrow> 32 word \<Rightarrow> 32 word \<Rightarrow> FCGI_Header" where
  "makeHeader ty i contentLength padding =
     \<lparr>version = FCGI_VERSION_1, fh_type = ucast ty,
      requestIdB1 = ucast (signed_drop_bit 8 i AND 0xff), requestIdB0 = ucast (i AND 0xff),
      contentLengthB1 = ucast (signed_drop_bit 8 contentLength AND 0xff), contentLengthB0 = ucast (contentLength AND 0xff),
      paddingLength = ucast padding, fh_reserved = 0\<rparr>"

definition makeBeginRequestBody :: "32 word \<Rightarrow> 32 word \<Rightarrow> FCGI_BeginRequestBody" where
  "makeBeginRequestBody role keepConnection =
     \<lparr>roleB1 = ucast (signed_drop_bit 8 role AND 0xff), roleB0 = ucast (role AND 0xff),
      flags = (if keepConnection \<noteq> 0 then FCGI_KEEP_CONN else 0), fb_reserved = replicate 5 0\<rparr>"

text \<open>\<open>put_bytes\<close> is a row of \<^verbatim>\<open>*p++ = b\<close>: an array and the index \<^verbatim>\<open>p\<close> points to.\<close>

fun put_bytes :: "byte list \<Rightarrow> byte list \<times> nat \<Rightarrow> (byte list \<times> nat) option" where
  "put_bytes [] (buf, p) = Some (buf, p)"
| "put_bytes (b # bs) (buf, p) = (if p < length buf then put_bytes bs (buf[p := b], p + 1) else None)"

definition put_length :: "32 word \<Rightarrow> byte list \<times> nat \<Rightarrow> (byte list \<times> nat) option" where
  "put_length len q =
     (if len <s 128 then put_bytes [ucast len] q
      else put_bytes [ucast (signed_drop_bit 24 len OR 0x80), ucast (signed_drop_bit 16 len), ucast (signed_drop_bit 8 len), ucast len] q)"

definition c_bytes :: "string \<Rightarrow> byte list" where
  "c_bytes s = map of_char (c_str s)"

definition makeNameValueBody :: "string \<Rightarrow> 32 word \<Rightarrow> string \<Rightarrow> 32 word \<Rightarrow> byte list \<Rightarrow> (byte list \<times> nat) option" where
  "makeNameValueBody name nameLen val valueLen bodyBuff = do {
     q \<leftarrow> put_length nameLen (bodyBuff, 0);
     q \<leftarrow> put_length valueLen q;
     q \<leftarrow> put_bytes (c_bytes name) q;
     put_bytes (c_bytes val) q
   }"

text \<open>\<open>wr\<close> says what \<^verbatim>\<open>write\<close> returns when it is given so many bytes.\<close>

type_synonym fcgi_write_oracle = "nat \<Rightarrow> int"

definition fcgi_write :: "fcgi_write_oracle \<Rightarrow> byte list \<Rightarrow> FastCgi_t \<Rightarrow> int \<times> FastCgi_t" where
  "fcgi_write wr bs c = (let rc = wr (length bs) in (rc, c\<lparr>fc_sent := fc_sent c @ take (nat rc) bs\<rparr>))"

text \<open>\<open>socket_fd\<close> and \<open>rc\<close> are what \<^verbatim>\<open>socket\<close> and \<^verbatim>\<open>connect\<close> return.\<close>

definition startConnect :: "int \<Rightarrow> int \<Rightarrow> FastCgi_t \<Rightarrow> FastCgi_t option" where
  "startConnect socket_fd rc c = do {
     cassert (socket_fd > 0);
     cassert (rc \<ge> 0);
     Some (c\<lparr>sockfd := socket_fd\<rparr>)
   }"

definition sendStartRequestRecord :: "fcgi_write_oracle \<Rightarrow> FastCgi_t \<Rightarrow> FastCgi_t option" where
  "sendStartRequestRecord wr c = do {
     let body = makeBeginRequestBody FCGI_RESPONDER 0;
     let header = makeHeader FCGI_BEGIN_REQUEST (requestId c) (of_nat (length (begin_bytes body))) 0;
     let beginRecord = header_bytes header @ begin_bytes body;
     let (rc, c) = fcgi_write wr beginRecord c;
     cassert (rc = int (length beginRecord));
     Some c
   }"

definition sendParams :: "fcgi_write_oracle \<Rightarrow> string \<Rightarrow> string \<Rightarrow> FastCgi_t \<Rightarrow> FastCgi_t option" where
  "sendParams wr name val c = do {
     (bodyBuff, bodyLen) \<leftarrow> makeNameValueBody name (of_nat (length (c_str name))) val (of_nat (length (c_str val)))
       (replicate PARAMS_BUFF_LEN 0);
     let nameValueHeader = makeHeader FCGI_PARAMS (requestId c) (of_nat bodyLen) 0;
     let nameValueRecord = header_bytes nameValueHeader @ take bodyLen bodyBuff;
     let (rc, c) = fcgi_write wr nameValueRecord c;
     cassert (rc = int (bodyLen + FCGI_HEADER_LEN));
     Some c
   }"

definition sendEndRequestRecord :: "fcgi_write_oracle \<Rightarrow> FastCgi_t \<Rightarrow> FastCgi_t option" where
  "sendEndRequestRecord wr c = do {
     let endHeader = makeHeader FCGI_PARAMS (requestId c) 0 0;
     let (rc, c) = fcgi_write wr (header_bytes endHeader) c;
     cassert (rc = int FCGI_HEADER_LEN);
     Some c
   }"

subsection \<open>The answer\<close>

text \<open>
  \<open>rd\<close> says of each call of \<^verbatim>\<open>read\<close> whether it fails (\<open>None\<close>) or how many bytes it delivers at most; a call that
  does not fail delivers at least one byte unless the peer has closed the connection.
\<close>

type_synonym fcgi_read_oracle = "nat \<Rightarrow> nat option"

definition fcgi_read :: "fcgi_read_oracle \<Rightarrow> nat \<Rightarrow> FastCgi_t \<Rightarrow> int \<times> byte list \<times> FastCgi_t" where
  "fcgi_read rd n c = (case rd (fc_reads c) of
      None \<Rightarrow> (-1, [], c\<lparr>fc_reads := fc_reads c + 1\<rparr>)
    | Some k \<Rightarrow> (let bs = take (min n (max 1 k)) (fc_input c)
        in (int (length bs), bs, c\<lparr>fc_input := drop (length bs) (fc_input c), fc_reads := fc_reads c + 1\<rparr>)))"

definition poke_mem :: "byte list \<Rightarrow> mem \<Rightarrow> mem option" where
  "poke_mem bs m = (if length bs \<le> length m then Some (map Some bs @ drop (length bs) m) else None)"

definition bzero_mem :: "mem \<Rightarrow> mem" where
  "bzero_mem m = replicate (length m) (Some 0)"

text \<open>The value of a byte in memory.\<close>

definition mem_byte :: "mem \<Rightarrow> nat \<Rightarrow> byte option" where
  "mem_byte m i = Option.bind (vector_at m i) id"

text \<open>The string at the beginning of an array, as \<^verbatim>\<open>%s\<close> prints it.\<close>

fun mem_str :: "mem \<Rightarrow> byte list option" where
  "mem_str [] = None"
| "mem_str (None # m) = None"
| "mem_str (Some b # m) = (if b = 0 then Some [] else map_option ((#) b) (mem_str m))"

definition read_padding :: "fcgi_read_oracle \<Rightarrow> mem \<Rightarrow> FastCgi_t \<Rightarrow> FastCgi_t option" where
  "read_padding rd responderHeader c = do {
     padding \<leftarrow> mem_byte responderHeader 6;
     (if padding > 0
      then do {
        let (ret, bs, c) = fcgi_read rd (unat padding) c;
        _ \<leftarrow> poke_mem bs (replicate 8 None);
        cassert (ret = int (unat padding));
        Some c
      }
      else Some c)
   }"

definition read_content :: "fcgi_read_oracle \<Rightarrow> mem \<Rightarrow> mem \<Rightarrow> FastCgi_t \<Rightarrow> (mem \<times> FastCgi_t) option" where
  "read_content rd responderHeader content c = do {
     b1 \<leftarrow> mem_byte responderHeader 4;
     b0 \<leftarrow> mem_byte responderHeader 5;
     let contentLen = unat b1 * 256 + unat b0;
     let content = bzero_mem content;
     let (ret, bs, c) = fcgi_read rd contentLen c;
     content \<leftarrow> poke_mem bs content;
     cassert (ret = int contentLen);
     Some (content, c)
   }"

text \<open>The body of the loop, for a header that was read.\<close>

definition read_record :: "fcgi_read_oracle \<Rightarrow> mem \<Rightarrow> mem \<Rightarrow> FastCgi_t \<Rightarrow> (mem \<times> FastCgi_t) option" where
  "read_record rd responderHeader content c = do {
     ty \<leftarrow> mem_byte responderHeader 1;
     (if ty = ucast FCGI_STDOUT
      then do {
        (content, c) \<leftarrow> read_content rd responderHeader content c;
        c \<leftarrow> read_padding rd responderHeader c;
        Some (content, c)
      }
      else if ty = ucast FCGI_STDERR
      then do {
        (content, c) \<leftarrow> read_content rd responderHeader content c;
        _ \<leftarrow> mem_str content;
        c \<leftarrow> read_padding rd responderHeader c;
        Some (content, c)
      }
      else if ty = ucast FCGI_END_REQUEST
      then do {
        let (ret, bs, c) = fcgi_read rd 8 c;
        cassert (ret = 8);
        Some (content, c)
      }
      else Some (content, c))
   }"

lemma fcgi_read_input: "length (fc_input (snd (snd (fcgi_read rd n c)))) = length (fc_input c) - length (fst (snd (fcgi_read rd n c)))"
  by (simp add: fcgi_read_def Let_def split: option.split)

lemma fcgi_read_result: "fst (fcgi_read rd n c) > 0 \<Longrightarrow> length (fst (snd (fcgi_read rd n c))) > 0 \<and> length (fc_input c) > 0"
  by (auto simp: fcgi_read_def Let_def split: option.splits)

lemma fcgi_read_le: "fcgi_read rd n c = (r, bs, c') \<Longrightarrow> length (fc_input c') \<le> length (fc_input c)"
  using fcgi_read_input [of rd n c] by simp

lemma fcgi_read_less: "fcgi_read rd n c = (r, bs, c') \<Longrightarrow> 0 < r \<Longrightarrow> length (fc_input c') < length (fc_input c)"
  using fcgi_read_input [of rd n c] fcgi_read_result [of rd n c] by auto

lemma read_padding_le: "read_padding rd h c = Some c' \<Longrightarrow> length (fc_input c') \<le> length (fc_input c)"
proof -
  assume a: "read_padding rd h c = Some c'"
  then obtain p where p: "mem_byte h 6 = Some p" by (auto simp: read_padding_def)
  show ?thesis using a p fcgi_read_le [of rd "unat p" c]
    by (cases "fcgi_read rd (unat p) c") (auto simp: read_padding_def split: if_splits)
qed

lemma read_content_le: "read_content rd h m c = Some (m', c') \<Longrightarrow> length (fc_input c') \<le> length (fc_input c)"
proof -
  assume a: "read_content rd h m c = Some (m', c')"
  then obtain b1 b0 where b: "mem_byte h 4 = Some b1" "mem_byte h 5 = Some b0" by (auto simp: read_content_def)
  show ?thesis using a b fcgi_read_le [of rd "unat b1 * 256 + unat b0" c]
    by (cases "fcgi_read rd (unat b1 * 256 + unat b0) c") (auto simp: read_content_def)
qed

lemma read_record_le: "read_record rd h m c = Some (m', c') \<Longrightarrow> length (fc_input c') \<le> length (fc_input c)"
  using fcgi_read_le [of rd 8 c]
  by (cases "fcgi_read rd 8 c")
    (auto simp: read_record_def split: if_splits dest!: read_content_le read_padding_le)

function read_loop :: "fcgi_read_oracle \<Rightarrow> mem \<Rightarrow> mem \<Rightarrow> FastCgi_t \<Rightarrow> (mem \<times> FastCgi_t) option" where
  "read_loop rd responderHeader content c =
     (let (ret, bs, c') = fcgi_read rd FCGI_HEADER_LEN c
      in if ret > 0
         then do {
           responderHeader \<leftarrow> poke_mem bs responderHeader;
           (content, c'') \<leftarrow> read_record rd responderHeader content c';
           read_loop rd responderHeader content c''
         }
         else Some (content, c'))"
  by auto
termination
  by (relation "measure (\<lambda>(rd, h, m, c). length (fc_input c))")
    (auto dest!: fcgi_read_less [OF sym] read_record_le)

declare read_loop.simps [simp del]

text \<open>Before the loop, bytes are read into an array that is not used.\<close>

definition readFromPhp :: "fcgi_read_oracle \<Rightarrow> FastCgi_t \<Rightarrow> (mem \<times> FastCgi_t) option" where
  "readFromPhp rd c = (let (read1, a, c) = fcgi_read rd 1000 c
     in read_loop rd (replicate FCGI_HEADER_LEN None) (replicate CONTENT_BUFF_LEN None) c)"

subsection \<open>The end of the headers\<close>

datatype html_state = S_NOPE | S_CR | S_CRLF | S_CRLFCR | S_CRLFCRLF

definition html_next :: "html_state \<Rightarrow> byte \<Rightarrow> html_state" where
  "html_next state b = (case state of
      S_NOPE \<Rightarrow> if b = of_char (CHR 0x0D) then S_CR else S_NOPE
    | S_CR \<Rightarrow> if b = of_char (CHR 0x0A) then S_CRLF else S_NOPE
    | S_CRLF \<Rightarrow> if b = of_char (CHR 0x0D) then S_CRLFCR else S_NOPE
    | S_CRLFCR \<Rightarrow> if b = of_char (CHR 0x0A) then S_CRLFCRLF else S_NOPE
    | S_CRLFCRLF \<Rightarrow> S_CRLFCRLF)"

text \<open>The loop returns an index into the content, or \<open>None\<close> inside when it comes to the terminating zero.\<close>

fun html_scan :: "html_state \<Rightarrow> nat \<Rightarrow> mem \<Rightarrow> nat option option" where
  "html_scan state i [] = None"
| "html_scan state i (None # m) = None"
| "html_scan state i (Some b # m) =
     (if b = 0 then Some None
      else if state = S_CRLFCRLF then Some (Some i)
      else html_scan (html_next state b) (i + 1) m)"

definition findStartHtml :: "mem \<Rightarrow> nat option" where
  "findStartHtml p = map_option (\<lambda>r. case r of Some i \<Rightarrow> i | None \<Rightarrow> 0) (html_scan S_NOPE 0 p)"

text \<open>The result is what is printed.\<close>

definition getHtmlFromContent :: "FastCgi_t \<Rightarrow> mem \<Rightarrow> (byte list \<times> FastCgi_t) option" where
  "getHtmlFromContent c content =
     (if flag c = 1 then map_option (\<lambda>s. (s, c)) (mem_str content)
      else do {
        pt \<leftarrow> findStartHtml content;
        s \<leftarrow> mem_str (drop pt content);
        Some (s, c\<lparr>flag := 1\<rparr>)
      })"

section \<open>What the application server reads\<close>

text \<open>
  The protocol, from the side of the receiver: a record is a header of eight bytes, as many bytes of
  content as it says and as many of padding; the contents of the parameter records, one after the other,
  are pairs of a name and a value, each preceded by its length in one byte or, with the top bit set, in four.
\<close>

fun decode_length :: "byte list \<Rightarrow> (nat \<times> byte list) option" where
  "decode_length (b # bs) = (if unat b < 128 then Some (unat b, bs) else (case bs of
      b2 # b1 # b0 # rest \<Rightarrow> Some ((unat b - 128) * 2 ^ 24 + unat b2 * 2 ^ 16 + unat b1 * 2 ^ 8 + unat b0, rest)
    | _ \<Rightarrow> None))"
| "decode_length [] = None"

definition decode_pair :: "byte list \<Rightarrow> ((byte list \<times> byte list) \<times> byte list) option" where
  "decode_pair bs = do {
     (n, bs) \<leftarrow> decode_length bs;
     (v, bs) \<leftarrow> decode_length bs;
     (if n + v \<le> length bs then Some ((take n bs, take v (drop n bs)), drop (n + v) bs) else None)
   }"

lemma decode_length_less: "decode_length bs = Some (n, rest) \<Longrightarrow> length rest < length bs"
  by (cases bs) (auto split: if_splits list.splits)

lemma decode_pair_less: "decode_pair bs = Some (nv, rest) \<Longrightarrow> length rest < length bs"
  by (fastforce simp: decode_pair_def dest!: decode_length_less)

function decode_pairs :: "byte list \<Rightarrow> (byte list \<times> byte list) list option" where
  "decode_pairs bs = (if bs = [] then Some [] else do {
     (nv, rest) \<leftarrow> decode_pair bs;
     nvs \<leftarrow> decode_pairs rest;
     Some (nv # nvs)
   })"
  by auto
termination
  by (relation "measure length") (auto dest: decode_pair_less)

text \<open>A record: its type, the request it belongs to and its content.\<close>

fun decode_record :: "byte list \<Rightarrow> ((nat \<times> nat \<times> byte list) \<times> byte list) option" where
  "decode_record (ver # ty # i1 # i0 # l1 # l0 # pad # reserved # bs) =
     (let n = unat l1 * 256 + unat l0
      in if ver = 1 \<and> n + unat pad \<le> length bs
         then Some ((unat ty, unat i1 * 256 + unat i0, take n bs), drop (n + unat pad) bs)
         else None)"
| "decode_record _ = None"

lemma decode_record_less: "decode_record bs = Some (r, rest) \<Longrightarrow> length rest < length bs"
  by (induction bs rule: decode_record.induct) (auto simp: Let_def split: if_splits)

function decode_records :: "byte list \<Rightarrow> (nat \<times> nat \<times> byte list) list option" where
  "decode_records bs = (if bs = [] then Some [] else do {
     (r, rest) \<leftarrow> decode_record bs;
     rs \<leftarrow> decode_records rest;
     Some (r # rs)
   })"
  by auto
termination
  by (relation "measure length") (auto dest: decode_record_less)

declare decode_pairs.simps [simp del] decode_records.simps [simp del]

subsection \<open>Words\<close>

lemma sint_small: "n < 2 ^ 31 \<Longrightarrow> sint (of_nat n :: 32 word) = int n"
  by (simp add: signed_of_nat signed_take_bit_int_eq_self)

lemma signed_drop_bit_of_nat:
  assumes "n < 2 ^ 31"
  shows "signed_drop_bit k (of_nat n :: 32 word) = of_nat (n div 2 ^ k)"
proof (rule signed_word_eqI)
  have "n div 2 ^ k < 2 ^ 31" using assms by (rule order.strict_trans1 [OF div_le_dividend])
  then show "sint (signed_drop_bit k (of_nat n :: 32 word)) = sint (of_nat (n div 2 ^ k) :: 32 word)"
    using assms by (simp only: sint_signed_drop_bit_eq sint_small drop_bit_eq_div) (simp add: zdiv_int)
qed

lemma unat_low_byte: "n < 2 ^ 32 \<Longrightarrow> unat (ucast (of_nat n :: 32 word) :: byte) = n mod 256"
  by (simp add: unsigned_ucast_eq unat_of_nat take_bit_eq_mod)

lemma ucast_and_ff: "(ucast (w AND 0xff :: 32 word) :: byte) = ucast w"
proof -
  have "(0xff :: 32 word) = mask 8" by (simp add: mask_eq_exp_minus_1)
  then have "w AND 0xff = take_bit 8 w" by (simp add: take_bit_eq_mask)
  then show ?thesis by (auto intro!: bit_word_eqI simp: bit_unsigned_iff bit_take_bit_iff)
qed

text \<open>The bytes of a length.\<close>

definition length_bytes :: "32 word \<Rightarrow> byte list" where
  "length_bytes len = (if len <s 128 then [ucast len]
     else [ucast (signed_drop_bit 24 len OR 0x80), ucast (signed_drop_bit 16 len), ucast (signed_drop_bit 8 len), ucast len])"

lemma put_length_bytes: "put_length len q = put_bytes (length_bytes len) q"
  by (simp add: put_length_def length_bytes_def)

lemma unat_top_byte:
  assumes "m < 128"
  shows "unat (ucast (of_nat m OR 0x80 :: 32 word) :: byte) = m + 128"
proof -
  have "\<forall>m \<in> set [0..<128]. unat (ucast (of_nat m OR 0x80 :: 32 word) :: byte) = m + 128" by code_simp
  then show ?thesis using assms by simp
qed

lemma decode_length_bytes:
  assumes "n < 2 ^ 31"
  shows "decode_length (length_bytes (of_nat n) @ rest) = Some (n, rest)"
proof -
  have s: "(of_nat n :: 32 word) <s 128 \<longleftrightarrow> n < 128"
    using assms by (simp add: word_sless_alt sint_small)
  show ?thesis
  proof (cases "n < 128")
    case True
    then show ?thesis using s unat_low_byte [of n] by (simp add: length_bytes_def)
  next
    case False
    have top: "n div 2 ^ 24 < 128" using assms by (simp add: div_less_iff_less_mult)
    have "n = n div 256 * 256 + n mod 256" "n div 256 = n div 65536 * 256 + n div 256 mod 256"
      "n div 65536 = n div 16777216 * 256 + n div 65536 mod 256"
      using div_mult_mod_eq [of n 256] div_mult_mod_eq [of "n div 256" 256] div_mult_mod_eq [of "n div 65536" 256]
      by (simp_all flip: div_mult2_eq)
    then have "n div 16777216 * 16777216 + n div 65536 mod 256 * 65536 + n div 256 mod 256 * 256 + n mod 256 = n" by linarith
    moreover have "n div 2 ^ 16 < 2 ^ 32" "n div 2 ^ 8 < 2 ^ 32" "n < 2 ^ 32" using assms by simp_all
    ultimately show ?thesis using False s assms unat_top_byte [OF top]
      by (simp add: length_bytes_def signed_drop_bit_of_nat unat_low_byte)
  qed
qed

subsection \<open>Records\<close>

lemma put_bytes_eq:
  "p + length bs \<le> length buf \<Longrightarrow> put_bytes bs (buf, p) = Some (take p buf @ bs @ drop (p + length bs) buf, p + length bs)"
proof (induction bs arbitrary: buf p)
  case (Cons b bs)
  then have "take (p + 1) (buf[p := b]) = take p buf @ [b]" by (simp add: take_Suc_conv_app_nth)
  then show ?case using Cons by simp
qed simp

lemma put_bytes_overflow: "p \<le> length buf \<Longrightarrow> length buf < p + length bs \<Longrightarrow> put_bytes bs (buf, p) = None"
  by (induction bs arbitrary: buf p) auto

definition pair_bytes :: "string \<Rightarrow> string \<Rightarrow> byte list" where
  "pair_bytes name val = length_bytes (of_nat (length (c_str name))) @ length_bytes (of_nat (length (c_str val)))
     @ c_bytes name @ c_bytes val"

lemma put_bytes_bind:
  "p \<le> length buf \<Longrightarrow> Option.bind (put_bytes as (buf, p)) (put_bytes bs) = put_bytes (as @ bs) (buf, p)"
  by (induction as arbitrary: buf p) auto

lemma makeNameValueBody_eq:
  "makeNameValueBody name (of_nat (length (c_str name))) val (of_nat (length (c_str val))) buf = put_bytes (pair_bytes name val) (buf, 0)"
proof -
  have bind: "put_bytes (as @ bs) (buf, 0) = Option.bind (put_bytes as (buf, 0)) (put_bytes bs)" for as bs
    by (simp add: put_bytes_bind)
  have "put_bytes (pair_bytes name val) (buf, 0) = put_bytes (((length_bytes (of_nat (length (c_str name)))
      @ length_bytes (of_nat (length (c_str val)))) @ c_bytes name) @ c_bytes val) (buf, 0)"
    by (simp add: pair_bytes_def)
  also have "\<dots> = makeNameValueBody name (of_nat (length (c_str name))) val (of_nat (length (c_str val))) buf"
    unfolding bind by (simp add: makeNameValueBody_def put_length_bytes)
  finally show ?thesis ..
qed

lemma decode_pair_bytes:
  assumes "length (c_str name) < 2 ^ 31" "length (c_str val) < 2 ^ 31"
  shows "decode_pair (pair_bytes name val @ rest) = Some ((c_bytes name, c_bytes val), rest)"
  using decode_length_bytes [OF assms(1)] decode_length_bytes [OF assms(2)] by (simp add: decode_pair_def pair_bytes_def c_bytes_def)

lemma decode_header:
  assumes "length body < 65536" "i < 65536" "ty < 256"
  shows "decode_record (header_bytes (makeHeader (of_nat ty) (of_nat i) (of_nat (length body)) 0) @ body @ rest)
    = Some ((ty, i, body), rest)"
proof -
  have "m div 256 * 256 + m mod 256 = m" for m :: nat by (rule div_mult_mod_eq)
  then show ?thesis using assms
    by (simp add: header_bytes_def makeHeader_def FCGI_VERSION_1_def ucast_and_ff signed_drop_bit_of_nat unat_low_byte Let_def
        div_less_iff_less_mult)
qed

lemma decode_records_step:
  "decode_record bs = Some (r, rest) \<Longrightarrow> decode_records bs = map_option ((#) r) (decode_records rest)"
  by (subst decode_records.simps) (auto simp: map_option_case split: option.splits)

lemma decode_pairs_step:
  "decode_pair bs = Some (nv, rest) \<Longrightarrow> decode_pairs bs = map_option ((#) nv) (decode_pairs rest)"
  by (subst decode_pairs.simps) (auto simp: map_option_case decode_pair_def split: option.splits)

lemma decode_Nil [simp]: "decode_records [] = Some []" "decode_pairs [] = Some []"
  by (simp_all add: decode_records.simps decode_pairs.simps)

definition param_record :: "nat \<Rightarrow> byte list \<Rightarrow> byte list" where
  "param_record i body = header_bytes (makeHeader FCGI_PARAMS (of_nat i) (of_nat (length body)) 0) @ body"

lemma decode_param_record:
  assumes "length body < 65536" "i < 65536"
  shows "decode_record (param_record i body @ rest) = Some ((4, i, body), rest)"
  using decode_header [OF assms, of 4 rest] by (simp add: param_record_def FCGI_PARAMS_def)

lemma sendParams_eq:
  "sendParams int name val c = (if length (pair_bytes name val) \<le> PARAMS_BUFF_LEN
     then Some (c\<lparr>fc_sent := fc_sent c @ param_record (unat (requestId c)) (pair_bytes name val)\<rparr>) else None)"
proof -
  have "length (header_bytes h) = 8" for h by (simp add: header_bytes_def)
  then show ?thesis
    using put_bytes_eq [of 0 "pair_bytes name val" "replicate PARAMS_BUFF_LEN 0"]
      put_bytes_overflow [of 0 "replicate PARAMS_BUFF_LEN 0" "pair_bytes name val"]
    by (auto simp: sendParams_def makeNameValueBody_eq fcgi_write_def param_record_def FCGI_HEADER_LEN_def Let_def)
qed

lemma sendAll_eq:
  assumes "\<forall>(n, v) \<in> set ps. length (pair_bytes n v) \<le> PARAMS_BUFF_LEN"
  shows "run_ops (\<lambda>(n, v). sendParams int n v) ps c
    = Some (c\<lparr>fc_sent := fc_sent c @ concat (map (\<lambda>(n, v). param_record (unat (requestId c)) (pair_bytes n v)) ps)\<rparr>)"
  using assms by (induction ps arbitrary: c) (auto simp: sendParams_eq)

lemma decode_params:
  assumes "\<forall>(n, v) \<in> set ps. length (pair_bytes n v) \<le> PARAMS_BUFF_LEN" "i < 65536"
  shows "decode_records (concat (map (\<lambda>(n, v). param_record i (pair_bytes n v)) ps) @ rest)
      = map_option ((@) (map (\<lambda>(n, v). (4, i, pair_bytes n v)) ps)) (decode_records rest)"
    "decode_pairs (concat (map (\<lambda>(n, v). pair_bytes n v) ps)) = Some (map (\<lambda>(n, v). (c_bytes n, c_bytes v)) ps)"
proof -
  have short: "length (pair_bytes n v) < 65536" "length (c_str n) < 2 ^ 31" "length (c_str v) < 2 ^ 31" if "(n, v) \<in> set ps" for n v
    using assms(1) that by (auto simp: PARAMS_BUFF_LEN_def pair_bytes_def c_bytes_def)
  show "decode_records (concat (map (\<lambda>(n, v). param_record i (pair_bytes n v)) ps) @ rest)
      = map_option ((@) (map (\<lambda>(n, v). (4, i, pair_bytes n v)) ps)) (decode_records rest)"
    using short(1)
  proof (induction ps)
    case (Cons p ps)
    obtain n v where p: "p = (n, v)" by fastforce
    show ?case using Cons decode_records_step [OF decode_param_record [OF _ assms(2)]]
      by (auto simp: p option.map_comp o_def)
  qed (cases "decode_records rest"; simp)
  show "decode_pairs (concat (map (\<lambda>(n, v). pair_bytes n v) ps)) = Some (map (\<lambda>(n, v). (c_bytes n, c_bytes v)) ps)"
    using short(2,3)
  proof (induction ps)
    case (Cons p ps)
    obtain n v where p: "p = (n, v)" by fastforce
    have "length (c_str n) < 2 ^ 31" "length (c_str v) < 2 ^ 31" using Cons.prems [of n v] by (simp_all add: p)
    moreover have "decode_pairs (concat (map (\<lambda>(n, v). pair_bytes n v) ps)) = Some (map (\<lambda>(n, v). (c_bytes n, c_bytes v)) ps)"
      by (rule Cons.IH) (use Cons.prems in auto)
    ultimately show ?case using decode_pairs_step [OF decode_pair_bytes, of n v "concat (map (\<lambda>(n, v). pair_bytes n v) ps)"]
      by (simp add: p)
  qed simp
qed

section \<open>Properties\<close>

text \<open>
  C39. The request arrives.  The records of a request, the start, the parameters and the end of the
  parameters, decode by the rules of the protocol to a start of the responder role and to exactly the
  names and values given, for the request whose id was set; short and long names alike, as long as a
  pair fits the array in which it is built.
\<close>

theorem FastCgi_request_roundtrip:
  assumes "i < 65536" "\<forall>(n, v) \<in> set ps. length (pair_bytes n v) \<le> PARAMS_BUFF_LEN" "fc_sent c = []"
  shows "\<exists>c1 c2 c3 rs. sendStartRequestRecord int (setRequestId (of_nat i) c) = Some c1
    \<and> run_ops (\<lambda>(n, v). sendParams int n v) ps c1 = Some c2 \<and> sendEndRequestRecord int c2 = Some c3
    \<and> decode_records (fc_sent c3) = Some ((1, i, [0, 1, 0, 0, 0, 0, 0, 0]) # map (\<lambda>b. (4, i, b)) rs @ [(4, i, [])])
    \<and> decode_pairs (concat rs) = Some (map (\<lambda>(n, v). (c_bytes n, c_bytes v)) ps)"
proof -
  let ?c0 = "setRequestId (of_nat i) c"
  let ?start = "header_bytes (makeHeader FCGI_BEGIN_REQUEST (of_nat i) 8 0) @ [0, 1, 0, 0, 0, 0, 0, 0]"
  let ?rs = "map (\<lambda>(n, v). pair_bytes n v) ps"
  let ?params = "concat (map (\<lambda>(n, v). param_record i (pair_bytes n v)) ps)"
  have id: "requestId ?c0 = of_nat i" "unat (of_nat i :: 32 word) = i"
    using assms(1) by (simp_all add: setRequestId_def unat_of_nat)
  have body: "begin_bytes (makeBeginRequestBody FCGI_RESPONDER 0) = [0, 1, 0, 0, 0, 0, 0, 0]" by code_simp
  have hlen: "length (header_bytes h) = 8" for h by (simp add: header_bytes_def)
  let ?c1 = "?c0\<lparr>fc_sent := ?start\<rparr>"
  have 1: "sendStartRequestRecord int ?c0 = Some ?c1"
    using assms(3) id by (simp add: sendStartRequestRecord_def body hlen fcgi_write_def Let_def setRequestId_def)
  let ?c2 = "?c0\<lparr>fc_sent := ?start @ ?params\<rparr>"
  have 2: "run_ops (\<lambda>(n, v). sendParams int n v) ps ?c1 = Some ?c2"
    using sendAll_eq [OF assms(2), of ?c1] id by simp
  let ?c3 = "?c0\<lparr>fc_sent := ?start @ ?params @ param_record i []\<rparr>"
  have 3: "sendEndRequestRecord int ?c2 = Some ?c3"
    using id by (simp add: sendEndRequestRecord_def hlen fcgi_write_def param_record_def FCGI_HEADER_LEN_def Let_def)
  have "decode_record (?start @ ?params @ param_record i []) = Some ((1, i, [0, 1, 0, 0, 0, 0, 0, 0]), ?params @ param_record i [])"
    using decode_header [of "[0, 1, 0, 0, 0, 0, 0, 0]" i 1] assms(1) by (simp add: FCGI_BEGIN_REQUEST_def)
  moreover have "decode_records (param_record i []) = Some [(4, i, [])]"
    using decode_records_step [of "param_record i [] @ []"] decode_param_record [of "[]" i "[]"] assms(1) by simp
  ultimately have "decode_records (fc_sent ?c3) = Some ((1, i, [0, 1, 0, 0, 0, 0, 0, 0]) # map (\<lambda>b. (4, i, b)) ?rs @ [(4, i, [])])"
    using decode_params(1) [OF assms(2,1), of "param_record i []"] decode_records_step
    by (simp add: comp_def case_prod_beta)
  then show ?thesis using 1 2 3 decode_params(2) [OF assms(2,1)] by blast
qed

text \<open>The witness: a short parameter and one whose value takes the long form of the length.\<close>

theorem FastCgi_request_roundtrip_witness:
  "\<exists>c1 c2 c3 rs. sendStartRequestRecord int
      (setRequestId 513 \<lparr>sockfd = 3, requestId = 0, flag = 0, fc_sent = [], fc_input = [], fc_reads = 0\<rparr>) = Some c1
    \<and> run_ops (\<lambda>(n, v). sendParams int n v) [(''A'', ''b''), (''LONG'', replicate 200 (CHR ''x''))] c1 = Some c2
    \<and> sendEndRequestRecord int c2 = Some c3
    \<and> decode_records (fc_sent c3) = Some ((1, 513, [0, 1, 0, 0, 0, 0, 0, 0]) # map (\<lambda>b. (4, 513, b)) rs @ [(4, 513, [])])
    \<and> decode_pairs (concat rs) = Some [([65], [98]), ([76, 79, 78, 71], replicate 200 120)]"
proof -
  let ?c = "\<lparr>sockfd = 3, requestId = 0, flag = 0, fc_sent = [], fc_input = [], fc_reads = 0\<rparr>"
  have fits: "\<forall>(n, v) \<in> set [(''A'', ''b''), (''LONG'', replicate 200 (CHR ''x''))]. length (pair_bytes n v) \<le> PARAMS_BUFF_LEN"
    by code_simp
  have bytes: "map (\<lambda>(n, v). (c_bytes n, c_bytes v)) [(''A'', ''b''), (''LONG'', replicate 200 (CHR ''x''))]
      = [([65], [98]), ([76, 79, 78, 71], replicate 200 120)]"
    by code_simp
  have num: "513 < (65536 :: nat)" "fc_sent ?c = []" by simp_all
  show ?thesis using FastCgi_request_roundtrip [OF num(1) fits num(2)] unfolding bytes of_nat_numeral .
qed

subsection \<open>The answer\<close>

text \<open>Every read delivers all that there is, up to the bytes asked for.\<close>

definition full_reads :: "fcgi_read_oracle \<Rightarrow> bool" where
  "full_reads rd \<longleftrightarrow> (\<forall>i. \<exists>k. rd i = Some k \<and> 65536 \<le> k)"

lemma fcgi_read_full:
  assumes "full_reads rd" "n \<le> 65536"
  shows "fcgi_read rd n c = (int (length (take n (fc_input c))), take n (fc_input c),
    c\<lparr>fc_input := drop n (fc_input c), fc_reads := fc_reads c + 1\<rparr>)"
proof -
  obtain k where k: "rd (fc_reads c) = Some k" "65536 \<le> k" using assms(1) by (auto simp: full_reads_def)
  then have "min n (max 1 k) = n" using assms(2) by simp
  then show ?thesis using k(1) by (simp add: fcgi_read_def Let_def min_def)
qed

lemma readFromPhp_short:
  assumes "full_reads rd" "length (fc_input c) \<le> 1000"
  shows "readFromPhp rd c = Some (replicate CONTENT_BUFF_LEN None, c\<lparr>fc_input := [], fc_reads := fc_reads c + 2\<rparr>)"
  using assms by (simp add: readFromPhp_def fcgi_read_full read_loop.simps FCGI_HEADER_LEN_def Let_def)

text \<open>
  The beginning of the answer is thrown away.  Before it reads the first record, \<^verbatim>\<open>readFromPhp\<close> reads up to a
  thousand bytes into an array that nothing uses.  An answer that is not longer is lost altogether: the
  content returned was never written to, and looking for the page in it reads indeterminate memory.
\<close>

lemma FastCgi_answer_lost:
  assumes "full_reads rd" "length (fc_input c) \<le> 1000"
  shows "\<exists>c'. readFromPhp rd c = Some (replicate CONTENT_BUFF_LEN None, c') \<and> fc_input c' = []
    \<and> getHtmlFromContent c' (replicate CONTENT_BUFF_LEN None) = None"
proof -
  have "replicate CONTENT_BUFF_LEN (None :: byte option) = None # replicate 2047 None" by (simp add: CONTENT_BUFF_LEN_def flip: replicate_Suc)
  then have "getHtmlFromContent d (replicate CONTENT_BUFF_LEN None) = None" for d
    by (simp add: getHtmlFromContent_def findStartHtml_def)
  then show ?thesis using readFromPhp_short [OF assms] by simp
qed

text \<open>
  What does arrive.  After a thousand bytes, each output record replaces the content of the one before;
  contents beyond 2048 bytes and padding beyond eight leave their arrays.
\<close>

definition out_record :: "byte list \<Rightarrow> byte list \<Rightarrow> byte list" where
  "out_record b pad = header_bytes (makeHeader FCGI_STDOUT 1 (of_nat (length b)) (of_nat (length pad))) @ b @ pad"

definition in_content :: "byte list \<Rightarrow> mem" where
  "in_content b = map Some b @ replicate (CONTENT_BUFF_LEN - length b) (Some 0)"

lemma header_fields:
  assumes "n < 65536" "p < 256"
  shows "header_bytes (makeHeader FCGI_STDOUT 1 (of_nat n) (of_nat p))
    = [1, 6, 0, 1, of_nat (n div 256), of_nat (n mod 256), of_nat p, 0]"
proof -
  have "(ucast (of_nat m :: 32 word) :: byte) = of_nat (m mod 256)" if "m < 2 ^ 32" for m
    by (rule word_unat_eq_iff [THEN iffD2]) (use unat_low_byte [OF that] in \<open>simp add: unat_of_nat\<close>)
  from this [of "n div 256"] this [of n] this [of p] show ?thesis using assms
    by (simp add: header_bytes_def makeHeader_def FCGI_VERSION_1_def FCGI_STDOUT_def ucast_and_ff signed_drop_bit_of_nat
        div_less_iff_less_mult)
qed

lemma read_padding_full:
  assumes "full_reads rd" "fc_input c = pad @ rest" "length pad \<le> 8" "h ! 6 = Some (of_nat (length pad))" "length h = 8"
  shows "\<exists>r. read_padding rd h c = Some (c\<lparr>fc_input := rest, fc_reads := r\<rparr>)"
proof (cases "pad = []")
  case True
  then show ?thesis using assms
    by (intro exI [of _ "fc_reads c"]) (simp add: read_padding_def mem_byte_def vector_at_def)
next
  case False
  have l: "unat (of_nat (length pad) :: byte) = length pad" using assms(3) by (simp add: unat_of_nat)
  then have "(0 :: byte) < of_nat (length pad)" using False by (simp add: word_less_nat_alt)
  then show ?thesis using assms False l
    by (intro exI [of _ "fc_reads c + 1"]) (simp add: read_padding_def mem_byte_def vector_at_def fcgi_read_full poke_mem_def Let_def)
qed

lemma read_loop_record:
  assumes "full_reads rd" "fc_input c = out_record b pad @ rest" "length b \<le> CONTENT_BUFF_LEN" "length pad \<le> 8"
    "length h = 8" "length m = CONTENT_BUFF_LEN"
  shows "\<exists>h' r. length h' = 8 \<and> read_loop rd h m c = read_loop rd h' (in_content b) (c\<lparr>fc_input := rest, fc_reads := r\<rparr>)"
proof -
  let ?n = "length b" and ?p = "length pad"
  let ?h = "map Some [1, 6, 0, 1, of_nat (?n div 256), of_nat (?n mod 256), of_nat ?p, 0] :: mem"
  have small: "?n < 65536" "?p < 256" using assms(3,4) by (simp_all add: CONTENT_BUFF_LEN_def)
  have inp: "fc_input c = [1, 6, 0, 1, of_nat (?n div 256), of_nat (?n mod 256), of_nat ?p, 0] @ b @ pad @ rest"
    using assms(2) header_fields [OF small] by (simp add: out_record_def)
  have len: "unat (of_nat (?n div 256) :: byte) * 256 + unat (of_nat (?n mod 256) :: byte) = ?n"
    using small(1) by (simp add: unat_of_nat div_less_iff_less_mult)
  have ilen: "uint (of_nat (?n div 256) :: byte) * 256 + uint (of_nat (?n mod 256) :: byte) = int ?n"
    using arg_cong [OF len, of int] by simp
  let ?c1 = "c\<lparr>fc_input := b @ pad @ rest, fc_reads := fc_reads c + 1\<rparr>"
  have hd: "fcgi_read rd FCGI_HEADER_LEN c = (8, [1, 6, 0, 1, of_nat (?n div 256), of_nat (?n mod 256), of_nat ?p, 0], ?c1)"
    using inp by (simp add: fcgi_read_full [OF assms(1)] FCGI_HEADER_LEN_def)
  let ?c2 = "c\<lparr>fc_input := pad @ rest, fc_reads := fc_reads c + 2\<rparr>"
  have ct: "read_content rd ?h m ?c1 = Some (in_content b, ?c2)"
    using assms(3,6) small len ilen
    by (simp add: read_content_def mem_byte_def vector_at_def fcgi_read_full [OF assms(1)] poke_mem_def bzero_mem_def in_content_def Let_def)
  obtain r where pd: "read_padding rd ?h ?c2 = Some (c\<lparr>fc_input := rest, fc_reads := r\<rparr>)"
    using read_padding_full [OF assms(1) _ assms(4), of ?c2 rest ?h] by auto
  have "poke_mem [1, 6, 0, 1, of_nat (?n div 256), of_nat (?n mod 256), of_nat ?p, 0] h = Some ?h"
    using assms(5) by (simp add: poke_mem_def)
  moreover have "mem_byte ?h 1 = Some 6" by (simp add: mem_byte_def vector_at_def)
  ultimately have "read_loop rd h m c = read_loop rd ?h (in_content b) (c\<lparr>fc_input := rest, fc_reads := r\<rparr>)"
    using hd ct pd by (subst read_loop.simps) (simp add: read_record_def FCGI_STDOUT_def)
  then show ?thesis by (intro exI [of _ ?h] exI [of _ r]) simp
qed

lemma read_loop_records:
  assumes "full_reads rd" "\<forall>(b, pad) \<in> set rs. length b \<le> CONTENT_BUFF_LEN \<and> length pad \<le> 8"
    "fc_input c = concat (map (\<lambda>(b, pad). out_record b pad) rs)" "length h = 8" "length m = CONTENT_BUFF_LEN"
  shows "\<exists>c'. read_loop rd h m c = Some (if rs = [] then m else in_content (fst (last rs)), c') \<and> fc_input c' = []"
  using assms(2-)
proof (induction rs arbitrary: c h m)
  case Nil
  then show ?case by (subst read_loop.simps) (simp add: fcgi_read_full [OF assms(1)] FCGI_HEADER_LEN_def)
next
  case (Cons x rs)
  obtain b pad where x: "x = (b, pad)" by fastforce
  have ok: "length b \<le> CONTENT_BUFF_LEN" "length pad \<le> 8" using Cons.prems(1) by (simp_all add: x)
  obtain h' r where h': "length h' = 8"
    "read_loop rd h m c = read_loop rd h' (in_content b) (c\<lparr>fc_input := concat (map (\<lambda>(b, pad). out_record b pad) rs), fc_reads := r\<rparr>)"
    using read_loop_record [OF assms(1) _ ok Cons.prems(3,4), of c] Cons.prems(2) by (auto simp: x)
  have "length (in_content b) = CONTENT_BUFF_LEN" using ok(1) by (simp add: in_content_def)
  from Cons.IH [OF _ _ h'(1) this] Cons.prems(1)
  show ?case by (cases "rs = []") (auto simp: h'(2) x)
qed

lemma readFromPhp_last:
  assumes "full_reads rd" "\<forall>(b, pad) \<in> set rs. length b \<le> CONTENT_BUFF_LEN \<and> length pad \<le> 8" "rs \<noteq> []"
    "fc_input c = lost @ concat (map (\<lambda>(b, pad). out_record b pad) rs)" "length lost = 1000"
  shows "\<exists>c'. readFromPhp rd c = Some (in_content (fst (last rs)), c')"
  using read_loop_records [OF assms(1,2), of "c\<lparr>fc_input := concat (map (\<lambda>(b, pad). out_record b pad) rs), fc_reads := fc_reads c + 1\<rparr>"
      "replicate FCGI_HEADER_LEN None" "replicate CONTENT_BUFF_LEN None"] assms(3-5)
  by (auto simp: readFromPhp_def fcgi_read_full [OF assms(1)] FCGI_HEADER_LEN_def)

subsection \<open>The page\<close>

lemma html_scan_append:
  assumes "0 \<notin> set bs" "foldl html_next st bs \<noteq> S_CRLFCRLF"
  shows "html_scan st i (map Some bs @ m) = html_scan (foldl html_next st bs) (i + length bs) m"
proof -
  have stay: "foldl html_next S_CRLFCRLF xs = S_CRLFCRLF" for xs by (induction xs) (simp_all add: html_next_def)
  show ?thesis using assms
  proof (induction bs arbitrary: st i)
    case (Cons b bs)
    then have "st \<noteq> S_CRLFCRLF" using stay [of "b # bs"] by auto
    then show ?case using Cons by simp
  qed simp
qed

lemma html_next_line:
  assumes "13 \<notin> set l" "l \<noteq> []" "st = S_NOPE \<or> st = S_CRLF"
  shows "foldl html_next st (l @ [13, 10]) = S_CRLF"
proof -
  have nope: "foldl html_next S_NOPE l = S_NOPE" if "13 \<notin> set l" for l
    using that by (induction l) (auto simp: html_next_def)
  obtain b bs where l: "l = b # bs" using assms(2) by (cases l) auto
  then have "html_next st b = S_NOPE" using assms(1,3) by (auto simp: html_next_def)
  then show ?thesis using nope [of bs] assms(1) by (simp add: l html_next_def)
qed

text \<open>In an answer made of header lines, an empty line and a page, the page is found where it begins.\<close>

lemma findStartHtml_page:
  assumes "ls \<noteq> []" "\<forall>l \<in> set ls. l \<noteq> [] \<and> 13 \<notin> set l \<and> 0 \<notin> set l" "b \<noteq> 0"
  shows "findStartHtml (map Some (concat (map (\<lambda>l. l @ [13, 10]) ls) @ [13, 10, b]) @ m)
    = Some (length (concat (map (\<lambda>l. l @ [13, 10]) ls)) + 2)"
proof -
  let ?h = "concat (map (\<lambda>l. l @ [13, 10]) ls)"
  have "foldl html_next st ?h = S_CRLF" if "st = S_NOPE \<or> st = S_CRLF" for st
    using assms(1,2) that
  proof (induction ls arbitrary: st)
    case (Cons l ls)
    then show ?case using html_next_line [of l st] by (cases "ls = []") auto
  qed simp
  then have "foldl html_next S_NOPE ?h = S_CRLF" by simp
  moreover have "0 \<notin> set ?h" using assms(2) by auto
  ultimately show ?thesis using html_scan_append [of ?h S_NOPE 0 "map Some [13, 10, b] @ m"] assms(3)
    by (simp add: findStartHtml_def html_next_def)
qed

text \<open>A carriage return before the empty line hides it, and the headers are printed with the page.\<close>

lemma findStartHtml_missed: "findStartHtml (map Some [65, 13, 13, 10, 13, 10, 66, 0]) = Some 0"
  by code_simp

end
