(* ===== verification/Net_RpcChannel.thy ===== *)
theory Net_RpcChannel
  imports Muduo_Prelude "HOL-Library.Multiset"
begin

section \<open>Remote procedure calls\<close>

text \<open>
  \<^verbatim>\<open>muduo/net/protorpc/\<close>: calls of the methods of protobuf services over a connection.  \<^verbatim>\<open>RpcChannel\<close> numbers
  the calls, keeps those that are outstanding in a map, and matches the answers with them; on the other
  side it looks up the service and the method and sends back what the service answers.

  Messages travel through the codec of \<^verbatim>\<open>ProtobufCodecLite\<close>, which delivers them in order and unchanged; here a
  channel appends to the list of messages it has sent.  Services and messages are code that the protobuf compiler generates: a
  service says which methods it has and which requests it can parse, and answers when it likes.
  Closures and response objects are numbers.
\<close>

datatype MessageType = REQUEST | RESPONSE | ERROR

datatype RpcErrorCode = NO_ERROR | WRONG_PROTO | NO_SERVICE | NO_METHOD | INVALID_REQUEST | INVALID_RESPONSE | TIMEOUT

text \<open>Optional fields that the code reads without asking whether they are set have the empty default.\<close>

record RpcMessage =
  rm_type :: MessageType
  rm_id :: "64 word"
  rm_service :: string
  rm_method :: string
  rm_request :: string
  rm_response :: "string option"
  rm_error :: "RpcErrorCode option"

definition RpcMessage_new :: "MessageType \<Rightarrow> 64 word \<Rightarrow> RpcMessage" where
  "RpcMessage_new ty i = \<lparr>rm_type = ty, rm_id = i, rm_service = [], rm_method = [], rm_request = [], rm_response = None, rm_error = None\<rparr>"

record rpc_service =
  FindMethodByName :: "string \<Rightarrow> bool"
  ParseRequest :: "string \<Rightarrow> string \<Rightarrow> bool"

type_synonym rpc_services = "string \<rightharpoonup> rpc_service"

subsection \<open>Atomic counters\<close>

definition getAndAdd :: "64 word \<Rightarrow> 64 word \<Rightarrow> 64 word \<times> 64 word" where
  "getAndAdd x v = (v, v + x)"

definition addAndGet :: "64 word \<Rightarrow> 64 word \<Rightarrow> 64 word \<times> 64 word" where
  "addAndGet x v = (let (r, v) = getAndAdd x v in (r + x, v))"

definition incrementAndGet :: "64 word \<Rightarrow> 64 word \<times> 64 word" where
  "incrementAndGet v = addAndGet 1 v"

subsection \<open>Channels\<close>

record OutstandingCall =
  oc_response :: "nat option"
  oc_done :: "nat option"

text \<open>
  \<open>rc_calling\<close> are the calls that threads are in the middle of, \<open>rc_serving\<close> those that services have not
  answered yet, \<open>rc_sent\<close> the messages given to the codec, and \<open>rc_ran\<close> the closures that have run, with the
  text from which the response had been parsed.
\<close>

record RpcChannel =
  rc_conn :: nat
  rc_id :: "64 word"
  outstandings :: "64 word \<rightharpoonup> OutstandingCall"
  rc_services :: "rpc_services option"
  rc_calling :: "(RpcMessage \<times> OutstandingCall \<times> bool) list"
  rc_serving :: "(64 word \<times> string \<times> string \<times> string) list"
  rc_sent :: "RpcMessage list"
  rc_ran :: "(nat \<times> string option) list"

definition RpcChannel_new :: "nat \<Rightarrow> RpcChannel" where
  "RpcChannel_new conn = \<lparr>rc_conn = conn, rc_id = 0, outstandings = Map.empty, rc_services = None, rc_calling = [], rc_serving = [],
     rc_sent = [], rc_ran = []\<rparr>"

definition setServices :: "rpc_services \<Rightarrow> RpcChannel \<Rightarrow> RpcChannel" where
  "setServices services ch = ch\<lparr>rc_services := Some services\<rparr>"

definition codec_send :: "RpcMessage \<Rightarrow> RpcChannel \<Rightarrow> RpcChannel" where
  "codec_send message ch = ch\<lparr>rc_sent := rc_sent ch @ [message]\<rparr>"

text \<open>
  \<^verbatim>\<open>CallMethod\<close> runs in any thread; what it does to the shared state are three steps: a new number, the entry in
  the map under the mutex, the message to the codec.
\<close>

definition CallMethod_begin :: "string \<Rightarrow> string \<Rightarrow> string \<Rightarrow> OutstandingCall \<Rightarrow> RpcChannel \<Rightarrow> RpcChannel" where
  "CallMethod_begin service method request out ch =
     (let (i, v) = incrementAndGet (rc_id ch);
          message = (RpcMessage_new REQUEST i)\<lparr>rm_service := service, rm_method := method, rm_request := request\<rparr>
      in ch\<lparr>rc_id := v, rc_calling := rc_calling ch @ [(message, out, False)]\<rparr>)"

definition CallMethod_store :: "nat \<Rightarrow> RpcChannel \<Rightarrow> RpcChannel" where
  "CallMethod_store j ch =
     (let (message, out, _) = rc_calling ch ! j
      in ch\<lparr>outstandings := (outstandings ch)(rm_id message \<mapsto> out), rc_calling := (rc_calling ch)[j := (message, out, True)]\<rparr>)"

definition CallMethod_send :: "nat \<Rightarrow> RpcChannel \<Rightarrow> RpcChannel" where
  "CallMethod_send j ch =
     (let (message, _, _) = rc_calling ch ! j
      in codec_send message (ch\<lparr>rc_calling := take j (rc_calling ch) @ drop (Suc j) (rc_calling ch)\<rparr>))"

definition onResponse :: "RpcMessage \<Rightarrow> RpcChannel \<Rightarrow> RpcChannel option" where
  "onResponse message ch = do {
     let i = rm_id message;
     cassert (rm_response message \<noteq> None \<or> rm_error message \<noteq> None);
     let (out, ch) = (case outstandings ch i of
         Some out \<Rightarrow> (out, ch\<lparr>outstandings := (outstandings ch)(i := None)\<rparr>)
       | None \<Rightarrow> (\<lparr>oc_response = None, oc_done = None\<rparr>, ch));
     Some (if oc_response out \<noteq> None
       then (case oc_done out of
           Some closure \<Rightarrow> ch\<lparr>rc_ran := rc_ran ch @ [(closure, rm_response message)]\<rparr>
         | None \<Rightarrow> ch)
       else ch)
   }"

definition onRequest :: "RpcMessage \<Rightarrow> RpcChannel \<Rightarrow> RpcChannel" where
  "onRequest message ch =
     (let (ch, error) = (case rc_services ch of
         Some services \<Rightarrow> (case services (rm_service message) of
             Some service \<Rightarrow>
               if FindMethodByName service (rm_method message)
               then if ParseRequest service (rm_method message) (rm_request message)
                 then (ch\<lparr>rc_serving := rc_serving ch @ [(rm_id message, rm_service message, rm_method message, rm_request message)]\<rparr>,
                       NO_ERROR)
                 else (ch, INVALID_REQUEST)
               else (ch, NO_METHOD)
           | None \<Rightarrow> (ch, NO_SERVICE))
       | None \<Rightarrow> (ch, NO_SERVICE))
      in if error \<noteq> NO_ERROR
         then codec_send ((RpcMessage_new RESPONSE (rm_id message))\<lparr>rm_error := Some error\<rparr>) ch
         else ch)"

definition onRpcMessage :: "nat \<Rightarrow> RpcMessage \<Rightarrow> RpcChannel \<Rightarrow> RpcChannel option" where
  "onRpcMessage conn message ch = do {
     cassert (conn = rc_conn ch);
     (case rm_type message of
        RESPONSE \<Rightarrow> onResponse message ch
      | REQUEST \<Rightarrow> Some (onRequest message ch)
      | ERROR \<Rightarrow> Some ch)
   }"

definition doneCallback :: "string \<Rightarrow> 64 word \<Rightarrow> RpcChannel \<Rightarrow> RpcChannel" where
  "doneCallback response i ch = codec_send ((RpcMessage_new RESPONSE i)\<lparr>rm_response := Some response\<rparr>) ch"

text \<open>The destructor deletes the responses and the closures that are left, without running them.\<close>

definition RpcChannel_dtor :: "RpcChannel \<Rightarrow> RpcChannel" where
  "RpcChannel_dtor ch = ch\<lparr>outstandings := Map.empty\<rparr>"

subsection \<open>The server\<close>

definition registerService :: "string \<Rightarrow> rpc_service \<Rightarrow> rpc_services \<Rightarrow> rpc_services" where
  "registerService full_name service services = services(full_name \<mapsto> service)"

text \<open>A new connection gets a channel as its context; a closed one gives it up.\<close>

definition RpcServer_onConnection :: "rpc_services \<Rightarrow> nat \<Rightarrow> bool \<Rightarrow> RpcChannel option" where
  "RpcServer_onConnection services conn connected =
     (if connected then Some (setServices services (RpcChannel_new conn)) else None)"

section \<open>A client and a server\<close>

text \<open>
  \<open>calls\<close> are the calls made so far (service, method, request); the closure of a call is its position.  \<open>answers\<close> are
  the answers that services gave, with the number and the text of the call.
\<close>

record rpc_system =
  client :: RpcChannel
  server :: RpcChannel
  calls :: "(string \<times> string \<times> string) list"
  answers :: "(64 word \<times> (string \<times> string \<times> string) \<times> string) list"

datatype rpc_event = Call string string string | Store nat | Send nat | ToServer | ToClient | Answer nat string

fun rpc_step :: "rpc_event \<Rightarrow> rpc_system \<Rightarrow> rpc_system option" where
  "rpc_step (Call service method request) s = Some (s\<lparr>
     client := CallMethod_begin service method request \<lparr>oc_response = Some (length (calls s)), oc_done = Some (length (calls s))\<rparr> (client s),
     calls := calls s @ [(service, method, request)]\<rparr>)"
| "rpc_step (Store j) s = Some (s\<lparr>client := CallMethod_store j (client s)\<rparr>)"
| "rpc_step (Send j) s = Some (s\<lparr>client := CallMethod_send j (client s)\<rparr>)"
| "rpc_step ToServer s = do {
     ch \<leftarrow> onRpcMessage (rc_conn (server s)) (hd (rc_sent (client s))) (server s);
     Some (s\<lparr>server := ch, client := (client s)\<lparr>rc_sent := tl (rc_sent (client s))\<rparr>\<rparr>)
   }"
| "rpc_step ToClient s = do {
     ch \<leftarrow> onRpcMessage (rc_conn (client s)) (hd (rc_sent (server s))) (client s);
     Some (s\<lparr>client := ch, server := (server s)\<lparr>rc_sent := tl (rc_sent (server s))\<rparr>\<rparr>)
   }"
| "rpc_step (Answer j response) s =
     (let (i, call) = rc_serving (server s) ! j
      in Some (s\<lparr>server := doneCallback response i ((server s)\<lparr>rc_serving := take j (rc_serving (server s)) @ drop (Suc j) (rc_serving (server s))\<rparr>),
           answers := answers s @ [(i, call, response)]\<rparr>))"

text \<open>A message is delivered when there is one; a thread stores its call before it sends it; numbers do not run out.\<close>

fun rpc_event_ok :: "rpc_event \<Rightarrow> rpc_system \<Rightarrow> bool" where
  "rpc_event_ok (Call service method request) s \<longleftrightarrow> length (calls s) < 2 ^ 64 - 1"
| "rpc_event_ok (Store j) s \<longleftrightarrow> j < length (rc_calling (client s)) \<and> \<not> snd (snd (rc_calling (client s) ! j))"
| "rpc_event_ok (Send j) s \<longleftrightarrow> j < length (rc_calling (client s)) \<and> snd (snd (rc_calling (client s) ! j))"
| "rpc_event_ok ToServer s \<longleftrightarrow> rc_sent (client s) \<noteq> []"
| "rpc_event_ok ToClient s \<longleftrightarrow> rc_sent (server s) \<noteq> []"
| "rpc_event_ok (Answer j response) s \<longleftrightarrow> j < length (rc_serving (server s))"

definition rpc_start :: "nat \<Rightarrow> nat \<Rightarrow> rpc_services \<Rightarrow> rpc_system" where
  "rpc_start c1 c2 services = \<lparr>client = RpcChannel_new c1, server = setServices services (RpcChannel_new c2), calls = [], answers = []\<rparr>"

inductive rpc_reachable :: "rpc_system \<Rightarrow> rpc_system \<Rightarrow> bool" for s0 where
  start: "rpc_reachable s0 s0"
| step: "rpc_reachable s0 s \<Longrightarrow> rpc_event_ok e s \<Longrightarrow> rpc_step e s = Some s' \<Longrightarrow> rpc_reachable s0 s'"

text \<open>The calls that the server refuses.\<close>

definition accepted_call :: "rpc_services \<Rightarrow> string \<times> string \<times> string \<Rightarrow> bool" where
  "accepted_call services = (\<lambda>(service, method, request). case services service of
      Some svc \<Rightarrow> FindMethodByName svc method \<and> ParseRequest svc method request
    | None \<Rightarrow> False)"

section \<open>Where a call is\<close>

definition number :: "nat \<Rightarrow> 64 word" where
  "number k = of_nat (Suc k)"

definition the_call :: "nat \<Rightarrow> OutstandingCall" where
  "the_call k = \<lparr>oc_response = Some k, oc_done = Some k\<rparr>"

definition request_of :: "(string \<times> string \<times> string) list \<Rightarrow> nat \<Rightarrow> RpcMessage" where
  "request_of cs k = (case cs ! k of (service, method, request) \<Rightarrow>
     (RpcMessage_new REQUEST (number k))\<lparr>rm_service := service, rm_method := method, rm_request := request\<rparr>)"

definition response_of :: "RpcMessage \<Rightarrow> nat \<times> string option \<Rightarrow> bool" where
  "response_of m kv \<longleftrightarrow> rm_type m = RESPONSE \<and> rm_id m = number (fst kv) \<and> rm_response m = snd kv
     \<and> (snd kv = None \<longrightarrow> rm_error m \<noteq> None)"

text \<open>\<open>right\<close>: the result that closure \<open>k\<close> gets is the answer to call \<open>k\<close>, or the call was refused.\<close>

definition right :: "rpc_services \<Rightarrow> rpc_system \<Rightarrow> nat \<times> string option \<Rightarrow> bool" where
  "right services s = (\<lambda>(k, v). case v of
      Some r \<Rightarrow> (number k, calls s ! k, r) \<in> set (answers s)
    | None \<Rightarrow> \<not> accepted_call services (calls s ! k))"

text \<open>
  A call is in exactly one place: with the thread that makes it, on the way to the server, with the
  service, on the way back, or done; \<open>C\<close>, \<open>Q\<close>, \<open>S\<close> and \<open>R\<close> list the calls in the first four.
\<close>

definition waiting :: "(nat \<times> bool) list \<Rightarrow> nat list \<Rightarrow> nat list \<Rightarrow> (nat \<times> string option) list \<Rightarrow> nat set" where
  "waiting C Q S R = {k. (k, True) \<in> set C} \<union> set Q \<union> set S \<union> fst ` set R"

definition places :: "rpc_system \<Rightarrow> (nat \<times> bool) list \<Rightarrow> nat list \<Rightarrow> nat list \<Rightarrow> (nat \<times> string option) list \<Rightarrow> bool" where
  "places s C Q S R \<longleftrightarrow>
     rc_calling (client s) = map (\<lambda>(k, b). (request_of (calls s) k, the_call k, b)) C
     \<and> rc_sent (client s) = map (request_of (calls s)) Q
     \<and> rc_serving (server s) = map (\<lambda>k. (number k, calls s ! k)) S
     \<and> list_all2 response_of (rc_sent (server s)) R
     \<and> mset (map fst C @ Q @ S @ map fst R @ map fst (rc_ran (client s))) = mset [0..<length (calls s)]"

definition rpc_inv :: "rpc_services \<Rightarrow> rpc_system \<Rightarrow> (nat \<times> bool) list \<Rightarrow> nat list \<Rightarrow> nat list \<Rightarrow> (nat \<times> string option) list \<Rightarrow> bool" where
  "rpc_inv services s C Q S R \<longleftrightarrow> places s C Q S R \<and> rc_id (client s) = of_nat (length (calls s)) \<and> length (calls s) < 2 ^ 64
     \<and> (\<forall>k < 2 ^ 64 - 1. outstandings (client s) (number k) = (if k \<in> waiting C Q S R then Some (the_call k) else None))
     \<and> rc_services (server s) = Some services \<and> (\<forall>kv \<in> set R \<union> set (rc_ran (client s)). right services s kv)"

lemma number_inj: "j < 2 ^ 64 - 1 \<Longrightarrow> k < 2 ^ 64 - 1 \<Longrightarrow> number j = number k \<longleftrightarrow> j = k"
  by (auto simp: number_def word_unat_eq_iff unat_of_nat simp del: of_nat_Suc)

lemma mset_upt_distinct: "mset xs = mset [0..<n] \<Longrightarrow> distinct xs \<and> set xs = {..<n}"
  by (metis atLeast0LessThan distinct_upt mset_eq_imp_distinct_iff set_mset_mset set_upt)

lemma places_facts:
  assumes "places s C Q S R"
  shows "distinct (map fst C @ Q @ S @ map fst R @ map fst (rc_ran (client s)))"
    "set (map fst C @ Q @ S @ map fst R @ map fst (rc_ran (client s))) = {..<length (calls s)}"
  using mset_upt_distinct assms unfolding places_def by blast+

lemma set_remove_nth: "j < length xs \<Longrightarrow> set xs = insert (xs ! j) (set (take j xs @ drop (Suc j) xs))"
  by (metis id_take_nth_drop insert_commute list.simps(15) set_append Un_insert_right)

lemma mset_remove_nth: "j < length xs \<Longrightarrow> mset xs = add_mset (xs ! j) (mset (take j xs @ drop (Suc j) xs))"
  by (metis id_take_nth_drop mset.simps(2) mset_append union_mset_add_mset_right)

lemma map_remove_nth: "map f (take j xs @ drop (Suc j) xs) = take j (map f xs) @ drop (Suc j) (map f xs)"
  by (simp add: take_map drop_map)

lemma right_mono:
  assumes "right services s kv" "calls s' ! fst kv = calls s ! fst kv" "set (answers s) \<subseteq> set (answers s')"
  shows "right services s' kv"
  using assms by (cases kv; cases "snd kv") (auto simp: right_def)

subsection \<open>The steps\<close>

lemma Call_inv:
  assumes inv: "rpc_inv services s C Q S R" and ok: "length (calls s) < 2 ^ 64 - 1"
  shows "\<exists>s'. rpc_step (Call service method request) s = Some s' \<and> rpc_inv services s' (C @ [(length (calls s), False)]) Q S R"
proof -
  let ?n = "length (calls s)" and ?x = "(service, method, request)"
  define cs where "cs = calls s @ [?x]"
  note pl = inv [unfolded rpc_inv_def, THEN conjunct1]
  have lt: "k < ?n" if "k \<in> fst ` set C \<or> k \<in> set Q \<or> k \<in> set S \<or> k \<in> fst ` set R \<or> k \<in> fst ` set (rc_ran (client s))" for k
    using places_facts(2) [OF pl] that by (metis Un_iff lessThan_iff list.set_map set_append)
  have old: "cs ! k = calls s ! k" if "k < ?n" for k using that by (simp add: cs_def nth_append)
  have req: "request_of cs k = request_of (calls s) k" if "k < ?n" for k using old [OF that] by (simp add: request_of_def)
  define s' where "s' = s\<lparr>client := (client s)\<lparr>rc_id := number ?n,
      rc_calling := rc_calling (client s) @ [(request_of cs ?n, the_call ?n, False)]\<rparr>, calls := cs\<rparr>"
  have "rc_id (client s) = of_nat ?n" using inv by (simp add: rpc_inv_def)
  then have inc: "incrementAndGet (rc_id (client s)) = (number ?n, number ?n)"
    by (simp add: incrementAndGet_def addAndGet_def getAndAdd_def number_def add.commute)
  have req_n: "request_of cs ?n = (RpcMessage_new REQUEST (number ?n))\<lparr>rm_service := service, rm_method := method, rm_request := request\<rparr>"
    by (simp add: request_of_def cs_def)
  have cb: "CallMethod_begin service method request (the_call ?n) (client s) = (client s)\<lparr>rc_id := number ?n,
      rc_calling := rc_calling (client s) @ [(request_of cs ?n, the_call ?n, False)]\<rparr>"
    unfolding CallMethod_begin_def inc req_n by simp
  have run: "rpc_step (Call service method request) s = Some s'"
    unfolding rpc_step.simps the_call_def [symmetric] cb s'_def cs_def by (rule refl)
  have C: "map (\<lambda>(k, b). (request_of cs k, the_call k, b)) C = map (\<lambda>(k, b). (request_of (calls s) k, the_call k, b)) C"
    by (rule map_cong [OF refl]) (use req lt in \<open>force simp: case_prod_beta\<close>)
  have Q: "map (request_of cs) Q = map (request_of (calls s)) Q" by (rule map_cong [OF refl]) (simp add: req lt)
  have S: "map (\<lambda>k. (number k, cs ! k)) S = map (\<lambda>k. (number k, calls s ! k)) S" by (rule map_cong [OF refl]) (simp add: old lt)
  have "places s' (C @ [(?n, False)]) Q S R" using pl C Q S by (simp add: places_def s'_def cs_def)
  moreover have "waiting (C @ [(?n, False)]) Q S R = waiting C Q S R" by (auto simp: waiting_def)
  moreover have "right services s' kv" if "kv \<in> set R \<union> set (rc_ran (client s))" for kv
  proof (rule right_mono)
    show "right services s kv" using inv that unfolding rpc_inv_def by blast
    have "fst kv < ?n" by (rule lt) (use that in auto)
    then show "calls s' ! fst kv = calls s ! fst kv" by (simp add: s'_def old)
  qed (simp add: s'_def)
  ultimately have "rpc_inv services s' (C @ [(?n, False)]) Q S R"
    using inv ok by (simp add: rpc_inv_def s'_def cs_def number_def)
  then show ?thesis using run by blast
qed

lemma Store_inv:
  assumes inv: "rpc_inv services s C Q S R" and ok: "rpc_event_ok (Store j) s"
  shows "\<exists>s'. rpc_step (Store j) s = Some s' \<and> rpc_inv services s' (C[j := (fst (C ! j), True)]) Q S R"
proof -
  note pl = inv [unfolded rpc_inv_def, THEN conjunct1]
  have cal: "rc_calling (client s) = map (\<lambda>(k, b). (request_of (calls s) k, the_call k, b)) C" using pl by (simp add: places_def)
  obtain k where k: "j < length C" "C ! j = (k, False)" using ok cal by (cases "C ! j") auto
  have kn: "k < length (calls s)" using places_facts(2) [OF pl] k by (metis in_set_conv_nth fst_conv image_eqI lessThan_iff list.set_map set_append UnCI)
  have id: "rm_id (request_of (calls s) k) = number k" by (simp add: request_of_def RpcMessage_new_def split: prod.split)
  let ?C = "C[j := (k, True)]"
  define s' where "s' = s\<lparr>client := (client s)\<lparr>outstandings := (outstandings (client s))(number k \<mapsto> the_call k),
      rc_calling := map (\<lambda>(k, b). (request_of (calls s) k, the_call k, b)) ?C\<rparr>\<rparr>"
  have run: "rpc_step (Store j) s = Some s'" using k cal id by (simp add: CallMethod_store_def s'_def map_update)
  have fst: "map fst ?C = map fst C" using k by (metis fst_conv list_update_id map_update)
  have "places s' ?C Q S R" using pl fst by (simp add: places_def s'_def)
  moreover have "waiting ?C Q S R = insert k (waiting C Q S R)"
  proof -
    have "(i, True) \<in> set ?C \<longleftrightarrow> i = k \<or> (i, True) \<in> set C" for i
      using k by (auto simp: in_set_conv_nth nth_list_update split: if_splits) (metis Pair_inject)+
    then show ?thesis by (auto simp: waiting_def)
  qed
  ultimately have "rpc_inv services s' ?C Q S R"
    using inv kn by (simp add: rpc_inv_def s'_def number_inj right_def)
  then show ?thesis using run k by simp
qed

text \<open>A call moves to another place.\<close>

lemma rpc_inv_move:
  assumes inv: "rpc_inv services s C Q S R" and pl: "places s' C' Q' S' R'" and "waiting C' Q' S' R' = waiting C Q S R"
    and "calls s' = calls s" "rc_id (client s') = rc_id (client s)" "outstandings (client s') = outstandings (client s)"
    "rc_services (server s') = rc_services (server s)" "rc_ran (client s') = rc_ran (client s)"
    and new: "set (answers s) \<subseteq> set (answers s')" "\<forall>kv \<in> set R'. kv \<in> set R \<or> right services s' kv"
  shows "rpc_inv services s' C' Q' S' R'"
proof -
  have "right services s' kv" if "right services s kv" for kv by (rule right_mono [OF that]) (use assms(4) new(1) in simp_all)
  then have "\<forall>kv \<in> set R' \<union> set (rc_ran (client s')). right services s' kv"
    using inv new(2) assms(8) unfolding rpc_inv_def by (metis Un_iff)
  then show ?thesis using inv pl assms(3-7) unfolding rpc_inv_def by simp
qed

lemma Send_inv:
  assumes inv: "rpc_inv services s C Q S R" and ok: "rpc_event_ok (Send j) s"
  shows "\<exists>s' C' k. rpc_step (Send j) s = Some s' \<and> rpc_inv services s' C' (Q @ [k]) S R"
proof -
  note pl = inv [unfolded rpc_inv_def, THEN conjunct1]
  have cal: "rc_calling (client s) = map (\<lambda>(k, b). (request_of (calls s) k, the_call k, b)) C" using pl by (simp add: places_def)
  obtain k where k: "j < length C" "C ! j = (k, True)" using ok cal by (cases "C ! j") auto
  let ?C = "take j C @ drop (Suc j) C"
  define s' where "s' = s\<lparr>client := codec_send (request_of (calls s) k)
      ((client s)\<lparr>rc_calling := take j (rc_calling (client s)) @ drop (Suc j) (rc_calling (client s))\<rparr>)\<rparr>"
  have run: "rpc_step (Send j) s = Some s'" using k cal by (simp add: CallMethod_send_def s'_def)
  have "mset (map fst C) = add_mset k (mset (map fst ?C))"
    using arg_cong [OF mset_remove_nth [OF k(1)], of "image_mset fst"] k(2) by simp
  then have "places s' ?C (Q @ [k]) S R" using pl cal by (simp add: places_def s'_def codec_send_def take_map drop_map ac_simps)
  moreover have "waiting ?C (Q @ [k]) S R = waiting C Q S R"
    using set_remove_nth [OF k(1)] k(2) by (auto simp: waiting_def)
  ultimately have "rpc_inv services s' ?C (Q @ [k]) S R"
    by (intro rpc_inv_move [OF inv]) (simp_all add: s'_def codec_send_def)
  then show ?thesis using run by blast
qed

lemma Answer_inv:
  assumes inv: "rpc_inv services s C Q S R" and ok: "rpc_event_ok (Answer j r) s"
  shows "\<exists>s' S' k. rpc_step (Answer j r) s = Some s' \<and> rpc_inv services s' C Q S' (R @ [(k, Some r)])"
proof -
  note pl = inv [unfolded rpc_inv_def, THEN conjunct1]
  have ser: "rc_serving (server s) = map (\<lambda>k. (number k, calls s ! k)) S" using pl by (simp add: places_def)
  have j: "j < length S" using ok ser by simp
  define k where "k = S ! j"
  let ?S = "take j S @ drop (Suc j) S"
  define s' where "s' = s\<lparr>server := doneCallback r (number k)
      ((server s)\<lparr>rc_serving := take j (rc_serving (server s)) @ drop (Suc j) (rc_serving (server s))\<rparr>),
      answers := answers s @ [(number k, calls s ! k, r)]\<rparr>"
  have run: "rpc_step (Answer j r) s = Some s'" using j ser by (simp add: s'_def k_def)
  have "places s' C Q ?S (R @ [(k, Some r)])"
    using pl ser mset_remove_nth [OF j]
    by (simp add: places_def s'_def doneCallback_def codec_send_def take_map drop_map k_def list_all2_appendI response_of_def RpcMessage_new_def ac_simps)
  moreover have "waiting C Q ?S (R @ [(k, Some r)]) = waiting C Q S R"
    using set_remove_nth [OF j] by (auto simp: waiting_def k_def)
  ultimately have "rpc_inv services s' C Q ?S (R @ [(k, Some r)])"
    by (intro rpc_inv_move [OF inv]) (auto simp: s'_def doneCallback_def codec_send_def right_def)
  then show ?thesis using run by blast
qed

lemma onRequest_cases:
  assumes "rc_services ch = Some services"
  shows "accepted_call services (cs ! k) \<Longrightarrow> onRequest (request_of cs k) ch = ch\<lparr>rc_serving := rc_serving ch @ [(number k, cs ! k)]\<rparr>"
    "\<not> accepted_call services (cs ! k) \<Longrightarrow> \<exists>m. onRequest (request_of cs k) ch = codec_send m ch \<and> response_of m (k, None)"
  using assms
  by (auto simp: onRequest_def request_of_def accepted_call_def RpcMessage_new_def response_of_def split: prod.splits option.splits)

lemma ToServer_inv:
  assumes inv: "rpc_inv services s C Q S R" and ok: "rpc_event_ok ToServer s"
  shows "\<exists>s' Q' S' R'. rpc_step ToServer s = Some s' \<and> rpc_inv services s' C Q' S' R'"
proof -
  note pl = inv [unfolded rpc_inv_def, THEN conjunct1]
  obtain k Q' where Q: "Q = k # Q'" using ok pl by (cases Q) (auto simp: places_def)
  have sent: "hd (rc_sent (client s)) = request_of (calls s) k" "tl (rc_sent (client s)) = map (request_of (calls s)) Q'"
    using pl by (simp_all add: places_def Q)
  have ser: "rc_services (server s) = Some services" using inv by (simp add: rpc_inv_def)
  have ty: "rm_type (request_of (calls s) k) = REQUEST" by (simp add: request_of_def RpcMessage_new_def split: prod.split)
  define s' where "s' = s\<lparr>server := onRequest (request_of (calls s) k) (server s), client := (client s)\<lparr>rc_sent := map (request_of (calls s)) Q'\<rparr>\<rparr>"
  have run: "rpc_step ToServer s = Some s'" using ty by (simp add: onRpcMessage_def sent s'_def)
  show ?thesis
  proof (cases "accepted_call services (calls s ! k)")
    case True
    note eq = onRequest_cases(1) [OF ser True]
    have "places s' C Q' (S @ [k]) R" using pl by (simp add: places_def s'_def Q eq ac_simps)
    moreover have "waiting C Q' (S @ [k]) R = waiting C Q S R" by (auto simp: waiting_def Q)
    ultimately have "rpc_inv services s' C Q' (S @ [k]) R" by (intro rpc_inv_move [OF inv]) (simp_all add: s'_def eq)
    then show ?thesis using run by blast
  next
    case False
    obtain m where m: "onRequest (request_of (calls s) k) (server s) = codec_send m (server s)" "response_of m (k, None)"
      using onRequest_cases(2) [OF ser False] by blast
    have "places s' C Q' S (R @ [(k, None)])" using pl m(2) by (simp add: places_def s'_def Q m(1) codec_send_def list_all2_appendI ac_simps)
    moreover have "waiting C Q' S (R @ [(k, None)]) = waiting C Q S R" by (auto simp: waiting_def Q)
    ultimately have "rpc_inv services s' C Q' S (R @ [(k, None)])"
      by (intro rpc_inv_move [OF inv]) (use False in \<open>simp_all add: s'_def m(1) codec_send_def right_def\<close>)
    then show ?thesis using run by blast
  qed
qed

lemma ToClient_inv:
  assumes inv: "rpc_inv services s C Q S R" and ok: "rpc_event_ok ToClient s"
  shows "\<exists>s' R'. rpc_step ToClient s = Some s' \<and> rpc_inv services s' C Q S R'"
proof -
  note pl = inv [unfolded rpc_inv_def, THEN conjunct1]
  obtain m ms where m: "rc_sent (server s) = m # ms" using ok by (cases "rc_sent (server s)") auto
  then obtain k v R' where R: "R = (k, v) # R'" "response_of m (k, v)" "list_all2 response_of ms R'"
    using pl by (auto simp: places_def list_all2_Cons1)
  have kn: "k < length (calls s)" "k \<notin> waiting C Q S R'"
    using places_facts [OF pl] by (auto simp: waiting_def R(1) dest: image_eqI [of _ fst "(k, True)", OF fst_conv [symmetric]])
  have lt: "length (calls s) < 2 ^ 64" using inv by (simp add: rpc_inv_def)
  have out: "outstandings (client s) (number k) = Some (the_call k)" using inv kn(1) lt by (simp add: rpc_inv_def waiting_def R(1))
  have msg: "rm_type m = RESPONSE" "rm_id m = number k" "rm_response m = v" "v = None \<longrightarrow> rm_error m \<noteq> None"
    using R(2) by (simp_all add: response_of_def)
  define s' where "s' = s\<lparr>client := (client s)\<lparr>outstandings := (outstandings (client s))(number k := None),
      rc_ran := rc_ran (client s) @ [(k, v)]\<rparr>, server := (server s)\<lparr>rc_sent := ms\<rparr>\<rparr>"
  have run: "rpc_step ToClient s = Some s'" using msg out by (cases v) (auto simp: onRpcMessage_def onResponse_def m s'_def the_call_def Let_def)
  have "places s' C Q S R'" using pl R(3) by (simp add: places_def s'_def R(1) ac_simps)
  moreover have "outstandings (client s') (number i) = (if i \<in> waiting C Q S R' then Some (the_call i) else None)" if "i < 2 ^ 64 - 1" for i
  proof -
    have "k < 2 ^ 64 - 1" using kn(1) lt by simp
    moreover have "waiting C Q S R = insert k (waiting C Q S R')" by (auto simp: waiting_def R(1))
    ultimately show ?thesis using inv that kn(2) number_inj [of i k] by (auto simp: rpc_inv_def s'_def)
  qed
  moreover have "right services s' kv" if "kv \<in> set R' \<union> set (rc_ran (client s'))" for kv
    by (rule right_mono [of services s]) (use inv that in \<open>auto simp: rpc_inv_def R(1) s'_def\<close>)
  ultimately have "rpc_inv services s' C Q S R'" using inv unfolding rpc_inv_def by (simp add: s'_def)
  then show ?thesis using run by blast
qed

lemma rpc_step_inv:
  assumes "rpc_inv services s C Q S R" "rpc_event_ok e s"
  shows "\<exists>s' C' Q' S' R'. rpc_step e s = Some s' \<and> rpc_inv services s' C' Q' S' R'"
proof (cases e)
  case (Call service meth request)
  then show ?thesis using Call_inv [OF assms(1)] assms(2) by (metis rpc_event_ok.simps(1))
qed (use Store_inv [OF assms(1)] Send_inv [OF assms(1)] ToServer_inv [OF assms(1)] ToClient_inv [OF assms(1)] Answer_inv [OF assms(1)]
      assms(2) in metis)+

lemma rpc_start_inv: "rpc_inv services (rpc_start c1 c2 services) [] [] [] []"
  by (simp add: rpc_inv_def places_def rpc_start_def RpcChannel_new_def setServices_def waiting_def)

lemma rpc_reachable_inv:
  assumes "rpc_reachable (rpc_start c1 c2 services) s"
  shows "\<exists>C Q S R. rpc_inv services s C Q S R"
  using assms
proof induction
  case start
  then show ?case using rpc_start_inv by blast
next
  case (step s e s')
  then show ?case using rpc_step_inv by (metis option.inject)
qed

definition rpc_run :: "rpc_event list \<Rightarrow> rpc_system \<Rightarrow> rpc_system option" where
  "rpc_run = run_ops (\<lambda>e s. if rpc_event_ok e s then rpc_step e s else None)"

lemma rpc_run_reachable: "rpc_reachable s0 s \<Longrightarrow> rpc_run es s = Some s' \<Longrightarrow> rpc_reachable s0 s'"
proof (induction es arbitrary: s)
  case (Cons e es)
  then obtain s1 where "rpc_event_ok e s" "rpc_step e s = Some s1" "rpc_run es s1 = Some s'"
    by (auto simp: rpc_run_def split: if_splits)
  then show ?case using Cons.IH [OF rpc_reachable.step [OF Cons.prems(1)]] by blast
qed (simp add: rpc_run_def)

section \<open>Properties\<close>

text \<open>
  C40. Every call gets its own answer.  Whatever the threads that call, the connection in both directions
  and the services do, in any order: no assertion fails; a closure runs at most once, and then the
  response holds what the service answered to this very call, or the server had refused the call; and
  when nothing is under way, the closure of every call has run and no call is outstanding.
\<close>

theorem RpcChannel_matches:
  assumes "rpc_reachable (rpc_start c1 c2 services) s" "rpc_event_ok e s"
  shows "(\<exists>s'. rpc_step e s = Some s') \<and> distinct (map fst (rc_ran (client s)))
    \<and> (\<forall>(k, v) \<in> set (rc_ran (client s)). k < length (calls s) \<and> right services s (k, v))
    \<and> (rc_calling (client s) = [] \<and> rc_sent (client s) = [] \<and> rc_serving (server s) = [] \<and> rc_sent (server s) = []
       \<longrightarrow> length (rc_ran (client s)) = length (calls s) \<and> (\<forall>k < length (calls s). outstandings (client s) (number k) = None))"
proof -
  obtain C Q S R where inv: "rpc_inv services s C Q S R" using rpc_reachable_inv [OF assms(1)] by blast
  note pl = inv [unfolded rpc_inv_def, THEN conjunct1]
  have "\<exists>s'. rpc_step e s = Some s'" using rpc_step_inv [OF inv assms(2)] by blast
  moreover have "distinct (map fst (rc_ran (client s)))" using places_facts(1) [OF pl] by simp
  moreover have "\<forall>(k, v) \<in> set (rc_ran (client s)). k < length (calls s) \<and> right services s (k, v)"
  proof -
    have "fst kv < length (calls s)" if "kv \<in> set (rc_ran (client s))" for kv
      using places_facts(2) [OF pl] that by (metis Un_iff image_eqI lessThan_iff list.set_map set_append)
    then show ?thesis using inv unfolding rpc_inv_def by fastforce
  qed
  moreover have "length (rc_ran (client s)) = length (calls s) \<and> (\<forall>k < length (calls s). outstandings (client s) (number k) = None)"
    if "rc_calling (client s) = [] \<and> rc_sent (client s) = [] \<and> rc_serving (server s) = [] \<and> rc_sent (server s) = []"
  proof -
    have none: "C = []" "Q = []" "S = []" "R = []" using that pl by (simp_all add: places_def)
    have "mset (map fst (rc_ran (client s))) = mset [0..<length (calls s)]" using pl by (simp add: places_def none)
    from mset_eq_length [OF this] show ?thesis using inv by (simp add: rpc_inv_def none waiting_def)
  qed
  ultimately show ?thesis by blast
qed

text \<open>The witness: two calls from two threads, answered in the opposite order, and one to a method that does not exist.\<close>

definition echo_services :: rpc_services where
  "echo_services = registerService ''Echo'' \<lparr>FindMethodByName = (\<lambda>m. m = ''say''), ParseRequest = (\<lambda>m r. True)\<rparr> Map.empty"

definition example_events :: "rpc_event list" where
  "example_events = [Call ''Echo'' ''say'' ''a'', Call ''Echo'' ''say'' ''b'', Call ''Echo'' ''sing'' ''c'', Store 1, Store 2, Send 1, Store 0, Send 1,
     Send 0, ToServer, ToServer, ToServer, Answer 1 ''A'', Answer 0 ''B'', ToClient, ToClient]"

theorem RpcChannel_matches_witness:
  "\<exists>s. rpc_reachable (rpc_start 1 2 echo_services) s \<and> rc_ran (client s) = [(2, None), (0, Some ''A'')]
    \<and> (\<exists>s'. rpc_step ToClient s = Some s') \<and> distinct (map fst (rc_ran (client s)))
    \<and> right echo_services s (0, Some ''A'') \<and> right echo_services s (2, None)"
proof -
  have ran: "map_option (\<lambda>s. (rc_ran (client s), rpc_event_ok ToClient s)) (rpc_run example_events (rpc_start 1 2 echo_services))
      = Some ([(2, None), (0, Some ''A'')], True)"
    by (simp add: rpc_run_def example_events_def rpc_start_def RpcChannel_new_def setServices_def echo_services_def registerService_def
        CallMethod_begin_def CallMethod_store_def CallMethod_send_def incrementAndGet_def addAndGet_def getAndAdd_def codec_send_def
        onRpcMessage_def onRequest_def onResponse_def doneCallback_def RpcMessage_new_def Let_def)
  then obtain s where s: "rpc_run example_events (rpc_start 1 2 echo_services) = Some s"
    "rc_ran (client s) = [(2, None), (0, Some ''A'')]" "rpc_event_ok ToClient s" by auto
  note r = rpc_run_reachable [OF rpc_reachable.start s(1)]
  show ?thesis using RpcChannel_matches [OF r s(3)] r s(2) by auto
qed

end
