(* ===== verification/Base_FileUtil.thy ===== *)
theory Base_FileUtil
  imports Muduo_Prelude
begin

section \<open>Reading small files\<close>

text \<open>
  The class \<^verbatim>\<open>ReadSmallFile\<close> of \<^verbatim>\<open>muduo/base/FileUtil.h\<close> and \<^verbatim>\<open>FileUtil.cc\<close>: a whole file, up to a limit, into a string
  or into a buffer of the object.  Results of system calls are arguments: \<open>opened\<close> is what \<^verbatim>\<open>open\<close> returns, with
  the error number, \<open>rd\<close> says of each \<^verbatim>\<open>read\<close> the error or the most bytes that it delivers, and an \<open>fstat\<close> is
  the error or the structure.
\<close>

definition kBufferSize :: nat where "kBufferSize = 64 * 1024"

definition EISDIR :: int where "EISDIR = 21"

record ReadSmallFile =
  rs_fd :: int
  rs_err :: int
  rs_buf :: "char list"

definition ReadSmallFile_new :: "int \<Rightarrow> int \<Rightarrow> ReadSmallFile" where
  "ReadSmallFile_new opened errno = \<lparr>rs_fd = opened, rs_err = (if opened < 0 then errno else 0), rs_buf = [CHR 0x00]\<rparr>"

record stat_result =
  st_isreg :: bool
  st_isdir :: bool
  st_size :: int
  st_mtime :: int
  st_ctime :: int

record file_info =
  fileSize :: int
  modifyTime :: int
  createTime :: int

type_synonym read_results = "nat \<Rightarrow> int + nat"

definition file_read :: "read_results \<Rightarrow> nat \<Rightarrow> nat \<Rightarrow> char list \<Rightarrow> int + char list" where
  "file_read rd i n rest = (case rd i of Inl e \<Rightarrow> Inl e | Inr k \<Rightarrow> Inr (take (min n (max 1 k)) rest))"

text \<open>The loop: \<open>rest\<close> is what has not been read of the file, \<open>i\<close> counts the calls.\<close>

function read_all :: "read_results \<Rightarrow> nat \<Rightarrow> nat \<Rightarrow> char list \<Rightarrow> int \<Rightarrow> char list \<Rightarrow> int \<times> char list" where
  "read_all rd i maxSize rest err content =
     (if length content < maxSize
      then (case file_read rd i (min (maxSize - length content) kBufferSize) rest of
          Inr bs \<Rightarrow> if bs \<noteq> [] then read_all rd (i + 1) maxSize (drop (length bs) rest) err (content @ bs) else (err, content)
        | Inl e \<Rightarrow> (e, content))
      else (err, content))"
  by auto
termination
  by (relation "measure (\<lambda>(rd, i, maxSize, rest, err, content). maxSize - length content)") (auto simp: length_greater_0_conv [symmetric] simp del: length_greater_0_conv)

declare read_all.simps [simp del]

definition size_of_int :: "int \<Rightarrow> nat" where
  "size_of_int n = nat (n mod 2 ^ 64)"

text \<open>\<open>want\<close> tells which of the pointers for the size and the times are not null.\<close>

definition readToString :: "read_results \<Rightarrow> int + stat_result \<Rightarrow> bool \<times> bool \<times> bool \<Rightarrow> int \<Rightarrow> char list \<Rightarrow> char list \<Rightarrow> file_info \<Rightarrow> ReadSmallFile
    \<Rightarrow> int \<times> char list \<times> file_info" where
  "readToString rd st want maxSize rest content info f =
     (let err = rs_err f; (wantSize, wantModify, wantCreate) = want
      in if rs_fd f \<ge> 0
         then (let (err, info) =
                  (if wantSize
                   then (case st of
                       Inr statbuf \<Rightarrow>
                         let (err, info) =
                            (if st_isreg statbuf then (err, info\<lparr>fileSize := st_size statbuf\<rparr>)
                             else if st_isdir statbuf then (EISDIR, info)
                             else (err, info));
                             info = (if wantModify then info\<lparr>modifyTime := st_mtime statbuf\<rparr> else info);
                             info = (if wantCreate then info\<lparr>createTime := st_ctime statbuf\<rparr> else info)
                         in (err, info)
                     | Inl e \<Rightarrow> (e, info))
                   else (err, info));
                (err, content) = read_all rd 0 (size_of_int maxSize) rest err []
              in (err, content, info))
         else (err, content, info))"

text \<open>\<open>n\<close> is the result of \<^verbatim>\<open>pread\<close>: an error or the number of bytes.\<close>

definition readToBuffer :: "int + nat \<Rightarrow> char list \<Rightarrow> ReadSmallFile \<Rightarrow> int \<times> int option \<times> ReadSmallFile" where
  "readToBuffer n rest f =
     (if rs_fd f \<ge> 0
      then (case n of
          Inr k \<Rightarrow> let bs = take (min k (kBufferSize - 1)) rest in (rs_err f, Some (int (length bs)), f\<lparr>rs_buf := bs @ [CHR 0x00]\<rparr>)
        | Inl e \<Rightarrow> (e, None, f))
      else (rs_err f, None, f))"

section \<open>What is read\<close>

lemma read_all_content:
  assumes "\<forall>i. \<exists>k. rd i = Inr k"
  shows "read_all rd i maxSize rest err content = (err, content @ take (maxSize - length content) rest)"
  using assms
proof (induction rd i maxSize rest err content rule: read_all.induct)
  case (1 rd i maxSize rest err content)
  let ?n = "min (maxSize - length content) kBufferSize"
  show ?case
  proof (cases "length content < maxSize")
    case True
    obtain k where k: "rd i = Inr k" using "1.prems" by blast
    define bs where "bs = take (min ?n (max 1 k)) rest"
    have r: "file_read rd i ?n rest = Inr bs" by (simp add: file_read_def k bs_def)
    show ?thesis
    proof (cases "bs = []")
      case False
      have "length bs \<le> maxSize - length content" by (simp add: bs_def)
      moreover have "rest = bs @ drop (length bs) rest" by (simp add: bs_def min_def)
      ultimately have "bs @ take (maxSize - length content - length bs) (drop (length bs) rest) = take (maxSize - length content) rest"
        by (metis append_take_drop_id take_add le_add_diff_inverse append_eq_conv_conj)
      then show ?thesis using "1.IH" [OF True r False "1.prems"] True r False by (subst read_all.simps) (simp add: diff_diff_left)
    qed (use True r in \<open>subst read_all.simps, auto simp: bs_def kBufferSize_def\<close>)
  qed (subst read_all.simps, simp)
qed

text \<open>A file that can be opened and read is read up to the limit; one that cannot leaves the content as it was.\<close>

lemma readToString_file:
  assumes "\<forall>i. \<exists>k. rd i = Inr k" "0 \<le> fd" "0 \<le> maxSize" "maxSize < 2 ^ 63"
  shows "readToString rd st (False, m, c) maxSize rest content info (ReadSmallFile_new fd e) = (0, take (nat maxSize) rest, info)"
  using assms by (simp add: readToString_def ReadSmallFile_new_def read_all_content size_of_int_def)

lemma readToString_missing:
  "fd < 0 \<Longrightarrow> readToString rd st want maxSize rest content info (ReadSmallFile_new fd e) = (e, content, info)"
  by (cases want) (simp add: readToString_def ReadSmallFile_new_def)

text \<open>The buffer always holds a string of at most one byte less than its size, and its terminator.\<close>

lemma readToBuffer_terminated:
  assumes "readToBuffer n rest (ReadSmallFile_new fd e) = (err, sz, f)"
  shows "\<exists>s. rs_buf f = s @ [CHR 0x00] \<and> length (rs_buf f) \<le> kBufferSize \<and> (sz = None \<or> sz = Some (int (length s)) \<and> prefix s rest)"
  using assms by (auto simp: readToBuffer_def ReadSmallFile_new_def kBufferSize_def Let_def take_is_prefix split: if_splits sum.splits)

end
