(* ===== verification/Net_EventLoopThread.thy ===== *)
theory Net_EventLoopThread
  imports Net_EventLoop
begin

section \<open>A thread with an event loop\<close>

text \<open>
  \<^verbatim>\<open>muduo/net/EventLoopThread.h\<close> and \<^verbatim>\<open>EventLoopThread.cc\<close>, with the start and the join of \<^verbatim>\<open>muduo/base/Thread.cc\<close>: the owner
  starts a thread, waits until its loop exists, and ends it in the destructor.

  The owner and the thread are two processes whose steps are the stretches between the points at which
  they touch shared state; the loop itself is reduced to its start, its test of \<^verbatim>\<open>quit_\<close> and an iteration,
  which may end at any time.  Waiting for the condition is a step that is possible when the condition holds.
\<close>

record Thread =
  th_started :: bool
  th_joined :: bool

definition Thread_new :: Thread where
  "Thread_new = \<lparr>th_started = False, th_joined = False\<rparr>"

text \<open>\<open>created\<close> tells whether \<^verbatim>\<open>pthread_create\<close> succeeds; the failure is fatal.\<close>

definition Thread_start :: "bool \<Rightarrow> Thread \<Rightarrow> Thread option" where
  "Thread_start created t = do {
     cassert (\<not> th_started t);
     cassert created;
     Some (t\<lparr>th_started := True\<rparr>)
   }"

definition Thread_join :: "Thread \<Rightarrow> Thread option" where
  "Thread_join t = do {
     cassert (th_started t);
     cassert (\<not> th_joined t);
     Some (t\<lparr>th_joined := True\<rparr>)
   }"

record EventLoopThread =
  elt_loop :: bool
  exiting :: bool
  elt_thread :: Thread

definition EventLoopThread_new :: EventLoopThread where
  "EventLoopThread_new = \<lparr>elt_loop = False, exiting = False, elt_thread = Thread_new\<rparr>"

datatype owner_pc = Created | Waiting | Started | Quitting | Waking | Join | Joining | Destroyed

datatype worker_pc = NoThread | Callback | Publish | EnterLoop | LoopHead | Iterating | Clear | Exited

text \<open>\<open>the_loop\<close> is the object on the stack of the thread; it is gone when the thread has ended.\<close>

record elt_system =
  elt :: EventLoopThread
  the_loop :: EventLoop
  owner :: owner_pc
  worker :: worker_pc

subsection \<open>The owner\<close>

definition startLoop_begin :: "elt_system \<Rightarrow> elt_system option" where
  "startLoop_begin s = do {
     cassert (\<not> th_started (elt_thread (elt s)));
     t \<leftarrow> Thread_start True (elt_thread (elt s));
     Some (s\<lparr>elt := (elt s)\<lparr>elt_thread := t\<rparr>, owner := Waiting, worker := Callback\<rparr>)
   }"

definition startLoop_end :: "elt_system \<Rightarrow> elt_system option" where
  "startLoop_end s = Some (s\<lparr>owner := Started\<rparr>)"

definition EventLoopThread_dtor :: "elt_system \<Rightarrow> elt_system option" where
  "EventLoopThread_dtor s =
     (let s = s\<lparr>elt := (elt s)\<lparr>exiting := True\<rparr>\<rparr>
      in if elt_loop (elt s) then Some (s\<lparr>owner := Quitting\<rparr>) else Some (s\<lparr>owner := Destroyed\<rparr>))"

text \<open>The rest of the destructor: \<^verbatim>\<open>quit\<close> in two steps, on an object that must still exist, and \<^verbatim>\<open>join\<close>.\<close>

definition dtor_quit :: "elt_system \<Rightarrow> elt_system option" where
  "dtor_quit s = do {
     cassert (worker s \<noteq> Exited);
     Some (s\<lparr>the_loop := quit_set (the_loop s), owner := Waking\<rparr>)
   }"

definition dtor_wakeup :: "tid \<Rightarrow> elt_system \<Rightarrow> elt_system option" where
  "dtor_wakeup tid s = do {
     cassert (worker s \<noteq> Exited);
     Some (s\<lparr>the_loop := quit_wakeup tid (the_loop s), owner := Join\<rparr>)
   }"

definition dtor_join :: "elt_system \<Rightarrow> elt_system option" where
  "dtor_join s = do {
     t \<leftarrow> Thread_join (elt_thread (elt s));
     Some (s\<lparr>elt := (elt s)\<lparr>elt_thread := t\<rparr>, owner := Joining\<rparr>)
   }"

subsection \<open>The thread\<close>

definition threadFunc_callback :: "elt_system \<Rightarrow> elt_system option" where
  "threadFunc_callback s = Some (s\<lparr>worker := Publish\<rparr>)"

definition threadFunc_publish :: "elt_system \<Rightarrow> elt_system option" where
  "threadFunc_publish s = Some (s\<lparr>elt := (elt s)\<lparr>elt_loop := True\<rparr>, worker := EnterLoop\<rparr>)"

definition threadFunc_loop :: "tid \<Rightarrow> elt_system \<Rightarrow> elt_system option" where
  "threadFunc_loop tid s = do {
     l \<leftarrow> loop_start tid (the_loop s);
     Some (s\<lparr>the_loop := l, worker := LoopHead\<rparr>)
   }"

definition threadFunc_test :: "elt_system \<Rightarrow> elt_system option" where
  "threadFunc_test s =
     (if el_quit (the_loop s) then Some (s\<lparr>the_loop := loop_stop (the_loop s), worker := Clear\<rparr>)
      else Some (s\<lparr>worker := Iterating\<rparr>))"

definition threadFunc_iteration :: "elt_system \<Rightarrow> elt_system option" where
  "threadFunc_iteration s = Some (s\<lparr>the_loop := (the_loop s)\<lparr>iteration := iteration (the_loop s) + 1\<rparr>, worker := LoopHead\<rparr>)"

definition threadFunc_end :: "elt_system \<Rightarrow> elt_system option" where
  "threadFunc_end s = Some (s\<lparr>elt := (elt s)\<lparr>elt_loop := False\<rparr>, worker := Exited\<rparr>)"

section \<open>Runs\<close>

datatype elt_event = OwnerStep | WorkerStep | Destroy

fun elt_step :: "tid \<Rightarrow> tid \<Rightarrow> elt_event \<Rightarrow> elt_system \<Rightarrow> elt_system option" where
  "elt_step o_tid w_tid OwnerStep s = (case owner s of
      Created \<Rightarrow> startLoop_begin s
    | Waiting \<Rightarrow> startLoop_end s
    | Quitting \<Rightarrow> dtor_quit s
    | Waking \<Rightarrow> dtor_wakeup o_tid s
    | Join \<Rightarrow> dtor_join s
    | Joining \<Rightarrow> Some (s\<lparr>owner := Destroyed\<rparr>)
    | _ \<Rightarrow> Some s)"
| "elt_step o_tid w_tid Destroy s = EventLoopThread_dtor s"
| "elt_step o_tid w_tid WorkerStep s = (case worker s of
      Callback \<Rightarrow> threadFunc_callback s
    | Publish \<Rightarrow> threadFunc_publish s
    | EnterLoop \<Rightarrow> threadFunc_loop w_tid s
    | LoopHead \<Rightarrow> threadFunc_test s
    | Iterating \<Rightarrow> threadFunc_iteration s
    | Clear \<Rightarrow> threadFunc_end s
    | _ \<Rightarrow> Some s)"

fun elt_enabled :: "elt_event \<Rightarrow> elt_system \<Rightarrow> bool" where
  "elt_enabled OwnerStep s \<longleftrightarrow> (owner s = Waiting \<longrightarrow> elt_loop (elt s)) \<and> (owner s = Joining \<longrightarrow> worker s = Exited)
     \<and> owner s \<noteq> Started \<and> owner s \<noteq> Destroyed"
| "elt_enabled Destroy s \<longleftrightarrow> owner s = Started \<or> owner s = Created"
| "elt_enabled WorkerStep s \<longleftrightarrow> worker s \<noteq> NoThread \<and> worker s \<noteq> Exited"

definition elt_start :: "EventLoop \<Rightarrow> elt_system" where
  "elt_start l = \<lparr>elt = EventLoopThread_new, the_loop = l, owner = Created, worker = NoThread\<rparr>"

inductive elt_reachable :: "tid \<Rightarrow> tid \<Rightarrow> elt_system \<Rightarrow> elt_system \<Rightarrow> bool" for o_tid w_tid s0 where
  start: "elt_reachable o_tid w_tid s0 s0"
| step: "elt_reachable o_tid w_tid s0 s \<Longrightarrow> elt_enabled e s \<Longrightarrow> elt_step o_tid w_tid e s = Some s' \<Longrightarrow> elt_reachable o_tid w_tid s0 s'"

definition new_loop :: "tid \<Rightarrow> EventLoop" where
  "new_loop tid = \<lparr>looping = False, el_quit = False, el_eventHandling = False, callingPendingFunctors = False,
     iteration = 0, threadId = tid, wakeupCount = 0, activeChannels = [], currentActiveChannel = None, pendingFunctors = []\<rparr>"

lemma new_loop_ctor: "EventLoop_new tid x Map.empty = Some (new_loop tid, [tid \<mapsto> x])"
  by (simp add: EventLoop_new_def new_loop_def)

section \<open>What can happen\<close>

definition elt_inv :: "tid \<Rightarrow> elt_system \<Rightarrow> bool" where
  "elt_inv w_tid s \<longleftrightarrow> threadId (the_loop s) = w_tid
     \<and> (elt_loop (elt s) \<longleftrightarrow> worker s \<in> {EnterLoop, LoopHead, Iterating, Clear})
     \<and> (looping (the_loop s) \<longleftrightarrow> worker s \<in> {LoopHead, Iterating})
     \<and> (th_started (elt_thread (elt s)) \<longleftrightarrow> worker s \<noteq> NoThread)
     \<and> (th_joined (elt_thread (elt s)) \<longrightarrow> owner s \<in> {Joining, Destroyed})
     \<and> (owner s = Created \<longrightarrow> worker s = NoThread)
     \<and> (owner s \<notin> {Created, Destroyed} \<longrightarrow> worker s \<noteq> NoThread)
     \<and> (owner s \<in> {Started, Quitting} \<longrightarrow> worker s \<in> {EnterLoop, LoopHead, Iterating})
     \<and> (el_quit (the_loop s) \<or> worker s \<in> {Clear, Exited} \<longrightarrow> owner s \<in> {Waking, Join, Joining, Destroyed})"

lemmas elt_defs = startLoop_begin_def startLoop_end_def EventLoopThread_dtor_def dtor_quit_def dtor_wakeup_def dtor_join_def
  threadFunc_callback_def threadFunc_publish_def threadFunc_loop_def threadFunc_test_def threadFunc_iteration_def threadFunc_end_def
  Thread_start_def Thread_join_def quit_set_def quit_wakeup_def loop_start_def loop_stop_def assertInLoopThread_def isInLoopThread_def

lemma elt_step_inv:
  assumes "elt_inv w_tid s" "elt_enabled e s" "\<not> (e = OwnerStep \<and> owner s = Waking \<and> worker s = Exited)"
  shows "\<exists>s'. elt_step o_tid w_tid e s = Some s' \<and> elt_inv w_tid s'"
proof (cases e)
  case OwnerStep
  then show ?thesis using assms by (cases "owner s"; cases "worker s") (simp_all add: elt_inv_def elt_defs)
next
  case WorkerStep
  then show ?thesis using assms by (cases "worker s"; cases "owner s") (simp_all add: elt_inv_def elt_defs)
next
  case Destroy
  then show ?thesis using assms by (cases "owner s"; cases "worker s") (simp_all add: elt_inv_def elt_defs Let_def)
qed

lemma elt_reachable_inv: "elt_reachable o_tid w_tid (elt_start (new_loop w_tid)) s \<Longrightarrow> elt_inv w_tid s"
proof (induction rule: elt_reachable.induct)
  case start
  show ?case by (simp add: elt_inv_def elt_start_def EventLoopThread_new_def Thread_new_def new_loop_def)
next
  case (step s e s')
  have "\<not> (e = OwnerStep \<and> owner s = Waking \<and> worker s = Exited)" using step.hyps(3) by (auto simp: dtor_wakeup_def)
  then show ?case using elt_step_inv [OF step.IH step.hyps(2), of o_tid] step.hyps(3) by auto
qed

text \<open>
  A loop that \<^verbatim>\<open>startLoop\<close> returns exists, and the only step that can go wrong is the second half of \<^verbatim>\<open>quit\<close> in
  the destructor, after the thread has seen the flag and ended: it writes to the descriptor of an object
  that is gone.
\<close>

lemma EventLoopThread_safe:
  assumes "elt_reachable o_tid w_tid (elt_start (new_loop w_tid)) s" "elt_enabled e s"
  shows "(owner s = Started \<longrightarrow> elt_loop (elt s) \<and> worker s \<in> {EnterLoop, LoopHead, Iterating})
    \<and> (elt_step o_tid w_tid e s = None \<longleftrightarrow> e = OwnerStep \<and> owner s = Waking \<and> worker s = Exited)"
proof -
  have inv: "elt_inv w_tid s" by (rule elt_reachable_inv [OF assms(1)])
  have "elt_step o_tid w_tid e s = None" if "e = OwnerStep \<and> owner s = Waking \<and> worker s = Exited" using that by (simp add: dtor_wakeup_def)
  then have "elt_step o_tid w_tid e s = None \<longleftrightarrow> e = OwnerStep \<and> owner s = Waking \<and> worker s = Exited"
    using elt_step_inv [OF inv assms(2), of o_tid] by (metis option.distinct(1))
  moreover have "owner s = Started \<longrightarrow> elt_loop (elt s) \<and> worker s \<in> {EnterLoop, LoopHead, Iterating}"
    using inv unfolding elt_inv_def by auto
  ultimately show ?thesis by blast
qed

definition elt_run :: "tid \<Rightarrow> tid \<Rightarrow> elt_event list \<Rightarrow> elt_system \<Rightarrow> elt_system option" where
  "elt_run o_tid w_tid = run_ops (\<lambda>e s. if elt_enabled e s then elt_step o_tid w_tid e s else None)"

text \<open>That step is possible.\<close>

lemma EventLoopThread_use_after_exit:
  "\<exists>s. elt_run 1 2 [OwnerStep, WorkerStep, WorkerStep, OwnerStep, WorkerStep, Destroy, OwnerStep, WorkerStep, WorkerStep]
      (elt_start (new_loop 2)) = Some s \<and> elt_enabled OwnerStep s \<and> elt_step 1 2 OwnerStep s = None"
  by (simp add: elt_run_def elt_start_def EventLoopThread_new_def Thread_new_def new_loop_def elt_defs Let_def)

text \<open>
  When the destructor calls \<^verbatim>\<open>quit\<close> before the thread has entered \<^verbatim>\<open>loop\<close>, the start of the loop clears the flag,
  the loop runs on and the destructor waits forever.
\<close>

definition stuck :: "elt_system \<Rightarrow> bool" where
  "stuck s \<longleftrightarrow> owner s = Joining \<and> worker s \<in> {LoopHead, Iterating} \<and> \<not> el_quit (the_loop s)"

lemma stuck_forever: "elt_reachable o_tid w_tid s0 s \<Longrightarrow> stuck s0 \<Longrightarrow> stuck s"
proof (induction rule: elt_reachable.induct)
  case (step s e s')
  then have "stuck s" by blast
  then show ?case using step.hyps(2,3) by (cases e; cases "worker s") (auto simp: stuck_def elt_defs)
qed

lemma EventLoopThread_quit_lost:
  "\<exists>s. elt_run 1 2 [OwnerStep, WorkerStep, WorkerStep, OwnerStep, Destroy, OwnerStep, OwnerStep, OwnerStep, WorkerStep]
      (elt_start (new_loop 2)) = Some s \<and> (\<forall>s'. elt_reachable 1 2 s s' \<longrightarrow> owner s' = Joining)"
proof -
  have "\<exists>s. elt_run 1 2 [OwnerStep, WorkerStep, WorkerStep, OwnerStep, Destroy, OwnerStep, OwnerStep, OwnerStep, WorkerStep]
      (elt_start (new_loop 2)) = Some s \<and> stuck s"
    by (simp add: stuck_def elt_run_def elt_start_def EventLoopThread_new_def Thread_new_def new_loop_def elt_defs wakeup_def
        eventfd_write_def Let_def)
  then obtain s where "elt_run 1 2 [OwnerStep, WorkerStep, WorkerStep, OwnerStep, Destroy, OwnerStep, OwnerStep, OwnerStep, WorkerStep]
      (elt_start (new_loop 2)) = Some s" "stuck s" by blast
  then show ?thesis using stuck_forever [of 1 2 s] unfolding stuck_def by blast
qed

end
