(* ===== verification/Spec2Isabelle.thy ===== *)
theory Spec2Isabelle
  imports Net_Buffer Net_Poller Net_TimerQueue Net_EventLoop Net_TcpConnection Net_HttpServer Base_Format Base_LogStream Net_TcpClient Base_ThreadPool Net_ProtobufCodec Net_TcpServer Base_AsyncLogging Net_FastCgi Net_RpcChannel Base_FileUtil Net_EventLoopThread
begin

text \<open>
  A model of the network library under \<^verbatim>\<open>src/muduo/\<close> and of the HTTP server built on it, with the properties
  that make its parts correct.

  \<^bold>\<open>The program.\<close>  An event loop (\<^verbatim>\<open>net/EventLoop.cc\<close>) runs in one thread: it asks a poller
  (\<^verbatim>\<open>net/poller/\<close>) which channels (\<^verbatim>\<open>net/Channel.cc\<close>) have events, lets the channels call their handlers, and
  then runs the functors that other threads have queued.  Timers (\<^verbatim>\<open>net/TimerQueue.cc\<close>) are a channel of the
  loop, and so is each connection (\<^verbatim>\<open>net/TcpConnection.cc\<close>), which keeps its bytes in two buffers
  (\<^verbatim>\<open>net/Buffer.cc\<close>).  Servers (\<^verbatim>\<open>net/TcpServer.cc\<close> with \<^verbatim>\<open>Acceptor.cc\<close>) and clients (\<^verbatim>\<open>net/TcpClient.cc\<close> with
  \<^verbatim>\<open>Connector.cc\<close>) make and own connections; protocols (HTTP, the protobuf codec, RPC) read and write
  their buffers.  \<^verbatim>\<open>base/\<close> holds what they share: dates and times, logging, queues and threads.

  \<^bold>\<open>Conventions.\<close>
  \<^item> A function that can fail an assertion, abort, let an exception escape or have undefined behaviour
    returns an option; \<open>None\<close> is that failure.  That a component is safe is the theorem that the result is
    never \<open>None\<close>.
  \<^item> Objects are records with the fields of the classes.  Pointers are addresses into a heap (timers), places
    in a list (connections of a server) or numbers (functors, closures, channels).
  \<^item> Results of system calls, clock readings and the code of libraries (protobuf, zlib, services, user
    callbacks, \<^verbatim>\<open>operator new\<close>) are arguments; what is assumed of them is a named predicate such as \<open>write_ok\<close>,
    \<open>callbacks_ok\<close> or \<open>env_ok\<close>, in the hypotheses of the theorem.
  \<^item> Concurrent code is cut at its critical sections and waits; the pieces are the steps of a system, and
    properties hold for every interleaving.  Some records have fields that only record history (bytes
    accepted, callbacks run), for the sake of the statements.
  \<^item> Integers are words where their width matters, and \<open>int\<close> or \<open>nat\<close> elsewhere.

  \<^bold>\<open>Theories, the sources they model, and what is shown.\<close>
  \<^item> \<open>Muduo_Prelude\<close>: failing computations, character ranges, searching, \<^verbatim>\<open>snprintf\<close>, sequences of operations.
  \<^item> \<open>Net_Endian\<close>, \<open>Base_StringPiece\<close>, \<open>Net_Buffer\<close> (\<^verbatim>\<open>net/Endian.h\<close>, \<^verbatim>\<open>base/StringPiece.h\<close>, \<^verbatim>\<open>net/Buffer.h\<close>,
    \<^verbatim>\<open>Buffer.cc\<close>): a buffer is a queue of bytes along every sequence of operations; integers travel between
    hosts of either byte order.
  \<^item> \<open>Base_Date\<close>, \<open>Base_TimeZone\<close>, \<open>Base_Timestamp\<close>: calendar dates and Julian days are inverse to each other; zone
    files are read, and local time is UTC shifted by the transition in force.
  \<^item> \<open>Net_Channel\<close>, \<open>Net_Poller\<close>: both pollers watch exactly what the channels ask for, and where they differ.
  \<^item> \<open>Net_TimerQueue\<close>: no freed timer is used; exactly the due timers run, in order; cancelled ones never run
    again; the timerfd is armed for the earliest.
  \<^item> \<open>Net_EventLoop\<close>, \<open>Net_EventLoopThread\<close>: a loop with work or a request to quit is never left asleep; functors run in
    the order in which they were queued; life of the thread that owns a loop.
  \<^item> \<open>Net_TcpConnection\<close>: in every order of events no assertion fails, no byte is lost or repeated in either
    direction, and the socket is shut down after the last accepted byte and not before.
  \<^item> \<open>Net_TcpServer\<close>, \<open>Net_TcpClient\<close>, \<open>Net_InetAddress\<close> (with \<^verbatim>\<open>Acceptor.cc\<close>, \<^verbatim>\<open>EventLoopThreadPool.cc\<close>,
    \<^verbatim>\<open>Connector.cc\<close>, \<^verbatim>\<open>SocketsOps.cc\<close>): ownership of connections and sockets across loops, growing retry
    delays, and the orders of calls that abort or make the destructor fail.
  \<^item> \<open>Net_HttpContext\<close>, \<open>Net_HttpServer\<close> (\<^verbatim>\<open>net/http/\<close>): the parser does not depend on how the bytes are cut,
    printed requests are parsed back, responses are framed so that a client finds their end, file paths
    stay inside their directories; and the requests that abort the server.
  \<^item> \<open>Net_FastCgi\<close> (\<^verbatim>\<open>net/http/fastcgi/\<close>): the records of a request decode to the request; what the reader does with the answer.
  \<^item> \<open>Net_ProtobufCodec\<close>, \<open>Net_RpcChannel\<close> (\<^verbatim>\<open>net/protobuf/\<close>, \<^verbatim>\<open>net/protorpc/\<close>): frames in any chunks give the messages
    back; each RPC closure runs at most once, with the answer to its own call.
  \<^item> \<open>Base_Format\<close>, \<open>Base_LogStream\<close>, \<open>Base_LogFile\<close>, \<open>Base_AsyncLogging\<close>, \<open>Base_FileUtil\<close>: insertions stay inside the array and
    are whole or absent; rolled files hold exactly the lines appended; the asynchronous logger keeps order
    and makes progress, and which lines \<^verbatim>\<open>stop()\<close> loses.
  \<^item> \<open>Base_ThreadPool\<close> (with \<^verbatim>\<open>BlockingQueue.h\<close>, \<^verbatim>\<open>BoundedBlockingQueue.h\<close>, \<^verbatim>\<open>CountDownLatch.cc\<close>): queues are first in first
    out and lose no wake-up; workers of a stopped pool finish, callers blocked in \<^verbatim>\<open>run\<close> may not.
  \<^item> This theory: messages sent with the codec over a connection arrive whole and in order.

  \<^bold>\<open>Interfaces.\<close>  The locale \<open>byte_queue\<close> is what clients use of a buffer (interpretations \<open>buf\<close> and \<open>rbuf\<close>);
  \<open>poller\<close> is the contract of both backends (\<open>pp\<close>, and through the sublocale \<open>ep\<close> of \<open>epoll_kernel\<close>, whose
  laws are those documented for \<^verbatim>\<open>epoll_ctl\<close>, with the interpretation \<open>epl\<close>); \<open>blocking_queue\<close> is the contract of
  both queues (\<open>bq\<close>, \<open>bbq\<close>); \<open>log_sink\<close> is what the logger uses of a log file (\<open>lfs\<close>).

  \<^bold>\<open>Bounds.\<close>  No definition uses fuel.  Loops are structural or have termination proofs; the two parsing
  loops, \<open>parseRequest\<close> and \<open>codec_onMessage\<close>, are partial functions whose theorems state that they return.
  Limits in hypotheses are those of the code's types: fewer than \<open>2 ^ 64 - 1\<close> RPC calls on a channel, tags below
  \<open>2 ^ 31\<close> bytes, messages up to the 64 MB of \<^verbatim>\<open>kMaxMessageLen\<close>, 16-bit content lengths in FastCGI records.
  The size of the log buffers is a parameter.

  \<^bold>\<open>Not modelled.\<close>  The logger front end (thread-local caches and \<^verbatim>\<open>strerror_r\<close> around a \<^verbatim>\<open>LogStream\<close>);
  \<^verbatim>\<open>Mutex.h\<close>, \<^verbatim>\<open>Condition.cc\<close> and \<^verbatim>\<open>Socket.cc\<close> (one system call per function, seen here as the cuts between
  steps and as arguments); \<^verbatim>\<open>ProcessInfo.cc\<close> and the inspector (text from \<^verbatim>\<open>/proc\<close> and gperftools); \<^verbatim>\<open>GzipFile.h\<close>
  and \<^verbatim>\<open>ZlibStream.h\<close> (wrappers of zlib); rapidjson (a vendored library, used to read one configuration
  file); \<^verbatim>\<open>DefaultPoller.cc\<close> (reads an environment variable); examples and tests.  Of modelled classes the
  following is left out: the destructors of \<^verbatim>\<open>TcpClient\<close>, which depends on reference counts, and of
  \<^verbatim>\<open>EventLoop\<close>, functions that only forward one call, debug printing, and the memory of the C++ allocator.
\<close>

section \<open>Messages over a connection\<close>

lemma filled_buffers:
  assumes "length tag < 2 ^ 31"
    "list_all2 (\<lambda>m b. fillEmptyBuffer e P (ProtobufCodecLite_new tag raw) m (Buffer_new kInitialSize) = Some b) ms bs"
  shows "map Buffer_contents bs = map (frame P tag) ms"
  using assms(2)
proof (induction rule: list_all2_induct)
  case (Cons m ms b bs)
  then show ?case using fillEmptyBuffer_frame [OF assms(1), of e P raw m kInitialSize] by auto
qed simp

text \<open>What arrives of the frames of some messages decodes to some of the messages, from the first on.\<close>

lemma decode_some_frames:
  assumes "\<forall>m \<in> set ms. sendable P (ProtobufCodecLite_new tag raw) m" "concat (map (frame P tag) ms) = bs @ ys"
  shows "\<exists>n. fst (decode P (ProtobufCodecLite_new tag raw) bs) = map MessageCallback (take n ms)
    \<and> (ys = [] \<longrightarrow> take n ms = ms \<and> snd (decode P (ProtobufCodecLite_new tag raw) bs) = [])"
proof -
  let ?C = "ProtobufCodecLite_new tag raw"
  have C: "codec_ok ?C" by (simp add: codec_ok_def ProtobufCodecLite_new_def kChecksumLen_def)
  have all: "decode P ?C (bs @ ys) = (map MessageCallback ms, [])" using decode_frames [OF assms(1)] assms(2) by simp
  have ok: "list_all (\<lambda>c. \<not> is_error c) (fst (decode P ?C bs))"
    by (rule decode_prefix_ok [OF C, of P bs ys]) (simp add: all list_all_iff)
  obtain cs where "map MessageCallback ms = fst (decode P ?C bs) @ cs" using decode_append [OF C ok, of ys] all by auto
  then have "fst (decode P ?C bs) = map MessageCallback (take (length (fst (decode P ?C bs))) ms)"
    by (metis append_eq_conv_conj take_map)
  moreover have "take (length ms) ms = ms" by simp
  ultimately show ?thesis using all by (cases "ys = []") (metis append_Nil2 fst_conv snd_conv, blast)
qed

text \<open>
  C1. Messages arrive, in order and whole.  The messages that a program sends with the codec over a
  connection, whatever else happens to the connection and however the kernel takes the bytes from it and
  the network cuts them, are delivered by the codec on the other side from the first on and without an
  error; and when the output buffer has drained and everything has arrived, all of them are.
\<close>

theorem codec_over_connection:
  assumes "callbacks_ok cb" "write_ok wr" "conn_reachable wr cb c" "length tag < 2 ^ 31"
    "\<forall>m \<in> set ms. sendable P (ProtobufCodecLite_new tag raw) m"
    "list_all2 (\<lambda>m b. fillEmptyBuffer e P (ProtobufCodecLite_new tag raw) m (Buffer_new kInitialSize) = Some b) ms bs"
    "accepted c = concat (map Buffer_contents bs)" "prefix (concat chunks) (wire c)"
  shows "\<exists>n b'. codec_feed e' P (ProtobufCodecLite_new tag raw) chunks (Buffer_new k) = Some (map MessageCallback (take n ms), b')
    \<and> (readableBytes (outputBuffer c) = 0 \<and> concat chunks = wire c \<longrightarrow> take n ms = ms \<and> Buffer_contents b' = [])"
proof -
  let ?C = "ProtobufCodecLite_new tag raw"
  have C: "codec_ok ?C" by (simp add: codec_ok_def ProtobufCodecLite_new_def kChecksumLen_def)
  have inv: "conn_inv c" by (rule conn_reachable_inv [OF assms(3,1,2)])
  then have out: "accepted c = wire c @ Buffer_contents (outputBuffer c)" "Buffer_ok (outputBuffer c)"
    by (simp_all add: conn_inv_def conn_data_def out_bytes_def Buffer_ok_def)
  have frames: "concat (map (frame P tag) ms) = wire c @ Buffer_contents (outputBuffer c)"
    using filled_buffers [OF assms(4,6)] assms(7) out(1) by simp
  obtain zs where zs: "wire c = concat chunks @ zs" using assms(8) by (auto simp: prefix_def)
  obtain n where n: "fst (decode P ?C (concat chunks)) = map MessageCallback (take n ms)"
    "zs @ Buffer_contents (outputBuffer c) = [] \<longrightarrow> take n ms = ms \<and> snd (decode P ?C (concat chunks)) = []"
    using decode_some_frames [OF assms(5), of "concat chunks" "zs @ Buffer_contents (outputBuffer c)"] frames zs by auto
  have new: "Buffer_contents (Buffer_new k) = []" using Buffer_new_ok by simp
  have "next_frame P ?C [] = Wait" using C by (simp add: next_frame_def codec_ok_def)
  then obtain b' where b': "codec_feed e' P ?C chunks (Buffer_new k) = Some (map MessageCallback (take n ms), b')"
    "Buffer_contents b' = snd (decode P ?C (concat chunks))"
    using codec_feed_decode [OF Buffer_ok_new C, of P k chunks e'] n(1) new by (auto simp: list_all_iff)
  have "readableBytes (outputBuffer c) = 0 \<and> concat chunks = wire c \<longrightarrow> take n ms = ms \<and> Buffer_contents b' = []"
  proof (rule impI)
    assume drained: "readableBytes (outputBuffer c) = 0 \<and> concat chunks = wire c"
    have "Buffer_contents (outputBuffer c) = []" using drained readableBytes_0_iff [OF Buffer_ok_inv [OF out(2)]] by simp
    moreover have "zs = []" using zs drained by (metis append_self_conv)
    ultimately show "take n ms = ms \<and> Buffer_contents b' = []" using n(2) b'(2) by simp
  qed
  with b'(1) show ?thesis by blast
qed

text \<open>The witness: a message on a connection that takes all bytes at once, delivered byte by byte.\<close>

lemma quiet_sent:
  "conn_reachable (\<lambda>i d. Wrote (length d)) (\<lambda>_ _. [])
     ((TcpConnection_new False False)\<lparr>state := StateE.kConnected, interest := Some 3, writes := 1, wire := bs, accepted := bs\<rparr>)"
proof (rule conn_reachable.step [OF quiet_up])
  show "conn_event_ok (UserCall (conn_call.Send bs)) ((TcpConnection_new False False)\<lparr>state := StateE.kConnected, interest := Some 3\<rparr>)" by simp
qed (simp add: TcpConnection_new_def TcpConnection_send_def sendInLoop_def sock_write_def conn_isWriting_def event_consts
    Let_def Buffer_new_def readableBytes_def)

theorem codec_over_connection_witness:
  "\<exists>c b b'. conn_reachable (\<lambda>i d. Wrote (length d)) (\<lambda>_ _. []) c
    \<and> fillEmptyBuffer LittleEndian \<lparr>adler32 = (\<lambda>d. of_nat (length d)), serialize = id, parseArray = Some\<rparr>
        (ProtobufCodecLite_new ''RPC0'' None) ''hello'' (Buffer_new kInitialSize) = Some b
    \<and> wire c = Buffer_contents b
    \<and> codec_feed BigEndian \<lparr>adler32 = (\<lambda>d. of_nat (length d)), serialize = id, parseArray = Some\<rparr>
        (ProtobufCodecLite_new ''RPC0'' None) (map (\<lambda>c. [c]) (wire c)) (Buffer_new 0) = Some ([MessageCallback ''hello''], b')"
proof -
  let ?P = "\<lparr>adler32 = (\<lambda>d. of_nat (length d)), serialize = id, parseArray = Some\<rparr>" and ?C = "ProtobufCodecLite_new ''RPC0'' None"
  have tag: "length ''RPC0'' < 2 ^ 31" by simp
  obtain b where b: "fillEmptyBuffer LittleEndian ?P ?C ''hello'' (Buffer_new kInitialSize) = Some b"
    using fillEmptyBuffer_frame [OF tag, of LittleEndian ?P None "''hello''" kInitialSize] by blast
  define c where "c = (TcpConnection_new False False)\<lparr>state := StateE.kConnected, interest := Some 3, writes := 1,
    wire := Buffer_contents b, accepted := Buffer_contents b\<rparr>"
  have c: "conn_reachable (\<lambda>i d. Wrote (length d)) (\<lambda>_ _. []) c" unfolding c_def by (rule quiet_sent)
  have data: "accepted c = concat (map Buffer_contents [b])" "wire c = Buffer_contents b" "readableBytes (outputBuffer c) = 0"
    by (simp_all add: c_def TcpConnection_new_def Buffer_new_def readableBytes_def)
  have send: "\<forall>m \<in> set [''hello'']. sendable ?P ?C m"
    by (simp add: sendable_def raw_rejects_def ProtobufCodecLite_new_def length_frame_body kMaxMessageLen_def)
  have bytes: "concat (map (\<lambda>c. [c]) xs) = xs" for xs :: "char list" by (induction xs) auto
  have filled: "list_all2 (\<lambda>m b. fillEmptyBuffer LittleEndian ?P ?C m (Buffer_new kInitialSize) = Some b) [''hello''] [b]" using b by simp
  have arrived: "prefix (concat (map (\<lambda>c. [c]) (wire c))) (wire c)" by (simp add: bytes)
  obtain n b' where "codec_feed BigEndian ?P ?C (map (\<lambda>c. [c]) (wire c)) (Buffer_new 0) = Some (map MessageCallback (take n [''hello'']), b')"
    "take n [''hello''] = [''hello'']"
    using codec_over_connection [OF quiet_params c tag send filled data(1) arrived, of BigEndian 0] data(3) bytes by blast
  then have "codec_feed BigEndian ?P ?C (map (\<lambda>c. [c]) (wire c)) (Buffer_new 0) = Some ([MessageCallback ''hello''], b')" by simp
  then show ?thesis using c b data(2) by blast
qed

end
